(* ===== verification/Kino_Prelude.thy ===== *)
theory Kino_Prelude
  imports Main "HOL-Library.Word" "HOL-Library.Signed_Division" "HOL-Library.Char_ord"
begin

text \<open>
  Shared vocabulary of the KINO D4 firmware development: the machine integer types of the C
  sources, the reading of C strings as byte lists without their terminator, and the generic
  list and word lemmas several components use.

  \<^item> \<^verbatim>\<open>uint8_t\<close>, \<^verbatim>\<open>uint16_t\<close>, \<^verbatim>\<open>uint32_t\<close> and \<^verbatim>\<open>uint64_t\<close> are words of that width, so that
    unsigned arithmetic wraps as in C. Signed C integers are \<^typ>\<open>int\<close>: their overflow is
    undefined in C, and the operations modelled here do not reach it on the ranges the
    theorems state.
  \<^item> A C string is a \<^typ>\<open>string\<close>: the bytes before the terminating NUL. A pointer that may be
    NULL is an \<^typ>\<open>string option\<close>.
  \<^item> C integer division truncates toward zero: \<open>sdiv\<close> and \<open>smod\<close> of the signed division library.
\<close>

unbundle bit_operations_syntax

type_synonym u8 = "8 word"
type_synonym u16 = "16 word"
type_synonym u32 = "32 word"
type_synonym u64 = "64 word"
type_synonym bytes = "u8 list"

named_theorems wire_simps \<open>unfoldings of the wire layout of a KDP frame\<close>

section \<open>Lists\<close>

lemma foldl_append_split: "foldl f s (xs @ ys) = foldl f (foldl f s xs) ys"
  by simp

lemma foldl_inj_state:
  assumes "\<And>x. inj (\<lambda>s. f s x)"
  shows "inj (\<lambda>s. foldl f s xs)"
proof (induction xs)
  case Nil
  show ?case by (simp add: inj_def)
next
  case (Cons x xs)
  have "(\<lambda>s. foldl f s (x # xs)) = (\<lambda>s. foldl f s xs) \<circ> (\<lambda>s. f s x)"
    by (simp add: fun_eq_iff)
  then show ?case using inj_compose [OF Cons assms [of x]] by simp
qed

text \<open>The index of the first element that satisfies a test: the search loops of the sources.\<close>

fun first_at :: "('a \<Rightarrow> bool) \<Rightarrow> 'a list \<Rightarrow> nat option" where
  "first_at P [] = None"
| "first_at P (x # xs) = (if P x then Some 0 else map_option Suc (first_at P xs))"

lemma first_at_None: "first_at P xs = None \<longleftrightarrow> (\<forall>x \<in> set xs. \<not> P x)"
  by (induction xs) auto

lemma first_at_SomeD:
  "first_at P xs = Some i \<Longrightarrow> i < length xs \<and> P (xs ! i) \<and> (\<forall>j < i. \<not> P (xs ! j))"
proof (induction xs arbitrary: i)
  case (Cons x xs)
  then show ?case
    by (cases i) (auto split: if_splits simp: less_Suc_eq_0_disj)
qed simp

lemma first_at_eqI:
  "i < length xs \<Longrightarrow> P (xs ! i) \<Longrightarrow> (\<And>j. j < i \<Longrightarrow> \<not> P (xs ! j)) \<Longrightarrow> first_at P xs = Some i"
  by (metis first_at_None first_at_SomeD linorder_neqE_nat not_None_eq nth_mem)

section \<open>C strings\<close>

text \<open>
  \<^verbatim>\<open>pure_strcopy(dst, cap, src)\<close> of \<^verbatim>\<open>pure.h\<close> into a buffer of \<open>cap\<close> bytes, \<open>cap\<close> at least one: the
  string \<open>dst\<close> then holds, NULL reading as the empty string; its return value is the source's
  length.
\<close>

definition pure_strcopy :: "nat \<Rightarrow> string option \<Rightarrow> string \<times> nat" where
  "pure_strcopy cap src =
    (let s = (case src of None \<Rightarrow> [] | Some s \<Rightarrow> s); len = length s;
         n = (if len < cap - 1 then len else cap - 1)
     in (take n s, len))"

definition c_upper :: "char \<Rightarrow> bool" where
  "c_upper c \<longleftrightarrow> c \<ge> CHR ''A'' \<and> c \<le> CHR ''Z''"

definition c_digit :: "char \<Rightarrow> bool" where
  "c_digit c \<longleftrightarrow> c \<ge> CHR ''0'' \<and> c \<le> CHR ''9''"

lemma strcopy_fits: "length s < cap \<Longrightarrow> fst (pure_strcopy cap (Some s)) = s"
  by (auto simp: pure_strcopy_def Let_def)

lemma strcopy_take: "fst (pure_strcopy cap (Some s)) = take (cap - 1) s"
  by (simp add: pure_strcopy_def Let_def)

section \<open>Words\<close>

lemma xor_left_cancel [simp]: "(a XOR b = a XOR c) = (b = c)" for a b c :: "'a::len word"
proof
  assume "a XOR b = a XOR c"
  then have "a XOR (a XOR b) = a XOR (a XOR c)" by simp
  then show "b = c" by (simp add: xor.assoc [symmetric])
qed simp

lemma xor_right_cancel [simp]: "(b XOR a = c XOR a) = (b = c)" for a b c :: "'a::len word"
  by (simp add: xor.commute [of _ a])

section \<open>Machines that settle\<close>

text \<open>
  A component whose every judged event makes progress: under the invariant \<open>ok\<close>, an event that
  is \<open>fair\<close> lowers a rank until the state is settled, and a settled state stays settled. Any
  sequence of fair events as long as the rank settles it.
\<close>

locale ranked_machine =
  fixes step :: "'s \<Rightarrow> 'e \<Rightarrow> 's"
    and settled :: "'s \<Rightarrow> bool"
    and ok :: "'s \<Rightarrow> bool"
    and fair :: "'e \<Rightarrow> bool"
    and rank :: "'s \<Rightarrow> nat"
  assumes step_ok: "ok s \<Longrightarrow> fair e \<Longrightarrow> ok (step s e)"
    and step_rank: "ok s \<Longrightarrow> fair e \<Longrightarrow> \<not> settled s \<Longrightarrow> rank (step s e) < rank s"
    and settled_step: "ok s \<Longrightarrow> fair e \<Longrightarrow> settled s \<Longrightarrow> settled (step s e)"
    and rank_zero: "ok s \<Longrightarrow> rank s = 0 \<Longrightarrow> settled s"
begin

lemma settled_run:
  "ok s \<Longrightarrow> (\<And>e. e \<in> set es \<Longrightarrow> fair e) \<Longrightarrow> settled s \<Longrightarrow> settled (foldl step s es)"
  by (induction es arbitrary: s) (auto intro: step_ok settled_step)

lemma settles:
  "ok s \<Longrightarrow> (\<And>e. e \<in> set es \<Longrightarrow> fair e) \<Longrightarrow> rank s \<le> length es \<Longrightarrow> settled (foldl step s es)"
proof (induction es arbitrary: s)
  case Nil
  then show ?case by (simp add: rank_zero)
next
  case (Cons e es)
  have e: "fair e" and es: "\<And>e. e \<in> set es \<Longrightarrow> fair e" using Cons.prems(2) by auto
  show ?case
  proof (cases "settled s")
    case True
    with Cons.prems(1) e have "settled (step s e)" by (rule settled_step)
    with settled_run [OF step_ok [OF Cons.prems(1) e] es] show ?thesis by simp
  next
    case False
    then have "rank (step s e) \<le> length es"
      using step_rank [OF Cons.prems(1) e] Cons.prems(3) by fastforce
    with Cons.IH [OF step_ok [OF Cons.prems(1) e] es] show ?thesis by simp
  qed
qed

end

text \<open>
  A machine whose steps may also leave it waiting: its rank never rises, falls with every step taken
  when something is due, and it settles once as many due steps were taken as its rank.
\<close>

fun dues :: "('s \<Rightarrow> 'e \<Rightarrow> 's) \<Rightarrow> ('s \<Rightarrow> 'e \<Rightarrow> bool) \<Rightarrow> 's \<Rightarrow> 'e list \<Rightarrow> nat" where
  "dues step due s [] = 0"
| "dues step due s (e # es) = (if due s e then 1 else 0) + dues step due (step s e) es"

locale stuttering_machine =
  fixes step :: "'s \<Rightarrow> 'e \<Rightarrow> 's"
    and settled :: "'s \<Rightarrow> bool"
    and ok :: "'s \<Rightarrow> bool"
    and due :: "'s \<Rightarrow> 'e \<Rightarrow> bool"
    and rank :: "'s \<Rightarrow> nat"
  assumes stays_ok: "ok s \<Longrightarrow> ok (step s e)"
    and never_up: "ok s \<Longrightarrow> rank (step s e) \<le> rank s"
    and due_down: "ok s \<Longrightarrow> due s e \<Longrightarrow> \<not> settled s \<Longrightarrow> rank (step s e) < rank s"
    and stays_settled: "ok s \<Longrightarrow> settled s \<Longrightarrow> settled (step s e)"
    and bottom_settled: "ok s \<Longrightarrow> rank s = 0 \<Longrightarrow> settled s"
begin

lemma settled_stays: "ok s \<Longrightarrow> settled s \<Longrightarrow> settled (foldl step s es)"
  by (induction es arbitrary: s) (auto intro: stays_ok stays_settled)

lemma settles_when_due: "ok s \<Longrightarrow> rank s \<le> dues step due s es \<Longrightarrow> settled (foldl step s es)"
proof (induction es arbitrary: s)
  case Nil
  then show ?case by (simp add: bottom_settled)
next
  case (Cons e es)
  show ?case
  proof (cases "settled s")
    case True
    then show ?thesis using Cons.prems(1) settled_stays [of "step s e" es] stays_ok stays_settled by simp
  next
    case False
    then have "rank (step s e) \<le> dues step due (step s e) es"
      using Cons.prems due_down [of s e] never_up [of s e] by (cases "due s e") auto
    then show ?thesis using Cons.IH [of "step s e"] Cons.prems(1) stays_ok by simp
  qed
qed

end

end
