(* ===== verification/Kdp_Crc32.thy ===== *)
theory Kdp_Crc32
  imports Kino_Prelude
begin

text \<open>
  The CRC-32 of the KDP link (\<^verbatim>\<open>firmware/components/kdp_core/src/crc32.c\<close>): the table the source
  spells out, the streaming interface \<open>begin\<close>, \<open>update\<close>, \<open>final\<close>, and the one-shot function.

  The lemmas show that the table-driven loop computes the bit-serial CRC with the reflected
  polynomial \<open>0xEDB88320\<close> that the header documents, that streaming in chunks gives the
  one-shot value, and that two messages of the same length which differ only inside a window
  of four consecutive bytes never have the same CRC.
\<close>

section \<open>The code\<close>

definition table :: "u32 list" where
  "table =
    [0x00000000, 0x77073096, 0xEE0E612C, 0x990951BA,
     0x076DC419, 0x706AF48F, 0xE963A535, 0x9E6495A3,
     0x0EDB8832, 0x79DCB8A4, 0xE0D5E91E, 0x97D2D988,
     0x09B64C2B, 0x7EB17CBD, 0xE7B82D07, 0x90BF1D91,
     0x1DB71064, 0x6AB020F2, 0xF3B97148, 0x84BE41DE,
     0x1ADAD47D, 0x6DDDE4EB, 0xF4D4B551, 0x83D385C7,
     0x136C9856, 0x646BA8C0, 0xFD62F97A, 0x8A65C9EC,
     0x14015C4F, 0x63066CD9, 0xFA0F3D63, 0x8D080DF5,
     0x3B6E20C8, 0x4C69105E, 0xD56041E4, 0xA2677172,
     0x3C03E4D1, 0x4B04D447, 0xD20D85FD, 0xA50AB56B,
     0x35B5A8FA, 0x42B2986C, 0xDBBBC9D6, 0xACBCF940,
     0x32D86CE3, 0x45DF5C75, 0xDCD60DCF, 0xABD13D59,
     0x26D930AC, 0x51DE003A, 0xC8D75180, 0xBFD06116,
     0x21B4F4B5, 0x56B3C423, 0xCFBA9599, 0xB8BDA50F,
     0x2802B89E, 0x5F058808, 0xC60CD9B2, 0xB10BE924,
     0x2F6F7C87, 0x58684C11, 0xC1611DAB, 0xB6662D3D,
     0x76DC4190, 0x01DB7106, 0x98D220BC, 0xEFD5102A,
     0x71B18589, 0x06B6B51F, 0x9FBFE4A5, 0xE8B8D433,
     0x7807C9A2, 0x0F00F934, 0x9609A88E, 0xE10E9818,
     0x7F6A0DBB, 0x086D3D2D, 0x91646C97, 0xE6635C01,
     0x6B6B51F4, 0x1C6C6162, 0x856530D8, 0xF262004E,
     0x6C0695ED, 0x1B01A57B, 0x8208F4C1, 0xF50FC457,
     0x65B0D9C6, 0x12B7E950, 0x8BBEB8EA, 0xFCB9887C,
     0x62DD1DDF, 0x15DA2D49, 0x8CD37CF3, 0xFBD44C65,
     0x4DB26158, 0x3AB551CE, 0xA3BC0074, 0xD4BB30E2,
     0x4ADFA541, 0x3DD895D7, 0xA4D1C46D, 0xD3D6F4FB,
     0x4369E96A, 0x346ED9FC, 0xAD678846, 0xDA60B8D0,
     0x44042D73, 0x33031DE5, 0xAA0A4C5F, 0xDD0D7CC9,
     0x5005713C, 0x270241AA, 0xBE0B1010, 0xC90C2086,
     0x5768B525, 0x206F85B3, 0xB966D409, 0xCE61E49F,
     0x5EDEF90E, 0x29D9C998, 0xB0D09822, 0xC7D7A8B4,
     0x59B33D17, 0x2EB40D81, 0xB7BD5C3B, 0xC0BA6CAD,
     0xEDB88320, 0x9ABFB3B6, 0x03B6E20C, 0x74B1D29A,
     0xEAD54739, 0x9DD277AF, 0x04DB2615, 0x73DC1683,
     0xE3630B12, 0x94643B84, 0x0D6D6A3E, 0x7A6A5AA8,
     0xE40ECF0B, 0x9309FF9D, 0x0A00AE27, 0x7D079EB1,
     0xF00F9344, 0x8708A3D2, 0x1E01F268, 0x6906C2FE,
     0xF762575D, 0x806567CB, 0x196C3671, 0x6E6B06E7,
     0xFED41B76, 0x89D32BE0, 0x10DA7A5A, 0x67DD4ACC,
     0xF9B9DF6F, 0x8EBEEFF9, 0x17B7BE43, 0x60B08ED5,
     0xD6D6A3E8, 0xA1D1937E, 0x38D8C2C4, 0x4FDFF252,
     0xD1BB67F1, 0xA6BC5767, 0x3FB506DD, 0x48B2364B,
     0xD80D2BDA, 0xAF0A1B4C, 0x36034AF6, 0x41047A60,
     0xDF60EFC3, 0xA867DF55, 0x316E8EEF, 0x4669BE79,
     0xCB61B38C, 0xBC66831A, 0x256FD2A0, 0x5268E236,
     0xCC0C7795, 0xBB0B4703, 0x220216B9, 0x5505262F,
     0xC5BA3BBE, 0xB2BD0B28, 0x2BB45A92, 0x5CB36A04,
     0xC2D7FFA7, 0xB5D0CF31, 0x2CD99E8B, 0x5BDEAE1D,
     0x9B64C2B0, 0xEC63F226, 0x756AA39C, 0x026D930A,
     0x9C0906A9, 0xEB0E363F, 0x72076785, 0x05005713,
     0x95BF4A82, 0xE2B87A14, 0x7BB12BAE, 0x0CB61B38,
     0x92D28E9B, 0xE5D5BE0D, 0x7CDCEFB7, 0x0BDBDF21,
     0x86D3D2D4, 0xF1D4E242, 0x68DDB3F8, 0x1FDA836E,
     0x81BE16CD, 0xF6B9265B, 0x6FB077E1, 0x18B74777,
     0x88085AE6, 0xFF0F6A70, 0x66063BCA, 0x11010B5C,
     0x8F659EFF, 0xF862AE69, 0x616BFFD3, 0x166CCF45,
     0xA00AE278, 0xD70DD2EE, 0x4E048354, 0x3903B3C2,
     0xA7672661, 0xD06016F7, 0x4969474D, 0x3E6E77DB,
     0xAED16A4A, 0xD9D65ADC, 0x40DF0B66, 0x37D83BF0,
     0xA9BCAE53, 0xDEBB9EC5, 0x47B2CF7F, 0x30B5FFE9,
     0xBDBDF21C, 0xCABAC28A, 0x53B39330, 0x24B4A3A6,
     0xBAD03605, 0xCDD70693, 0x54DE5729, 0x23D967BF,
     0xB3667A2E, 0xC4614AB8, 0x5D681B02, 0x2A6F2B94,
     0xB40BBE37, 0xC30C8EA1, 0x5A05DF1B, 0x2D02EF8D]"

definition kdp_crc32_begin :: u32 where
  "kdp_crc32_begin = 0xFFFFFFFF"

definition crc_step :: "u32 \<Rightarrow> u8 \<Rightarrow> u32" where
  "crc_step state b = drop_bit 8 state XOR table ! unat ((state XOR ucast b) AND 0xFF)"

definition kdp_crc32_update :: "u32 \<Rightarrow> bytes \<Rightarrow> u32" where
  "kdp_crc32_update state data = foldl crc_step state data"

definition kdp_crc32_final :: "u32 \<Rightarrow> u32" where
  "kdp_crc32_final state = state XOR 0xFFFFFFFF"

definition kdp_crc32 :: "bytes \<Rightarrow> u32" where
  "kdp_crc32 data = kdp_crc32_final (kdp_crc32_update kdp_crc32_begin data)"

section \<open>The bit-serial reference\<close>

text \<open>
  One shift of the reflected CRC register, and the reference CRC as the header describes it:
  initial value and final exclusive-or all ones, least significant bit first.
\<close>

definition crc_bit :: "u32 \<Rightarrow> u32" where
  "crc_bit x = drop_bit 1 x XOR (if bit x 0 then 0xEDB88320 else 0)"

definition crc_byte :: "u32 \<Rightarrow> u32" where
  "crc_byte x = crc_bit (crc_bit (crc_bit (crc_bit (crc_bit (crc_bit (crc_bit (crc_bit x)))))))"

definition crc32_reference :: "bytes \<Rightarrow> u32" where
  "crc32_reference data =
     foldl (\<lambda>s b. crc_byte (s XOR ucast b)) 0xFFFFFFFF data XOR 0xFFFFFFFF"

section \<open>The table is the reference\<close>

lemma crc_bit_xor: "crc_bit (x XOR y) = crc_bit x XOR crc_bit y"
  by (cases "bit x 0"; cases "bit y 0")
    (simp_all add: crc_bit_def drop_bit_xor bit_xor_iff ac_simps)

lemma crc_byte_xor: "crc_byte (x XOR y) = crc_byte x XOR crc_byte y"
  by (simp add: crc_byte_def crc_bit_xor)

text \<open>
  The table by doubling: the rows from \<open>2 ^ k\<close> on are the rows below it with the row of
  \<open>2 ^ k\<close> added, since the register's step is linear over exclusive-or.
\<close>

definition crc_rows :: "nat \<Rightarrow> u32 list" where
  "crc_rows n = map (\<lambda>i. crc_byte (of_nat i)) [0..<n]"

lemma of_nat_power_xor:
  assumes "j < 2 ^ k" shows "of_nat (2 ^ k + j) = (2 ^ k XOR of_nat j :: u32)"
proof -
  have "bit j n \<Longrightarrow> n < k" for n
    using assms by (metis bit_take_bit_iff take_bit_nat_eq_self_iff)
  then have "2 ^ k AND j = 0"
    by (intro bit_eqI) (auto simp: bit_simps)
  then have "2 ^ k + j = 2 ^ k XOR j"
    by (simp add: disjunctive_add_eq_xor)
  then show ?thesis by (simp add: of_nat_xor_eq)
qed

lemma crc_rows_double:
  assumes "crc_rows (2 ^ k) = rs" and "crc_byte (2 ^ k) = c"
  shows "crc_rows (2 ^ Suc k) = rs @ map ((XOR) c) rs"
proof -
  have "[0..<2 ^ Suc k] = [0..<2 ^ k] @ map (\<lambda>j. 2 ^ k + j) [0..<2 ^ k]"
    using upt_add_eq_append [of 0 "2 ^ k" "2 ^ k"] map_add_upt [of "2 ^ k" "2 ^ k"]
    by (simp add: mult_2 add.commute)
  moreover have "crc_byte (of_nat (2 ^ k + j)) = c XOR crc_byte (of_nat j)" if "j < 2 ^ k" for j
    by (simp only: of_nat_power_xor [OF that] crc_byte_xor assms(2))
  ultimately show ?thesis
    using assms(1) by (auto simp: crc_rows_def o_def simp del: of_nat_add of_nat_power upt_Suc)
qed

lemma crc_byte_powers:
  "crc_byte (2 ^ 0) = 0x77073096" "crc_byte (2 ^ 1) = 0xEE0E612C"
  "crc_byte (2 ^ 2) = 0x076DC419" "crc_byte (2 ^ 3) = 0x0EDB8832"
  "crc_byte (2 ^ 4) = 0x1DB71064" "crc_byte (2 ^ 5) = 0x3B6E20C8"
  "crc_byte (2 ^ 6) = 0x76DC4190" "crc_byte (2 ^ 7) = 0xEDB88320"
  by (simp_all add: crc_byte_def crc_bit_def)

lemma table_rows: "crc_rows 256 = table"
proof -
  have "crc_rows (2 ^ 0) = [0]"
    by (simp add: crc_rows_def crc_byte_def crc_bit_def)
  from crc_rows_double [OF this crc_byte_powers(1)]
  have "crc_rows (2 ^ 1) = [0, 0x77073096]" by simp
  from crc_rows_double [OF this crc_byte_powers(2)]
  have "crc_rows (2 ^ 2) = take 4 table" by (simp add: table_def numeral_2_eq_2)
  from crc_rows_double [OF this crc_byte_powers(3)]
  have "crc_rows (2 ^ 3) = take 8 table" by (simp add: table_def)
  from crc_rows_double [OF this crc_byte_powers(4)]
  have "crc_rows (2 ^ 4) = take 16 table" by (simp add: table_def)
  from crc_rows_double [OF this crc_byte_powers(5)]
  have "crc_rows (2 ^ 5) = take 32 table" by (simp add: table_def)
  from crc_rows_double [OF this crc_byte_powers(6)]
  have "crc_rows (2 ^ 6) = take 64 table" by (simp add: table_def)
  from crc_rows_double [OF this crc_byte_powers(7)]
  have "crc_rows (2 ^ 7) = take 128 table" by (simp add: table_def)
  from crc_rows_double [OF this crc_byte_powers(8)]
  show ?thesis by (simp add: table_def)
qed

lemma length_table [simp]: "length table = 256"
  by (simp add: table_rows [symmetric] crc_rows_def)

lemma table_nth: "i < 256 \<Longrightarrow> table ! i = crc_byte (of_nat i)"
  by (simp add: table_rows [symmetric] crc_rows_def)

lemma and_byte_mask: "x AND 0xFF = take_bit 8 x" for x :: u32
proof -
  have "(0xFF::u32) = mask 8" by (simp add: mask_eq_decr_exp)
  then show ?thesis by (simp only: take_bit_eq_mask)
qed

lemma byte_split: "x = take_bit 8 x XOR push_bit 8 (drop_bit 8 x)" for x :: u32
  by (simp add: bit_eq_iff bit_simps) auto

lemma crc_byte_high: "take_bit 8 x = 0 \<Longrightarrow> crc_byte x = drop_bit 8 x"
proof -
  assume z: "take_bit 8 x = 0"
  have nb: "\<not> bit x n" if "n < 8" for n
    using that z by (metis bit_0_eq bit_take_bit_iff bot_apply bot_bool_def)
  have "crc_byte x = drop_bit (Suc (Suc (Suc (Suc (Suc (Suc (Suc (Suc 0)))))))) x"
    using nb by (simp add: crc_byte_def crc_bit_def bit_drop_bit_eq)
  then show ?thesis by (simp add: numeral_eq_Suc)
qed

lemma drop_bit_byte [simp]: "drop_bit 8 (x XOR ucast (b::u8)) = drop_bit 8 x" for x :: u32
  by (rule bit_word_eqI) (auto simp: bit_simps dest: bit_imp_le_length)

text \<open>One table step is eight shifts of the register with the byte folded in.\<close>

lemma crc_step_reference: "crc_step s b = crc_byte (s XOR ucast b)"
proof -
  let ?x = "s XOR ucast b"
  have idx: "unat (take_bit 8 ?x) < 256"
    using take_bit_nat_less_exp [of 8 "unat ?x"]
    by (simp add: unsigned_take_bit_eq del: take_bit_xor)
  have "crc_byte ?x = crc_byte (take_bit 8 ?x) XOR crc_byte (push_bit 8 (drop_bit 8 ?x))"
    by (subst byte_split) (rule crc_byte_xor)
  also have "crc_byte (push_bit 8 (drop_bit 8 ?x)) = drop_bit 8 (push_bit 8 (drop_bit 8 ?x))"
    by (rule crc_byte_high) (simp add: bit_eq_iff bit_simps)
  also have "\<dots> = drop_bit 8 s"
    by (simp add: bit_eq_iff bit_simps) (auto simp: bit_simps dest: bit_imp_le_length)
  finally show ?thesis
    by (simp add: crc_step_def and_byte_mask table_nth [OF idx] xor.commute [of "drop_bit 8 s"]
        del: take_bit_xor)
qed

lemma crc32_update_append:
  "kdp_crc32_update s (xs @ ys) = kdp_crc32_update (kdp_crc32_update s xs) ys"
  by (simp add: kdp_crc32_update_def)

section \<open>Injectivity: what the CRC can never miss\<close>

text \<open>
  The polynomial's top coefficient is one, so a shift can be undone: the top bit of the
  result says whether the polynomial was added.
\<close>

definition crc_unbit :: "u32 \<Rightarrow> u32" where
  "crc_unbit y = (if bit y 31 then push_bit 1 (y XOR 0xEDB88320) OR 1 else push_bit 1 y)"

lemma crc_bit_inverse: "crc_unbit (crc_bit x) = x"
proof -
  have poly: "bit (0xEDB88320::u32) 31" by simp
  have top: "bit (crc_bit x) 31 = bit x 0"
    using poly bit_imp_le_length [of x 32] by (auto simp: crc_bit_def bit_simps)
  have "push_bit 1 (drop_bit 1 x) OR 1 = x" if "bit x 0"
    by (rule bit_word_eqI) (use that in \<open>auto simp: bit_simps Suc_le_eq simp del: push_bit_Suc push_bit_of_1\<close>)
  moreover have "push_bit 1 (drop_bit 1 x) = x" if "\<not> bit x 0"
  proof (rule bit_word_eqI)
    fix n assume "n < LENGTH(32)"
    then show "bit (push_bit 1 (drop_bit 1 x)) n = bit x n"
      using that by (cases n) (auto simp: bit_simps simp del: push_bit_Suc)
  qed
  ultimately show ?thesis
    using top by (simp add: crc_unbit_def crc_bit_def xor.assoc)
qed
 
lemma inj_crc_byte: "inj crc_byte"
proof (rule injI)
  fix x y assume "crc_byte x = crc_byte y"
  then show "x = y"
    unfolding crc_byte_def by (metis crc_bit_inverse)
qed

lemma inj_crc_step: "inj (\<lambda>s. crc_step s b)"
  using inj_crc_byte by (auto intro!: injI simp: crc_step_reference inj_eq)

lemma inj_crc32_update: "inj (\<lambda>s. kdp_crc32_update s data)"
  unfolding kdp_crc32_update_def by (rule foldl_inj_state) (rule inj_crc_step)

text \<open>A window of at most four bytes enters the register as one little-endian word.\<close>

fun pack_le :: "bytes \<Rightarrow> u32" where
  "pack_le [] = 0"
| "pack_le (b # bs) = ucast b XOR push_bit 8 (pack_le bs)"

lemma pack_le_high: "length bs \<le> n \<Longrightarrow> 8 * n \<le> k \<Longrightarrow> \<not> bit (pack_le bs) k"
proof (induction bs arbitrary: n k)
  case Nil
  then show ?case by simp
next
  case (Cons b bs)
  have "length bs \<le> n - 1" and "8 * (n - 1) \<le> k - 8" and "8 \<le> k"
    using Cons.prems by simp_all
  then have "\<not> bit (pack_le bs) (k - 8)" and "8 \<le> k"
    using Cons.IH [of "n - 1" "k - 8"] by simp_all
  then show ?case
    by (auto simp: bit_simps dest: bit_imp_le_length)
qed

lemma pack_le_shift:
  assumes "length bs \<le> 3"
  shows "drop_bit 8 (push_bit 8 (pack_le bs)) = pack_le bs"
proof -
  have "bit (pack_le bs) k \<Longrightarrow> k < 24" for k
    using pack_le_high [OF assms, of k] by force
  then show ?thesis by (auto simp: bit_eq_iff bit_simps)
qed

lemma crc32_update_window:
  "length bs \<le> 4 \<Longrightarrow> kdp_crc32_update s bs = (crc_byte ^^ length bs) (s XOR pack_le bs)"
proof (induction bs arbitrary: s)
  case Nil
  then show ?case by (simp add: kdp_crc32_update_def)
next
  case (Cons b bs)
  have high: "crc_byte (push_bit 8 (pack_le bs)) = pack_le bs"
    using crc_byte_high [of "push_bit 8 (pack_le bs)"] pack_le_shift [of bs] Cons.prems
    by (simp add: bit_eq_iff bit_simps)
  have "kdp_crc32_update s (b # bs) = kdp_crc32_update (crc_byte (s XOR ucast b)) bs"
    by (simp add: kdp_crc32_update_def crc_step_reference)
  also have "\<dots> = (crc_byte ^^ length bs) (crc_byte (s XOR ucast b) XOR pack_le bs)"
    using Cons by simp
  also have "crc_byte (s XOR ucast b) XOR pack_le bs = crc_byte (s XOR pack_le (b # bs))"
    using high by (simp add: crc_byte_xor xor.assoc)
  finally show ?case
    by (simp add: funpow_swap1)
qed

lemma pack_le_inj:
  "length xs = length ys \<Longrightarrow> length xs \<le> 4 \<Longrightarrow> pack_le xs = pack_le ys \<Longrightarrow> xs = ys"
proof (induction xs ys rule: list_induct2)
  case Nil
  then show ?case by simp
next
  case (Cons x xs y ys)
  have split: "take_bit 8 (pack_le (b # bs)) = ucast b"
    "length bs \<le> 3 \<Longrightarrow> drop_bit 8 (pack_le (b # bs)) = pack_le bs" for b :: u8 and bs
    using pack_le_shift [of bs]
    by (auto simp: bit_eq_iff bit_simps dest: bit_imp_le_length)
  have "(ucast x :: u32) = ucast y"
    using split(1) [of x xs] split(1) [of y ys] Cons.prems by metis
  then have "x = y" by transfer simp
  moreover have "length xs \<le> 3" and "length ys \<le> 3"
    using Cons.hyps Cons.prems by simp_all
  then have "pack_le xs = pack_le ys"
    using split(2) [of xs x] split(2) [of ys y] Cons.prems by metis
  ultimately show ?case using Cons by simp
qed

lemma crc32_update_window_inj:
  assumes "length xs = length ys" and "length xs \<le> 4" and "xs \<noteq> ys"
  shows "kdp_crc32_update s xs \<noteq> kdp_crc32_update s ys"
proof
  assume "kdp_crc32_update s xs = kdp_crc32_update s ys"
  then have "(crc_byte ^^ length xs) (s XOR pack_le xs) = (crc_byte ^^ length xs) (s XOR pack_le ys)"
    using assms by (simp add: crc32_update_window)
  then have "s XOR pack_le xs = s XOR pack_le ys"
    using inj_fn [OF inj_crc_byte] by (simp add: inj_eq)
  then show False
    using pack_le_inj [OF assms(1,2)] assms(3) by simp
qed

lemma crc32_window_changes:
  assumes "length xs = length ys" and "length xs \<le> 4" and "xs \<noteq> ys"
  shows "kdp_crc32 (pre @ xs @ post) \<noteq> kdp_crc32 (pre @ ys @ post)"
proof
  assume eq: "kdp_crc32 (pre @ xs @ post) = kdp_crc32 (pre @ ys @ post)"
  let ?s = "kdp_crc32_update kdp_crc32_begin pre"
  from eq have "kdp_crc32_update (kdp_crc32_update ?s xs) post =
      kdp_crc32_update (kdp_crc32_update ?s ys) post"
    by (simp add: kdp_crc32_def kdp_crc32_final_def crc32_update_append)
  then have "kdp_crc32_update ?s xs = kdp_crc32_update ?s ys"
    by (rule injD [OF inj_crc32_update])
  then show False
    using crc32_update_window_inj [OF assms] by simp
qed

section \<open>Properties\<close>

text \<open>
  C33: the table-driven CRC of the source is the bit-serial reflected CRC-32 with polynomial
  0xEDB88320, initial value and final exclusive-or of all ones, on every input.
\<close>

theorem crc32_is_reference: "kdp_crc32 data = crc32_reference data"
proof -
  have "crc_step = (\<lambda>s b. crc_byte (s XOR ucast b))"
    by (simp add: fun_eq_iff crc_step_reference)
  then show ?thesis
    by (simp add: kdp_crc32_def kdp_crc32_final_def kdp_crc32_update_def kdp_crc32_begin_def
        crc32_reference_def)
qed

text \<open>
  Streaming a message through the begin, update and final functions in any division into
  chunks gives the one-shot CRC of the whole message.
\<close>

theorem crc32_streaming:
  "kdp_crc32_final (foldl kdp_crc32_update kdp_crc32_begin chunks) = kdp_crc32 (concat chunks)"
proof -
  have "foldl kdp_crc32_update s chunks = kdp_crc32_update s (concat chunks)" for s
    by (induction chunks arbitrary: s) (simp_all add: crc32_update_append, simp add: kdp_crc32_update_def)
  then show ?thesis by (simp add: kdp_crc32_def)
qed

text \<open>
  A message corrupted only inside a window of at most four consecutive bytes never keeps
  its CRC, wherever the window lies and whatever the bytes around it are.
\<close>

theorem crc32_detects_burst:
  assumes "length xs = length ys" and "length xs \<le> 4" and "xs \<noteq> ys"
  shows "kdp_crc32 (pre @ xs @ post) \<noteq> kdp_crc32 (pre @ ys @ post)"
  using assms by (rule crc32_window_changes)

theorem crc32_detects_burst_witness:
  "kdp_crc32 ([0x4B] @ [1, 2] @ [0x49]) \<noteq> kdp_crc32 ([0x4B] @ [1, 3] @ [0x49])"
  by (rule crc32_detects_burst) simp_all

end
