(* ===== verification/Kdp_Packet.thy ===== *)
theory Kdp_Packet
  imports Kdp_Crc32
begin

text \<open>
  The KDP frame layout and its encoder (\<^verbatim>\<open>kdp_core/include/kdp/packet.h\<close>, \<^verbatim>\<open>src/packet.c\<close>), the
  little-endian accessors of both sides, and the request sequence counter of
  \<^verbatim>\<open>include/kdp/protocol.h\<close>.

  A payload pointer with its length is the list of the payload's bytes. The encoder's return
  value 0 is \<^const>\<open>None\<close>; otherwise the result is the bytes written to \<open>out\<close>, whose number is the
  returned total.
\<close>

section \<open>The code\<close>

definition KDP_MAGIC0 :: u8 where "KDP_MAGIC0 = 0x4B"
definition KDP_MAGIC1 :: u8 where "KDP_MAGIC1 = 0x49"
definition KDP_HEADER_LEN :: nat where "KDP_HEADER_LEN = 14"
definition KDP_CRC_LEN :: nat where "KDP_CRC_LEN = 4"
definition KDP_MAX_PAYLOAD :: nat where "KDP_MAX_PAYLOAD = 16384"
definition KDP_MAX_FRAME :: nat where
  "KDP_MAX_FRAME = KDP_HEADER_LEN + KDP_MAX_PAYLOAD + KDP_CRC_LEN"

lemmas kdp_layout = KDP_HEADER_LEN_def KDP_CRC_LEN_def KDP_MAX_PAYLOAD_def KDP_MAX_FRAME_def

definition put_u32le :: "u32 \<Rightarrow> bytes" where
  "put_u32le v = [ucast (v AND 0xFF), ucast (drop_bit 8 v AND 0xFF),
     ucast (drop_bit 16 v AND 0xFF), ucast (drop_bit 24 v AND 0xFF)]"

definition get_u32le :: "bytes \<Rightarrow> u32" where
  "get_u32le p = ucast (p ! 0) OR push_bit 8 (ucast (p ! 1)) OR push_bit 16 (ucast (p ! 2)) OR
     push_bit 24 (ucast (p ! 3))"

definition kdp_encode_frame ::
  "nat \<Rightarrow> u8 \<Rightarrow> u8 \<Rightarrow> u8 \<Rightarrow> u32 \<Rightarrow> bytes \<Rightarrow> bytes option" where
  "kdp_encode_frame out_cap version type flags seq payload =
    (let payload_len = length payload in
     if payload_len > KDP_MAX_PAYLOAD then None
     else let total = KDP_HEADER_LEN + payload_len + KDP_CRC_LEN in
     if out_cap < total then None
     else let body = [KDP_MAGIC0, KDP_MAGIC1, version, type, flags, 0] @ put_u32le seq @
                       put_u32le (of_nat payload_len) @ payload
     in Some (body @ put_u32le (kdp_crc32 body)))"

definition KDP_MAX_SEQ :: u32 where "KDP_MAX_SEQ = 0xffffffff"

definition kdp_next_seq :: "u32 \<Rightarrow> u32" where
  "kdp_next_seq seq = (if seq \<ge> KDP_MAX_SEQ then 1 else seq + 1)"

section \<open>Little-endian words\<close>

lemma length_put_u32le [simp]: "length (put_u32le v) = 4"
  by (simp add: put_u32le_def)

lemma ucast_byte: "(ucast (ucast (x AND 0xFF) :: u8) :: u32) = take_bit 8 x" for x :: u32
  by (rule bit_word_eqI) (auto simp: and_byte_mask bit_simps)

lemma get_put_u32le [simp]: "get_u32le (put_u32le v @ rest) = v"
proof (rule bit_word_eqI)
  fix n assume n: "n < LENGTH(32)"
  have bytes: "get_u32le (put_u32le v @ rest) = take_bit 8 v OR push_bit 8 (take_bit 8 (drop_bit 8 v))
      OR push_bit 16 (take_bit 8 (drop_bit 16 v)) OR push_bit 24 (take_bit 8 (drop_bit 24 v))"
    by (simp add: get_u32le_def put_u32le_def ucast_byte)
  consider "n < 8" | "8 \<le> n" "n < 16" | "16 \<le> n" "n < 24" | "24 \<le> n" "n < 32"
    using n by fastforce
  then show "bit (get_u32le (put_u32le v @ rest)) n = bit v n"
    unfolding bytes by cases (simp_all add: bit_simps, linarith+)
qed

lemma get_u32le_append: "4 \<le> length p \<Longrightarrow> get_u32le (p @ rest) = get_u32le p"
  by (cases p) (auto simp: get_u32le_def nth_append)

section \<open>Frames\<close>

text \<open>The bytes a frame's CRC covers: the header and the payload.\<close>

definition frame_body :: "u8 \<Rightarrow> u8 \<Rightarrow> u8 \<Rightarrow> u32 \<Rightarrow> bytes \<Rightarrow> bytes" where
  "frame_body version type flags seq payload =
     [KDP_MAGIC0, KDP_MAGIC1, version, type, flags, 0] @ put_u32le seq @
       put_u32le (of_nat (length payload)) @ payload"

definition frame_bytes :: "u8 \<Rightarrow> u8 \<Rightarrow> u8 \<Rightarrow> u32 \<Rightarrow> bytes \<Rightarrow> bytes" where
  "frame_bytes version type flags seq payload =
     frame_body version type flags seq payload @
       put_u32le (kdp_crc32 (frame_body version type flags seq payload))"

lemma length_frame_body [simp]:
  "length (frame_body ver ty fl sq pl) = KDP_HEADER_LEN + length pl"
  by (simp add: frame_body_def kdp_layout)

lemma length_frame_bytes [simp]:
  "length (frame_bytes ver ty fl sq pl) = KDP_HEADER_LEN + length pl + KDP_CRC_LEN"
  by (simp add: frame_bytes_def kdp_layout)

lemma encode_frame_eq:
  "kdp_encode_frame out_cap ver ty fl sq pl =
    (if length pl \<le> KDP_MAX_PAYLOAD \<and> KDP_HEADER_LEN + length pl + KDP_CRC_LEN \<le> out_cap
     then Some (frame_bytes ver ty fl sq pl) else None)"
  by (auto simp: kdp_encode_frame_def frame_bytes_def frame_body_def Let_def)

section \<open>Properties\<close>

text \<open>
  The encoder writes exactly header, payload and CRC when the payload is within the limit
  and the output buffer is large enough, and nothing otherwise; it never writes past the buffer.
\<close>

theorem encode_frame_total:
  "(case kdp_encode_frame out_cap ver ty fl sq pl of
      None \<Rightarrow> KDP_MAX_PAYLOAD < length pl \<or> out_cap < length pl + 18
    | Some out \<Rightarrow> length pl \<le> KDP_MAX_PAYLOAD \<and> length out = length pl + 18 \<and>
        length out \<le> out_cap \<and> take 2 out = [KDP_MAGIC0, KDP_MAGIC1] \<and>
        get_u32le (drop 6 out) = sq \<and> unat (get_u32le (drop 10 out)) = length pl \<and>
        take (length pl) (drop 14 out) = pl)"
proof (cases "length pl \<le> KDP_MAX_PAYLOAD \<and> length pl + 18 \<le> out_cap")
  case True
  have "unat (of_nat (length pl) :: u32) = length pl"
    using True by (simp add: unat_of_nat kdp_layout)
  then show ?thesis
    using True
    by (simp add: encode_frame_eq kdp_layout)
      (simp add: frame_bytes_def frame_body_def)
next
  case False
  then show ?thesis
    by (auto simp: encode_frame_eq kdp_layout)
qed

text \<open>
  The request sequence never takes the value 0 that marks an event: every successor is
  positive, the successor of the largest sequence is 1, and every other successor is one more.
\<close>

theorem next_seq_never_event:
  "kdp_next_seq seq \<noteq> 0 \<and>
   (if seq = KDP_MAX_SEQ then kdp_next_seq seq = 1 else unat (kdp_next_seq seq) = unat seq + 1)"
proof (cases "seq = KDP_MAX_SEQ")
  case True
  then show ?thesis by (simp add: kdp_next_seq_def)
next
  case False
  have "unat seq < 2 ^ 32" and "unat seq \<noteq> 2 ^ 32 - 1"
    using unsigned_less [of seq] False by (auto simp: KDP_MAX_SEQ_def word_unat_eq_iff)
  then have "unat (seq + 1) = unat seq + 1" and "\<not> KDP_MAX_SEQ \<le> seq"
    by (simp_all add: unat_word_ariths word_le_nat_alt KDP_MAX_SEQ_def)
  moreover from this have "seq + 1 \<noteq> 0"
    by (metis add_is_0 one_neq_zero unat_0)
  ultimately show ?thesis
    using False by (simp add: kdp_next_seq_def)
qed

end
