(* ===== verification/Kdp_Decoder.thy ===== *)
theory Kdp_Decoder
  imports Kdp_Packet
begin

text \<open>
  The KDP stream decoder (\<^verbatim>\<open>kdp_core/include/kdp/decoder.h\<close>, \<^verbatim>\<open>src/decoder.c\<close>): the working buffer,
  the counters, the scan over the buffered bytes and the push loop that feeds it.

  \<^verbatim>\<open>d->buf\<close> with \<^verbatim>\<open>d->len\<close> is the list \<open>d_buf\<close> of the bytes held; \<^verbatim>\<open>d->cap\<close> is the capacity of the
  caller's buffer. The frame callback is the list of frames handed to it, in call order.
  \<^verbatim>\<open>--d->len\<close> on an empty buffer of capacity 0 underflows in C and moves \<^verbatim>\<open>SIZE_MAX\<close> bytes; that
  run is the result \<^const>\<open>None\<close> of the push.
\<close>

section \<open>The code\<close>

record kdp_frame =
  fr_version :: u8
  fr_type :: u8
  fr_flags :: u8
  fr_seq :: u32
  fr_payload :: bytes

record kdp_decoder_stats =
  st_frames :: u32
  st_crc_failures :: u32
  st_resyncs :: u32
  st_discarded_bytes :: u32

record kdp_decoder =
  d_buf :: bytes
  d_cap :: nat
  d_stats :: kdp_decoder_stats

definition kdp_decoder_init :: "nat \<Rightarrow> kdp_decoder" where
  "kdp_decoder_init cap = \<lparr>d_buf = [], d_cap = cap,
     d_stats = \<lparr>st_frames = 0, st_crc_failures = 0, st_resyncs = 0, st_discarded_bytes = 0\<rparr>\<rparr>"

definition kdp_decoder_reset :: "kdp_decoder \<Rightarrow> kdp_decoder" where
  "kdp_decoder_reset d = d\<lparr>d_buf := []\<rparr>"

text \<open>The magic scan from \<open>offset\<close>: the least index of a magic pair, if any.\<close>

function find_magic :: "bytes \<Rightarrow> nat \<Rightarrow> nat option" where
  "find_magic buf i =
    (if i + 1 < length buf then
       if buf ! i = KDP_MAGIC0 \<and> buf ! (i + 1) = KDP_MAGIC1 then Some i
       else find_magic buf (i + 1)
     else None)"
  by pat_completeness auto
termination
  by (relation "measure (\<lambda>(buf, i). length buf - i)") auto

declare find_magic.simps [simp del]

lemma find_magic_Some:
  "find_magic buf i = Some s \<Longrightarrow>
    i \<le> s \<and> s + 1 < length buf \<and> buf ! s = KDP_MAGIC0 \<and> buf ! (s + 1) = KDP_MAGIC1"
proof (induction buf i rule: find_magic.induct)
  case (1 buf i)
  then show ?case
    by (auto simp: find_magic.simps [of buf i] split: if_splits)
qed

definition count_discarded :: "nat \<Rightarrow> kdp_decoder \<Rightarrow> kdp_decoder" where
  "count_discarded n d = d\<lparr>d_stats := (d_stats d)
     \<lparr>st_discarded_bytes := st_discarded_bytes (d_stats d) + of_nat n\<rparr>\<rparr>"

definition count_resync :: "kdp_decoder \<Rightarrow> kdp_decoder" where
  "count_resync d = d\<lparr>d_stats := (d_stats d)\<lparr>st_resyncs := st_resyncs (d_stats d) + 1\<rparr>\<rparr>"

definition count_crc_failure :: "kdp_decoder \<Rightarrow> kdp_decoder" where
  "count_crc_failure d =
     d\<lparr>d_stats := (d_stats d)\<lparr>st_crc_failures := st_crc_failures (d_stats d) + 1\<rparr>\<rparr>"

definition count_frame :: "kdp_decoder \<Rightarrow> kdp_decoder" where
  "count_frame d = d\<lparr>d_stats := (d_stats d)\<lparr>st_frames := st_frames (d_stats d) + 1\<rparr>\<rparr>"

lemmas count_defs = count_discarded_def count_resync_def count_crc_failure_def count_frame_def

lemma count_buf [simp]:
  "d_buf (count_discarded n d) = d_buf d" "d_buf (count_resync d) = d_buf d"
  "d_buf (count_crc_failure d) = d_buf d" "d_buf (count_frame d) = d_buf d"
  "d_cap (count_discarded n d) = d_cap d" "d_cap (count_resync d) = d_cap d"
  "d_cap (count_crc_failure d) = d_cap d" "d_cap (count_frame d) = d_cap d"
  by (simp_all add: count_defs)

definition frame_at :: "bytes \<Rightarrow> nat \<Rightarrow> kdp_frame" where
  "frame_at s payload_len = \<lparr>fr_version = s ! 2, fr_type = s ! 3, fr_flags = s ! 4,
     fr_seq = get_u32le (drop 6 s), fr_payload = take payload_len (drop KDP_HEADER_LEN s)\<rparr>"

text \<open>The bytes skipped before a magic, with the latch that keeps one bad frame one resync.\<close>

definition note_skipped :: "nat \<Rightarrow> nat \<Rightarrow> bool \<Rightarrow> kdp_decoder \<Rightarrow> kdp_decoder" where
  "note_skipped offset start resync_counted d =
    (if start > offset then
       (let d1 = count_discarded (start - offset) d
        in if \<not> resync_counted then count_resync d1 else d1)
     else d)"

text \<open>
  What the bytes \<open>s\<close> from a magic on hold: an unfinished frame, a length that cannot be, a frame
  whose CRC fails, or a complete frame with its payload length.
\<close>

datatype head = Unfinished | BadLength | BadCrc | Complete nat

definition head_at :: "nat \<Rightarrow> bytes \<Rightarrow> head" where
  "head_at cap s =
    (if length s < KDP_HEADER_LEN then Unfinished
     else let payload_len = unat (get_u32le (drop 10 s));
              total = KDP_HEADER_LEN + payload_len + KDP_CRC_LEN
     in if payload_len > KDP_MAX_PAYLOAD \<or> total > cap then BadLength
     else if length s < total then Unfinished
     else if get_u32le (drop (KDP_HEADER_LEN + payload_len) s) \<noteq>
               kdp_crc32 (take (KDP_HEADER_LEN + payload_len) s) then BadCrc
     else Complete payload_len)"

definition no_magic :: "nat \<Rightarrow> kdp_decoder \<Rightarrow> kdp_decoder" where
  "no_magic offset d =
    (let len = length (d_buf d);
         keep = (if len > 0 \<and> d_buf d ! (len - 1) = KDP_MAGIC0 then 1 else 0);
         d1 = (if len > offset + keep then count_discarded (len - keep - offset) d else d)
     in d1\<lparr>d_buf := (if keep = 1 then [KDP_MAGIC0] else [])\<rparr>)"

function scan_loop ::
  "kdp_decoder \<Rightarrow> nat \<Rightarrow> bool \<Rightarrow> kdp_frame list \<Rightarrow> kdp_decoder \<times> kdp_frame list" where
  "scan_loop d offset resync_counted emitted =
    (case find_magic (d_buf d) offset of
       None \<Rightarrow> (no_magic offset d, emitted)
     | Some start \<Rightarrow>
         (let d1 = note_skipped offset start resync_counted d;
              s = drop start (d_buf d)
          in case head_at (d_cap d) s of
               Unfinished \<Rightarrow> (d1\<lparr>d_buf := s\<rparr>, emitted)
             | BadLength \<Rightarrow>
                 scan_loop (count_discarded 2 (count_resync d1)) (start + 2) True emitted
             | BadCrc \<Rightarrow>
                 scan_loop (count_discarded 2 (count_resync (count_crc_failure d1)))
                   (start + 2) True emitted
             | Complete payload_len \<Rightarrow>
                 (let d2 = count_frame d1; emitted' = emitted @ [frame_at s payload_len];
                      offset' = start + KDP_HEADER_LEN + payload_len + KDP_CRC_LEN
                  in if offset' \<ge> length (d_buf d) then (d2\<lparr>d_buf := []\<rparr>, emitted')
                     else scan_loop d2 offset' False emitted')))"
  by pat_completeness auto
termination
  by (relation "measure (\<lambda>(d, offset, rc, em). length (d_buf d) - offset)")
    (auto simp: kdp_layout note_skipped_def Let_def dest!: find_magic_Some)

declare scan_loop.simps [simp del]

definition scan :: "kdp_decoder \<Rightarrow> kdp_decoder \<times> kdp_frame list" where
  "scan d = scan_loop d 0 False []"

lemma note_skipped_buf [simp]:
  "d_buf (note_skipped off start rc d) = d_buf d" "d_cap (note_skipped off start rc d) = d_cap d"
  by (simp_all add: note_skipped_def Let_def)

lemma no_magic_buf [simp]:
  "d_buf (no_magic off d) =
     (if d_buf d \<noteq> [] \<and> last (d_buf d) = KDP_MAGIC0 then [KDP_MAGIC0] else [])"
  "d_cap (no_magic off d) = d_cap d"
  by (auto simp: no_magic_def Let_def last_conv_nth)

lemma scan_loop_cap [simp]: "d_cap (fst (scan_loop d off rc em)) = d_cap d"
proof (induction d off rc em rule: scan_loop.induct)
  case (1 d off rc em)
  then show ?case
    by (simp add: scan_loop.simps [of d off rc em] Let_def split: option.split head.split)
qed

lemma scan_loop_shrinks: "length (d_buf (fst (scan_loop d off rc em))) \<le> length (d_buf d)"
proof (induction d off rc em rule: scan_loop.induct)
  case (1 d off rc em)
  then show ?case
    by (auto simp: scan_loop.simps [of d off rc em] Let_def Suc_le_eq split: option.split head.split)
qed

lemma scan_bounds:
  "scan d = (d', fs) \<Longrightarrow> d_cap d' = d_cap d \<and> length (d_buf d') \<le> length (d_buf d)"
  using scan_loop_cap [of d 0 False "[]"] scan_loop_shrinks [of d 0 False "[]"]
  by (simp add: scan_def)

definition drop_byte :: "kdp_decoder \<Rightarrow> kdp_decoder" where
  "drop_byte d = count_discarded 1 (d\<lparr>d_buf := tl (d_buf d)\<rparr>)"

lemma drop_byte_buf [simp]: "d_buf (drop_byte d) = tl (d_buf d)" "d_cap (drop_byte d) = d_cap d"
  by (simp_all add: drop_byte_def)

text \<open>
  The push loop. \<^verbatim>\<open>d->len\<close> never exceeds \<^verbatim>\<open>d->cap\<close>, the size of the buffer behind it; a state
  outside that representation is given no behaviour.
\<close>

function push_loop ::
  "kdp_decoder \<Rightarrow> bytes \<Rightarrow> kdp_frame list \<Rightarrow> (kdp_decoder \<times> kdp_frame list) option" where
  "push_loop d data emitted =
    (if d_cap d < length (d_buf d) then None
     else let space = d_cap d - length (d_buf d);
              n = (if length data < space then length data else space);
              rest = drop n data
          in case scan (d\<lparr>d_buf := d_buf d @ take n data\<rparr>) of (d2, fs) \<Rightarrow>
             if rest = [] then Some (d2, emitted @ fs)
             else if length (d_buf d2) = d_cap d2
               then if d_buf d2 = [] then None
                    else push_loop (drop_byte d2) rest (emitted @ fs)
             else push_loop d2 rest (emitted @ fs))"
  by pat_completeness auto
termination
  by (relation "measures [\<lambda>(d, data, em). length data, \<lambda>(d, data, em). length (d_buf d)]")
    (auto dest!: scan_bounds [OF sym] simp: neq_Nil_conv)

declare push_loop.simps [simp del]

definition kdp_decoder_push ::
  "kdp_decoder \<Rightarrow> bytes \<Rightarrow> (kdp_decoder \<times> kdp_frame list) option" where
  "kdp_decoder_push d data = push_loop d data []"


section \<open>The reference parser\<close>

text \<open>
  What the decoder promises, as a function of the bytes alone: skip to the first magic, deliver
  the frame that stands there if it is complete and intact, go on two bytes further if it
  cannot be one, and keep the rest while it is unfinished.
\<close>

fun to_magic :: "bytes \<Rightarrow> bytes option" where
  "to_magic (a # b # s) =
     (if a = KDP_MAGIC0 \<and> b = KDP_MAGIC1 then Some (a # b # s) else to_magic (b # s))"
| "to_magic _ = None"

definition tail_magic :: "bytes \<Rightarrow> bytes" where
  "tail_magic bs = (if bs \<noteq> [] \<and> last bs = KDP_MAGIC0 then [KDP_MAGIC0] else [])"

lemma to_magic_length: "to_magic bs = Some s \<Longrightarrow> 2 \<le> length s \<and> length s \<le> length bs"
  by (induction bs rule: to_magic.induct) (auto split: if_splits)

function parse :: "nat \<Rightarrow> bytes \<Rightarrow> kdp_frame list \<times> bytes" where
  "parse cap bs =
    (case to_magic bs of
       None \<Rightarrow> ([], tail_magic bs)
     | Some s \<Rightarrow>
         (case head_at cap s of
            Unfinished \<Rightarrow> ([], s)
          | BadLength \<Rightarrow> parse cap (drop 2 s)
          | BadCrc \<Rightarrow> parse cap (drop 2 s)
          | Complete n \<Rightarrow>
              (let r = parse cap (drop (KDP_HEADER_LEN + n + KDP_CRC_LEN) s)
               in (frame_at s n # fst r, snd r))))"
  by pat_completeness auto
termination
  by (relation "measure (\<lambda>(cap, bs). length bs)") (auto simp: kdp_layout dest!: to_magic_length)

declare parse.simps [simp del]

lemma find_magic_to_magic:
  "map_option (\<lambda>i. drop i buf) (find_magic buf off) = to_magic (drop off buf)"
proof (induction buf off rule: find_magic.induct)
  case (1 buf i)
  show ?case
  proof (cases "i + 1 < length buf")
    case True
    then have "drop i buf = buf ! i # buf ! (i + 1) # drop (i + 2) buf"
      by (simp add: Cons_nth_drop_Suc)
    moreover have "drop (i + 1) buf = buf ! (i + 1) # drop (i + 2) buf"
      using True by (simp add: Cons_nth_drop_Suc)
    ultimately show ?thesis
      using 1 True by (simp add: find_magic.simps [of buf i])
  next
    case False
    then have "length (drop i buf) \<le> 1" by simp
    then have "to_magic (drop i buf) = None"
      by (cases "drop i buf" rule: to_magic.cases) auto
    with False show ?thesis by (simp add: find_magic.simps [of buf i])
  qed
qed

lemma find_magic_Some_drop:
  "find_magic buf off = Some i \<Longrightarrow> to_magic (drop off buf) = Some (drop i buf)"
  using find_magic_to_magic [of buf off] by simp

lemma find_magic_None_drop: "find_magic buf off = None \<Longrightarrow> to_magic (drop off buf) = None"
  using find_magic_to_magic [of buf off] by simp

lemma head_at_long: "head_at cap s \<in> {BadLength, BadCrc} \<Longrightarrow> 14 \<le> length s"
  by (auto simp: head_at_def kdp_layout Let_def split: if_splits)

lemma head_at_Complete:
  "head_at cap s = Complete n \<Longrightarrow>
    KDP_HEADER_LEN + n + KDP_CRC_LEN \<le> length s \<and> KDP_HEADER_LEN + n + KDP_CRC_LEN \<le> cap \<and>
    n \<le> KDP_MAX_PAYLOAD \<and> n = unat (get_u32le (drop 10 s))"
  by (auto simp: head_at_def Let_def split: if_splits)

lemma scan_loop_parse:
  "off < length (d_buf d) \<or> d_buf d = [] \<Longrightarrow>
   snd (scan_loop d off rc em) = em @ fst (parse (d_cap d) (drop off (d_buf d))) \<and>
   d_buf (fst (scan_loop d off rc em)) = snd (parse (d_cap d) (drop off (d_buf d)))"
proof (induction d off rc em rule: scan_loop.induct)
  case (1 d off rc em)
  show ?case
  proof (cases "find_magic (d_buf d) off")
    case None
    have "tail_magic (drop off (d_buf d)) = tail_magic (d_buf d)"
      using "1.prems" by (auto simp: tail_magic_def)
    with None find_magic_None_drop [OF None] show ?thesis
      by (simp add: scan_loop.simps [of d off rc em] parse.simps [of "d_cap d" "drop off (d_buf d)"]
          tail_magic_def)
  next
    case (Some start)
    let ?s = "drop start (d_buf d)"
    have st: "to_magic (drop off (d_buf d)) = Some ?s" and lt: "start + 1 < length (d_buf d)"
      using find_magic_Some_drop [OF Some] find_magic_Some [OF Some] by auto
    show ?thesis
    proof (cases "head_at (d_cap d) ?s")
      case Unfinished
      then show ?thesis
        by (simp add: scan_loop.simps [of d off rc em] Some st Let_def
            parse.simps [of "d_cap d" "drop off (d_buf d)"])
    next
      case BadLength
      then have "start + 2 < length (d_buf d)"
        using head_at_long [of "d_cap d" ?s] by auto
      then show ?thesis
        using "1.IH"(1) [OF Some refl refl BadLength] BadLength
        by (simp add: scan_loop.simps [of d off rc em] Some st Let_def
            parse.simps [of "d_cap d" "drop off (d_buf d)"])
    next
      case BadCrc
      then have "start + 2 < length (d_buf d)"
        using head_at_long [of "d_cap d" ?s] by auto
      then show ?thesis
        using "1.IH"(2) [OF Some refl refl BadCrc] BadCrc
        by (simp add: scan_loop.simps [of d off rc em] Some st Let_def
            parse.simps [of "d_cap d" "drop off (d_buf d)"])
    next
      case (Complete n)
      have "parse c [] = ([], [])" for c
        by (simp add: parse.simps tail_magic_def)
      then show ?thesis
        using "1.IH"(3) [OF Some refl refl Complete refl refl refl] Complete
        by (auto simp: scan_loop.simps [of d off rc em] Some st Let_def ac_simps
            parse.simps [of "d_cap d" "drop off (d_buf d)"])
    qed
  qed
qed


section \<open>Chunking\<close>

lemma to_magic_append: "to_magic a = Some s \<Longrightarrow> to_magic (a @ b) = Some (s @ b)"
  by (induction a rule: to_magic.induct) (auto split: if_splits)

lemma to_magic_skip: "v \<noteq> KDP_MAGIC0 \<Longrightarrow> to_magic (v # b) = to_magic b"
  by (cases b) auto

lemma to_magic_append_None: "to_magic a = None \<Longrightarrow> to_magic (a @ b) = to_magic (tail_magic a @ b)"
  by (induction a rule: to_magic.induct) (auto simp: tail_magic_def to_magic_skip split: if_splits)

lemma to_magic_head: "to_magic a = Some s \<Longrightarrow> to_magic s = Some s"
  by (induction a rule: to_magic.induct) (auto split: if_splits)

lemma tail_magic_append: "tail_magic (a @ b) = tail_magic (tail_magic a @ b)"
  by (auto simp: tail_magic_def)

lemma get_u32le_drop_append:
  "k + 4 \<le> length s \<Longrightarrow> get_u32le (drop k (s @ b)) = get_u32le (drop k s)"
  using get_u32le_append [of "drop k s" b] by simp

lemma head_at_append:
  assumes "head_at cap s \<noteq> Unfinished"
  shows "head_at cap (s @ b) = head_at cap s"
proof -
  have h: "14 \<le> length s"
    using assms by (auto simp: head_at_def kdp_layout split: if_splits)
  then have "get_u32le (drop 10 (s @ b)) = get_u32le (drop 10 s)"
    by (intro get_u32le_drop_append) simp
  moreover have "get_u32le (drop (KDP_HEADER_LEN + n) (s @ b)) = get_u32le (drop (KDP_HEADER_LEN + n) s)"
    if "KDP_HEADER_LEN + n + KDP_CRC_LEN \<le> length s" for n
    using that by (intro get_u32le_drop_append) (simp add: kdp_layout)
  ultimately show ?thesis
    using assms h by (auto simp: head_at_def Let_def kdp_layout not_less split: if_splits)
qed

lemma frame_at_append:
  assumes "head_at cap s = Complete n"
  shows "frame_at (s @ b) n = frame_at s n"
proof -
  have "14 + n \<le> length s"
    using head_at_Complete [OF assms] by (simp add: kdp_layout)
  moreover from this have "get_u32le (drop 6 (s @ b)) = get_u32le (drop 6 s)"
    by (intro get_u32le_drop_append) simp
  ultimately show ?thesis
    by (simp add: frame_at_def nth_append kdp_layout)
qed


lemma parse_append:
  "parse cap (a @ b) =
    (fst (parse cap a) @ fst (parse cap (snd (parse cap a) @ b)),
     snd (parse cap (snd (parse cap a) @ b)))"
proof (induction cap a rule: parse.induct)
  case (1 cap a)
  show ?case
  proof (cases "to_magic a")
    case None
    have "parse cap (a @ b) = parse cap (tail_magic a @ b)"
      by (simp add: parse.simps [of cap "a @ b"] parse.simps [of cap "tail_magic a @ b"]
          to_magic_append_None [OF None] tail_magic_append [of a b] split: option.split)
    with None show ?thesis by (simp add: parse.simps [of cap a])
  next
    case (Some s)
    have sb: "to_magic (a @ b) = Some (s @ b)"
      by (rule to_magic_append [OF Some])
    show ?thesis
    proof (cases "head_at cap s")
      case Unfinished
      have "to_magic (s @ b) = Some (s @ b)"
        by (rule to_magic_append [OF to_magic_head [OF Some]])
      then have "parse cap (a @ b) = parse cap (s @ b)"
        by (simp only: parse.simps [of cap "a @ b"] parse.simps [of cap "s @ b"] sb option.case)
      with Unfinished Some show ?thesis by (simp add: parse.simps [of cap a])
    next
      case BadLength
      then have "14 \<le> length s" using head_at_long [of cap s] by simp
      then show ?thesis
        using "1.IH"(1) [OF Some BadLength] head_at_append [of cap s b] BadLength
        by (simp add: parse.simps [of cap "a @ b"] parse.simps [of cap a] sb Some)
    next
      case BadCrc
      then have "14 \<le> length s" using head_at_long [of cap s] by simp
      then show ?thesis
        using "1.IH"(2) [OF Some BadCrc] head_at_append [of cap s b] BadCrc
        by (simp add: parse.simps [of cap "a @ b"] parse.simps [of cap a] sb Some)
    next
      case (Complete n)
      have "KDP_HEADER_LEN + n + KDP_CRC_LEN \<le> length s"
        using head_at_Complete [OF Complete] by blast
      then show ?thesis
        using "1.IH"(3) [OF Some Complete] head_at_append [of cap s b] Complete
        by (simp add: parse.simps [of cap "a @ b"] parse.simps [of cap a] sb Some
            frame_at_append [OF Complete] Let_def)
    qed
  qed
qed


text \<open>A decoder with room for a header always has space after a scan.\<close>

lemma head_at_Unfinished: "head_at cap s = Unfinished \<Longrightarrow> KDP_HEADER_LEN \<le> cap \<Longrightarrow> length s < cap"
  by (auto simp: head_at_def Let_def split: if_splits)

lemma parse_room: "KDP_HEADER_LEN \<le> cap \<Longrightarrow> length (snd (parse cap a)) < cap"
proof (induction cap a rule: parse.induct)
  case (1 cap a)
  show ?case
    using 1 head_at_Unfinished [of cap]
    by (auto simp: parse.simps [of cap a] tail_magic_def Let_def kdp_layout
        split: option.split head.split)
qed

lemma scan_parse:
  assumes "scan d = (d', fs)"
  shows "fs = fst (parse (d_cap d) (d_buf d))" "d_buf d' = snd (parse (d_cap d) (d_buf d))"
    "d_cap d' = d_cap d"
  using scan_loop_parse [of 0 d False "[]"] assms scan_bounds [OF assms] by (auto simp: scan_def)

lemma push_loop_parse:
  assumes "KDP_HEADER_LEN \<le> d_cap d" and "length (d_buf d) \<le> d_cap d"
  shows "\<exists>d'. push_loop d data em = Some (d', em @ fst (parse (d_cap d) (d_buf d @ data))) \<and>
    d_buf d' = snd (parse (d_cap d) (d_buf d @ data)) \<and> d_cap d' = d_cap d"
  using assms
proof (induction d data em rule: push_loop.induct)
  case (1 d data em)
  define n where "n = (if length data < d_cap d - length (d_buf d) then length data
                       else d_cap d - length (d_buf d))"
  let ?d1 = "d\<lparr>d_buf := d_buf d @ take n data\<rparr>"
  obtain d2 fs where sc: "scan ?d1 = (d2, fs)" by fastforce
  have fs: "fs = fst (parse (d_cap d) (d_buf d @ take n data))"
    and b2: "d_buf d2 = snd (parse (d_cap d) (d_buf d @ take n data))" and c2: "d_cap d2 = d_cap d"
    using scan_parse [OF sc] by simp_all
  have room: "length (d_buf d2) < d_cap d2"
    using parse_room [OF "1.prems"(1)] b2 c2 by simp
  have split: "parse (d_cap d) (d_buf d @ data) =
      (fs @ fst (parse (d_cap d) (d_buf d2 @ drop n data)),
       snd (parse (d_cap d) (d_buf d2 @ drop n data)))"
    using parse_append [of "d_cap d" "d_buf d @ take n data" "drop n data"] fs b2 by simp
  have unf: "push_loop d data em =
      (if drop n data = [] then Some (d2, em @ fs) else push_loop d2 (drop n data) (em @ fs))"
    using "1.prems" room sc
    by (simp add: push_loop.simps [of d data em] Let_def n_def [symmetric])
  show ?case
  proof (cases "drop n data = []")
    case True
    then have "take n data = data" by simp
    with True unf fs b2 c2 show ?thesis by simp
  next
    case False
    have "\<exists>d'. push_loop d2 (drop n data) (em @ fs) =
        Some (d', (em @ fs) @ fst (parse (d_cap d2) (d_buf d2 @ drop n data))) \<and>
        d_buf d' = snd (parse (d_cap d2) (d_buf d2 @ drop n data)) \<and> d_cap d' = d_cap d2"
      using "1.IH"(2) [OF _ refl n_def refl sc [symmetric]] "1.prems" False room c2 by auto
    then show ?thesis using False unf split c2 by simp
  qed
qed

lemma push_loop_returns:
  assumes "0 < d_cap d" and "length (d_buf d) \<le> d_cap d"
  shows "\<exists>r. push_loop d data em = Some r"
  using assms
proof (induction d data em rule: push_loop.induct)
  case (1 d data em)
  show ?case
    using "1.prems" "1.IH"
    by (subst push_loop.simps) (fastforce simp: Let_def split: prod.split dest: scan_bounds)
qed

section \<open>Byte accounting\<close>

definition frame_size :: "kdp_frame \<Rightarrow> nat" where
  "frame_size f = KDP_HEADER_LEN + length (fr_payload f) + KDP_CRC_LEN"

abbreviation discarded :: "kdp_decoder \<Rightarrow> u32" where
  "discarded d \<equiv> st_discarded_bytes (d_stats d)"

lemma count_stats [simp]:
  "discarded (count_discarded n d) = discarded d + of_nat n"
  "discarded (count_resync d) = discarded d" "discarded (count_crc_failure d) = discarded d"
  "discarded (count_frame d) = discarded d"
  by (simp_all add: count_defs)

lemma note_skipped_discarded:
  "off \<le> start \<Longrightarrow> discarded (note_skipped off start rc d) = discarded d + of_nat (start - off)"
  by (auto simp: note_skipped_def Let_def)

lemma no_magic_discarded:
  assumes "off < length (d_buf d) \<or> d_buf d = []"
  shows "discarded (no_magic off d) + of_nat (length (d_buf (no_magic off d))) =
    discarded d + of_nat (length (d_buf d) - off)"
  using assms
  by (auto simp: no_magic_def Let_def last_conv_nth count_defs of_nat_diff Suc_leI not_less le_Suc_eq)

lemma frame_size_at:
  "head_at cap s = Complete n \<Longrightarrow> frame_size (frame_at s n) = KDP_HEADER_LEN + n + KDP_CRC_LEN"
  by (drule head_at_Complete, elim conjE) (simp add: frame_size_def frame_at_def kdp_layout)

lemma scan_loop_accounts:
  "off < length (d_buf d) \<or> d_buf d = [] \<Longrightarrow>
   discarded (fst (scan_loop d off rc em)) + of_nat (length (d_buf (fst (scan_loop d off rc em)))) +
     of_nat (sum_list (map frame_size (snd (scan_loop d off rc em)))) =
   discarded d + of_nat (length (d_buf d) - off) + of_nat (sum_list (map frame_size em))"
proof (induction d off rc em rule: scan_loop.induct)
  case (1 d off rc em)
  show ?case
  proof (cases "find_magic (d_buf d) off")
    case None
    then show ?thesis
      using no_magic_discarded [OF "1.prems"] by (simp add: scan_loop.simps [of d off rc em])
  next
    case (Some start)
    let ?s = "drop start (d_buf d)"
    have le: "off \<le> start" and lt: "start + 1 < length (d_buf d)"
      using find_magic_Some [OF Some] by auto
    have two: "start + 2 < length (d_buf d)" if "head_at (d_cap d) ?s \<in> {BadLength, BadCrc}"
      using head_at_long [OF that] by simp
    show ?thesis
    proof (cases "head_at (d_cap d) ?s")
      case Unfinished
      then show ?thesis
        using le lt by (simp add: scan_loop.simps [of d off rc em] Some Let_def
            note_skipped_discarded of_nat_diff)
    next
      case BadLength
      then show ?thesis
        using "1.IH"(1) [OF Some refl refl BadLength] two le lt
        by (simp add: scan_loop.simps [of d off rc em] Some Let_def note_skipped_discarded of_nat_diff)
    next
      case BadCrc
      then show ?thesis
        using "1.IH"(2) [OF Some refl refl BadCrc] two le lt
        by (simp add: scan_loop.simps [of d off rc em] Some Let_def note_skipped_discarded of_nat_diff)
    next
      case (Complete n)
      let ?stop = "start + KDP_HEADER_LEN + n + KDP_CRC_LEN"
      have fit: "?stop \<le> length (d_buf d)"
        using head_at_Complete [OF Complete] lt by auto
      show ?thesis
      proof (cases "length (d_buf d) = ?stop")
        case True
        then show ?thesis
          using Complete le
          by (simp add: scan_loop.simps [of d off rc em] Some Let_def note_skipped_discarded
              of_nat_diff frame_size_at [OF Complete] del: of_nat_add)
            (simp add: of_nat_diff)
      next
        case False
        then show ?thesis
          using "1.IH"(3) [OF Some refl refl Complete refl refl refl] Complete le lt fit
          by (simp add: scan_loop.simps [of d off rc em] Some Let_def note_skipped_discarded
              of_nat_diff frame_size_at [OF Complete])
      qed
    qed
  qed
qed

lemma scan_accounts:
  assumes "scan d = (d', fs)"
  shows "discarded d' + of_nat (length (d_buf d')) + of_nat (sum_list (map frame_size fs)) =
    discarded d + of_nat (length (d_buf d))"
  using scan_loop_accounts [of 0 d False "[]"] assms by (auto simp: scan_def)

lemma push_loop_accounts:
  "push_loop d data em = Some (d', fs) \<Longrightarrow>
   discarded d' + of_nat (length (d_buf d')) + of_nat (sum_list (map frame_size fs)) =
   discarded d + of_nat (length (d_buf d) + length data) + of_nat (sum_list (map frame_size em))"
proof (induction d data em rule: push_loop.induct)
  case (1 d data em)
  define n where "n = (if length data < d_cap d - length (d_buf d) then length data
                       else d_cap d - length (d_buf d))"
  let ?d1 = "d\<lparr>d_buf := d_buf d @ take n data\<rparr>"
  obtain d2 gs where sc: "scan ?d1 = (d2, gs)" by fastforce
  have n: "n \<le> length data" by (simp add: n_def)
  have acc: "discarded d2 + of_nat (length (d_buf d2)) + of_nat (sum_list (map frame_size gs)) =
      discarded d + of_nat (length (d_buf d)) + of_nat n"
    using scan_accounts [OF sc] n by (simp add: min_absorb2)
  have ok: "\<not> d_cap d < length (d_buf d)"
    using "1.prems" by (subst (asm) push_loop.simps) (auto split: if_splits)
  have unf: "push_loop d data em =
     (if drop n data = [] then Some (d2, em @ gs)
      else if length (d_buf d2) = d_cap d2
        then if d_buf d2 = [] then None else push_loop (drop_byte d2) (drop n data) (em @ gs)
      else push_loop d2 (drop n data) (em @ gs))"
    using ok sc by (simp add: push_loop.simps [of d data em] Let_def n_def [symmetric])
  have combine: "x = discarded d + of_nat (length (d_buf d) + length data) +
        of_nat (sum_list (map frame_size em))"
    if "x = discarded d2 + of_nat (length (d_buf d2)) + of_nat (sum_list (map frame_size gs)) +
        of_nat (length data - n) + of_nat (sum_list (map frame_size em))" for x
    using that n unfolding acc by (simp add: of_nat_diff algebra_simps)
  consider (finished) "drop n data = []" "fs = em @ gs" "d' = d2"
    | (full) "drop n data \<noteq> []" "length (d_buf d2) = d_cap d2" "d_buf d2 \<noteq> []"
        "push_loop (drop_byte d2) (drop n data) (em @ gs) = Some (d', fs)"
    | (more) "drop n data \<noteq> []" "length (d_buf d2) \<noteq> d_cap d2"
        "push_loop d2 (drop n data) (em @ gs) = Some (d', fs)"
    using "1.prems" unf by (auto split: if_splits)
  then show ?case
  proof cases
    case finished
    then have "n = length data" using n by simp
    with finished acc show ?thesis by (simp add: add.assoc)
  next
    case full
    have "discarded (drop_byte d2) + of_nat (length (d_buf (drop_byte d2))) =
        discarded d2 + of_nat (length (d_buf d2))"
      using full(3) by (cases "d_buf d2") (simp_all add: drop_byte_def count_defs)
    with full "1.IH"(1) [OF ok refl n_def refl sc [symmetric]] show ?thesis
      by (intro combine) (simp add: algebra_simps)
  next
    case more
    with "1.IH"(2) [OF ok refl n_def refl sc [symmetric]] show ?thesis
      by (intro combine) (simp add: algebra_simps)
  qed
qed

section \<open>Encoder and decoder together\<close>

lemma of_nat_payload: "n \<le> KDP_MAX_PAYLOAD \<Longrightarrow> unat (of_nat n :: u32) = n"
  by (simp add: unat_of_nat kdp_layout)

lemma frame_bytes_drop10:
  "get_u32le (drop 10 (frame_body v t f s p @ rest)) = of_nat (length p)"
  by (simp add: frame_body_def)

lemma head_at_frame:
  assumes "length p \<le> KDP_MAX_PAYLOAD" and "length p + 18 \<le> cap"
  shows "head_at cap (frame_bytes v t f s p @ rest) = Complete (length p)"
proof -
  let ?b = "frame_body v t f s p"
  have "drop (KDP_HEADER_LEN + length p) (frame_bytes v t f s p @ rest) = put_u32le (kdp_crc32 ?b) @ rest"
    by (simp add: frame_bytes_def)
  moreover have "take (KDP_HEADER_LEN + length p) (frame_bytes v t f s p @ rest) = ?b"
    by (simp add: frame_bytes_def)
  moreover have "get_u32le (drop 10 (frame_bytes v t f s p @ rest)) = of_nat (length p)"
    using frame_bytes_drop10 [of v t f s p "put_u32le (kdp_crc32 ?b) @ rest"]
    by (simp add: frame_bytes_def)
  ultimately show ?thesis
    using assms by (simp add: head_at_def of_nat_payload Let_def) (simp add: kdp_layout)
qed

lemma frame_at_frame:
  "frame_at (frame_bytes v t f s p @ rest) (length p) =
    \<lparr>fr_version = v, fr_type = t, fr_flags = f, fr_seq = s, fr_payload = p\<rparr>"
  by (simp add: frame_at_def frame_bytes_def frame_body_def kdp_layout)

lemma to_magic_frame: "to_magic (frame_bytes v t f s p @ rest) = Some (frame_bytes v t f s p @ rest)"
  by (simp add: frame_bytes_def frame_body_def)

lemma parse_frame:
  assumes "length p \<le> KDP_MAX_PAYLOAD" and "length p + 18 \<le> cap"
  shows "parse cap (frame_bytes v t f s p @ rest) =
    (\<lparr>fr_version = v, fr_type = t, fr_flags = f, fr_seq = s, fr_payload = p\<rparr> # fst (parse cap rest),
     snd (parse cap rest))"
  by (simp add: parse.simps [of cap "frame_bytes v t f s p @ rest"] to_magic_frame
      head_at_frame [OF assms] frame_at_frame Let_def)

definition encode :: "kdp_frame \<Rightarrow> bytes" where
  "encode fr = frame_bytes (fr_version fr) (fr_type fr) (fr_flags fr) (fr_seq fr) (fr_payload fr)"

lemma parse_frames:
  assumes "\<And>fr. fr \<in> set frs \<Longrightarrow> length (fr_payload fr) \<le> KDP_MAX_PAYLOAD \<and> frame_size fr \<le> cap"
  shows "parse cap (concat (map encode frs)) = (frs, [])"
  using assms
proof (induction frs)
  case Nil
  then show ?case by (simp add: parse.simps tail_magic_def)
next
  case (Cons fr frs)
  have "length (fr_payload fr) \<le> KDP_MAX_PAYLOAD" "length (fr_payload fr) + 18 \<le> cap"
    using Cons.prems [of fr] by (simp_all add: frame_size_def kdp_layout)
  with Cons show ?case
    by (simp add: encode_def parse_frame)
qed

lemma parse_noise:
  assumes "to_magic g = None" and "tail_magic g = []"
  shows "parse cap (g @ bs) = parse cap bs"
  using parse_append [of cap g bs] assms by (simp add: parse.simps [of cap g])


lemma push_fits:
  assumes "length (d_buf d) + length data \<le> d_cap d"
  shows "kdp_decoder_push d data = Some (scan (d\<lparr>d_buf := d_buf d @ data\<rparr>))"
proof -
  have "(if length data < d_cap d - length (d_buf d) then length data
         else d_cap d - length (d_buf d)) = length data"
    using assms by auto
  then show ?thesis
    using assms by (simp add: kdp_decoder_push_def push_loop.simps [of d data] split: prod.split)
qed

lemma decoder_init_fields [simp]:
  "d_buf (kdp_decoder_init cap) = []" "d_cap (kdp_decoder_init cap) = cap"
  by (simp_all add: kdp_decoder_init_def)

section \<open>The interface a reader of the link relies on\<close>

text \<open>
  A link task reads whatever its UART holds and pushes it. The contract it relies on: a push
  never fails and delivers what a parser of the bytes alone delivers, and that parser can be
  restarted on what it left over.
\<close>

fun feed :: "('s \<Rightarrow> 'b list \<Rightarrow> ('s \<times> 'f list) option) \<Rightarrow> 's \<Rightarrow> 'b list list \<Rightarrow> ('s \<times> 'f list) option"
where
  "feed push s [] = Some (s, [])"
| "feed push s (c # cs) =
    (case push s c of None \<Rightarrow> None
     | Some (s', fs) \<Rightarrow> map_option (\<lambda>(s'', gs). (s'', fs @ gs)) (feed push s' cs))"

locale stream_decoder =
  fixes push :: "'s \<Rightarrow> 'b list \<Rightarrow> ('s \<times> 'f list) option"
    and held :: "'s \<Rightarrow> 'b list"
    and wf :: "'s \<Rightarrow> bool"
    and deliver :: "'b list \<Rightarrow> 'f list \<times> 'b list"
  assumes push_delivers: "wf s \<Longrightarrow> \<exists>s'. push s data = Some (s', fst (deliver (held s @ data))) \<and>
      held s' = snd (deliver (held s @ data)) \<and> wf s'"
    and deliver_append: "deliver (a @ b) =
      (fst (deliver a) @ fst (deliver (snd (deliver a) @ b)), snd (deliver (snd (deliver a) @ b)))"
begin

lemma deliver_held: "deliver (snd (deliver a)) = ([], snd (deliver a))"
proof -
  have "deliver a = (fst (deliver a) @ fst (deliver (snd (deliver a))),
      snd (deliver (snd (deliver a))))"
    using deliver_append [of a "[]"] by simp
  then show ?thesis by (metis append_self_conv prod.collapse fst_conv snd_conv)
qed

lemma feed_delivers:
  "wf s \<Longrightarrow> deliver (held s) = ([], held s) \<Longrightarrow>
    \<exists>s'. feed push s chunks = Some (s', fst (deliver (held s @ concat chunks))) \<and>
      held s' = snd (deliver (held s @ concat chunks)) \<and> wf s'"
proof (induction chunks arbitrary: s)
  case Nil
  then show ?case by simp
next
  case (Cons c cs)
  obtain s' where s': "push s c = Some (s', fst (deliver (held s @ c)))"
    "held s' = snd (deliver (held s @ c))" "wf s'"
    using push_delivers [OF Cons.prems(1)] by blast
  have "deliver (held s') = ([], held s')"
    using s'(2) deliver_held [of "held s @ c"] by simp
  from Cons.IH [OF s'(3) this]
  obtain s'' where "feed push s' cs = Some (s'', fst (deliver (held s' @ concat cs)))"
    "held s'' = snd (deliver (held s' @ concat cs))" "wf s''"
    by blast
  then show ?case
    using s' deliver_append [of "held s @ c" "concat cs"] by simp
qed

lemma feed_chunking:
  assumes "wf s" and "deliver (held s) = ([], held s)" and "concat cs = concat cs'"
  shows "map_option snd (feed push s cs) = map_option snd (feed push s cs')"
    and "map_option (held \<circ> fst) (feed push s cs) = map_option (held \<circ> fst) (feed push s cs')"
    and "feed push s cs \<noteq> None"
  using feed_delivers [OF assms(1,2), of cs] feed_delivers [OF assms(1,2), of cs'] assms(3) by auto

end

definition wf_decoder :: "nat \<Rightarrow> kdp_decoder \<Rightarrow> bool" where
  "wf_decoder cap d \<longleftrightarrow> d_cap d = cap \<and> KDP_HEADER_LEN \<le> cap \<and> length (d_buf d) \<le> cap"

lemma push_wf_delivers:
  assumes "wf_decoder cap d"
  shows "\<exists>d'. kdp_decoder_push d data = Some (d', fst (parse cap (d_buf d @ data))) \<and>
    d_buf d' = snd (parse cap (d_buf d @ data)) \<and> wf_decoder cap d'"
proof -
  have "KDP_HEADER_LEN \<le> d_cap d" "length (d_buf d) \<le> d_cap d" "d_cap d = cap"
    using assms by (auto simp: wf_decoder_def)
  then show ?thesis
    using push_loop_parse [of d data "[]"] parse_room [of cap "d_buf d @ data"]
    by (auto simp: kdp_decoder_push_def wf_decoder_def less_imp_le)
qed

interpretation kdp: stream_decoder kdp_decoder_push d_buf "wf_decoder cap" "parse cap" for cap
  by unfold_locales (rule push_wf_delivers, assumption, rule parse_append)

section \<open>Properties\<close>

text \<open>
  C7: on a decoder whose buffer holds at least a header, a push returns, and the frames it hands
  to the callback and the bytes it retains are those the reference parser gives for the retained
  bytes followed by the new ones.
\<close>

theorem push_refines_parse:
  assumes "wf_decoder cap d"
  shows "\<exists>d'. kdp_decoder_push d data = Some (d', fst (parse cap (d_buf d @ data))) \<and>
    d_buf d' = snd (parse cap (d_buf d @ data)) \<and> wf_decoder cap d'"
  using assms by (rule push_wf_delivers)

theorem push_refines_parse_witness:
  "\<exists>d'. kdp_decoder_push (kdp_decoder_init 64) [0x4B, 0x49, 1] =
      Some (d', fst (parse 64 (d_buf (kdp_decoder_init 64) @ [0x4B, 0x49, 1]))) \<and>
    d_buf d' = snd (parse 64 (d_buf (kdp_decoder_init 64) @ [0x4B, 0x49, 1])) \<and> wf_decoder 64 d'"
  by (rule push_refines_parse) (simp add: wf_decoder_def kdp_decoder_init_def kdp_layout)

text \<open>
  C3: how the stream is cut into reads does not matter: two divisions of the same bytes into
  chunks deliver the same frames and leave the same bytes waiting, and no push in them fails.
\<close>

theorem feed_chunking_irrelevant:
  assumes "KDP_HEADER_LEN \<le> cap" and "concat cs = concat cs'"
  shows "\<exists>d d' fs. feed kdp_decoder_push (kdp_decoder_init cap) cs = Some (d, fs) \<and>
    feed kdp_decoder_push (kdp_decoder_init cap) cs' = Some (d', fs) \<and> d_buf d = d_buf d'"
proof -
  have wf: "wf_decoder cap (kdp_decoder_init cap)"
    and idle: "parse cap (d_buf (kdp_decoder_init cap)) = ([], d_buf (kdp_decoder_init cap))"
    using assms(1) by (simp_all add: wf_decoder_def kdp_decoder_init_def parse.simps tail_magic_def)
  show ?thesis
    using kdp.feed_delivers [OF wf idle, of cs] kdp.feed_delivers [OF wf idle, of cs'] assms(2)
    by auto
qed

theorem feed_chunking_irrelevant_witness:
  "\<exists>d d' fs. feed kdp_decoder_push (kdp_decoder_init 14) [[0x4B], [0x49, 7]] = Some (d, fs) \<and>
    feed kdp_decoder_push (kdp_decoder_init 14) [[0x4B, 0x49], [], [7]] = Some (d', fs) \<and>
    d_buf d = d_buf d'"
  by (rule feed_chunking_irrelevant) (simp_all add: kdp_layout)

text \<open>
  C4: round trip. Noise that holds no magic and does not end in half of one, followed by any
  sequence of encoded frames that fit the buffer, read in any chunks, delivers exactly those
  frames in order and leaves nothing waiting.
\<close>

theorem encode_decode_roundtrip:
  assumes "concat chunks = noise @ concat (map encode frs)"
    and "to_magic noise = None" and "tail_magic noise = []"
    and "\<And>fr. fr \<in> set frs \<Longrightarrow> length (fr_payload fr) \<le> KDP_MAX_PAYLOAD \<and> frame_size fr \<le> cap"
    and "KDP_HEADER_LEN \<le> cap"
  shows "\<exists>d. feed kdp_decoder_push (kdp_decoder_init cap) chunks = Some (d, frs) \<and> d_buf d = []"
proof -
  have wf: "wf_decoder cap (kdp_decoder_init cap)"
    and idle: "parse cap (d_buf (kdp_decoder_init cap)) = ([], d_buf (kdp_decoder_init cap))"
    using assms(5) by (simp_all add: wf_decoder_def kdp_decoder_init_def parse.simps tail_magic_def)
  have "parse cap (d_buf (kdp_decoder_init cap) @ concat chunks) = (frs, [])"
    using parse_noise [OF assms(2,3)] parse_frames [OF assms(4)] assms(1)
    by (simp add: kdp_decoder_init_def)
  then show ?thesis
    using kdp.feed_delivers [OF wf idle, of chunks] by auto
qed

theorem encode_decode_roundtrip_witness:
  "\<exists>d. feed kdp_decoder_push (kdp_decoder_init 20)
        [[0x0D, 0x0A], encode \<lparr>fr_version = 1, fr_type = 2, fr_flags = 0, fr_seq = 7, fr_payload = [5]\<rparr>] =
      Some (d, [\<lparr>fr_version = 1, fr_type = 2, fr_flags = 0, fr_seq = 7, fr_payload = [5]\<rparr>]) \<and>
    d_buf d = []"
  by (rule encode_decode_roundtrip [where noise = "[0x0D, 0x0A]"])
    (auto simp: tail_magic_def KDP_MAGIC0_def KDP_MAGIC1_def frame_size_def kdp_layout)

text \<open>
  A push returns for every buffer of at least one byte, whatever the data; only a decoder
  with no buffer at all, given data, takes the underflowing branch.
\<close>

theorem push_returns_iff:
  assumes "length (d_buf d) \<le> d_cap d"
  shows "kdp_decoder_push d data = None \<longleftrightarrow> d_cap d = 0 \<and> data \<noteq> []"
proof (cases "d_cap d = 0")
  case True
  with assms have e: "d_buf d = []" by simp
  have "scan (d\<lparr>d_buf := []\<rparr>) = (no_magic 0 (d\<lparr>d_buf := []\<rparr>), [])"
    by (simp add: scan_def scan_loop.simps find_magic.simps)
  then show ?thesis
    using True e by (simp add: kdp_decoder_push_def push_loop.simps [of d])
next
  case False
  then show ?thesis
    using push_loop_returns [of d data "[]"] assms by (auto simp: kdp_decoder_push_def)
qed

theorem push_returns_iff_witness:
  "kdp_decoder_push (kdp_decoder_init 0) [1] = None \<longleftrightarrow>
    d_cap (kdp_decoder_init 0) = 0 \<and> [1::u8] \<noteq> []"
  by (rule push_returns_iff) (simp add: kdp_decoder_init_def)

text \<open>
  Every byte is accounted for: after a push, the bytes counted as discarded, the bytes of
  the delivered frames and the bytes retained add up to the bytes held before and the bytes
  pushed, in the counter's 32-bit arithmetic.
\<close>

theorem push_accounts_bytes:
  assumes "kdp_decoder_push d data = Some (d', fs)"
  shows "st_discarded_bytes (d_stats d') + of_nat (length (d_buf d')) +
      of_nat (sum_list (map frame_size fs)) =
    st_discarded_bytes (d_stats d) + of_nat (length (d_buf d) + length data)"
  using push_loop_accounts [of d data "[]" d' fs] assms by (simp add: kdp_decoder_push_def)

theorem push_accounts_bytes_witness:
  "\<exists>d' fs. kdp_decoder_push (kdp_decoder_init 14) [1, 2, 3] = Some (d', fs) \<and>
    st_discarded_bytes (d_stats d') + of_nat (length (d_buf d')) +
      of_nat (sum_list (map frame_size fs)) = 3"
proof -
  obtain d' fs where p: "kdp_decoder_push (kdp_decoder_init 14) [1, 2, 3] = Some (d', fs)"
    using push_loop_returns [of "kdp_decoder_init 14" "[1, 2, 3]" "[]"]
    by (auto simp: kdp_decoder_push_def kdp_decoder_init_def)
  then show ?thesis
    using push_accounts_bytes [OF p] by (auto simp: kdp_decoder_init_def)
qed

text \<open>
  C21: a frame damaged within four consecutive bytes of what its CRC covers, its magic and length
  field still readable, is never delivered: a fresh decoder counts one CRC failure and one resync,
  delivers nothing when no other magic follows, keeps at most one byte, and stays usable.
\<close>

theorem damaged_frame_not_delivered:
  assumes body: "frame_body v t f s p = u @ xs @ w" and dmg: "bad = u @ ys @ w"
    and win: "length xs = length ys" "length xs \<le> 4" "xs \<noteq> ys"
    and readable: "take 2 bad = [KDP_MAGIC0, KDP_MAGIC1]" "get_u32le (drop 10 bad) = of_nat (length p)"
    and fits: "length p \<le> KDP_MAX_PAYLOAD" "length p + 18 \<le> cap"
    and wire: "wire = bad @ put_u32le (kdp_crc32 (frame_body v t f s p))"
    and alone: "to_magic (drop 2 wire) = None"
  shows "\<exists>d. kdp_decoder_push (kdp_decoder_init cap) wire = Some (d, []) \<and> length (d_buf d) \<le> 1 \<and>
    st_crc_failures (d_stats d) = 1 \<and> st_resyncs (d_stats d) = 1 \<and> wf_decoder cap d"
proof -
  have crc: "kdp_crc32 bad \<noteq> kdp_crc32 (frame_body v t f s p)"
    using crc32_window_changes [OF win, of u w] body dmg by simp
  have len: "length bad = KDP_HEADER_LEN + length p"
    using body dmg win(1) length_frame_body [of v t f s p] by simp
  have "get_u32le (drop 10 wire) = of_nat (length p)"
    using readable(2) get_u32le_drop_append [of 10 bad] len wire by (simp add: kdp_layout)
  then have bad: "head_at cap wire = BadCrc"
    using len fits wire crc get_put_u32le [of "kdp_crc32 (frame_body v t f s p)" "[]"]
    by (simp add: head_at_def of_nat_payload Let_def) (simp add: kdp_layout)
  have start: "find_magic wire 0 = Some 0"
    using readable(1) wire len by (cases bad rule: to_magic.cases) (auto simp: find_magic.simps)
  have rest: "find_magic wire 2 = None"
    using find_magic_to_magic [of wire 2] alone by simp
  let ?d = "(kdp_decoder_init cap)\<lparr>d_buf := wire\<rparr>"
  have "scan ?d = (no_magic 2 (count_discarded 2 (count_resync (count_crc_failure ?d))), [])"
    using bad start rest
    by (simp add: scan_def scan_loop.simps [of ?d 0] scan_loop.simps [of _ 2] numeral_2_eq_2 [symmetric] note_skipped_def Let_def)
  then have "kdp_decoder_push (kdp_decoder_init cap) wire =
      Some (no_magic 2 (count_discarded 2 (count_resync (count_crc_failure ?d))), [])"
    using len wire fits(2) push_fits [of "kdp_decoder_init cap" wire] by (simp add: kdp_layout)
  then show ?thesis
    using fits(2)
    by (simp add: wf_decoder_def) (simp add: no_magic_def count_defs kdp_decoder_init_def kdp_layout Let_def)
qed

theorem damaged_frame_not_delivered_witness:
  "\<exists>d. kdp_decoder_push (kdp_decoder_init 64)
      ([0x4B, 0x49, 1, 2, 0, 0, 7, 0, 0, 0, 1, 0, 0, 0, 6] @
        put_u32le (kdp_crc32 (frame_body 1 2 0 7 [5]))) = Some (d, []) \<and> length (d_buf d) \<le> 1 \<and>
    st_crc_failures (d_stats d) = 1 \<and> st_resyncs (d_stats d) = 1 \<and> wf_decoder 64 d"
proof -
  have body: "frame_body 1 2 0 7 [5] = [0x4B, 0x49, 1, 2, 0, 0, 7, 0, 0, 0, 1, 0, 0, 0] @ [5] @ []"
    by (simp add: frame_body_def KDP_MAGIC0_def KDP_MAGIC1_def put_u32le_def)
  have crc: "put_u32le (kdp_crc32 (frame_body 1 2 0 7 [5])) = [0x39, 0x21, 0xf5, 0x34]"
    unfolding body
    by (simp add: kdp_crc32_def kdp_crc32_update_def kdp_crc32_begin_def kdp_crc32_final_def
        crc_step_def table_def put_u32le_def)
  show ?thesis
    by (rule damaged_frame_not_delivered [OF body refl, where ys = "[6]"])
      (simp_all add: KDP_MAGIC0_def KDP_MAGIC1_def kdp_layout get_u32le_def crc)
qed

end
