(* ===== verification/Roll_Policy.thy ===== *)
theory Roll_Policy
  imports Kino_Prelude
begin

text \<open>
  The policy half of the Roll upload queue (\<^verbatim>\<open>firmware/p4/main/roll_queue.c\<close>): the retry backoff,
  the classification of a server's answer, the scanner for the API's error code, and the
  heartbeat cadence.

  A \<^verbatim>\<open>const char *\<close> that may be NULL is an optional string; \<^verbatim>\<open>rq_error_code\<close> returns the code it
  wrote, or \<^const>\<open>None\<close> where it returns false with its output emptied.
\<close>

section \<open>The code\<close>

definition RQ_MAX_ATTEMPTS :: u32 where "RQ_MAX_ATTEMPTS = 12"
definition RQ_MAX_REREADS :: u32 where "RQ_MAX_REREADS = 2"
definition RQ_BACKOFF_CAP_MS :: u32 where "RQ_BACKOFF_CAP_MS = 30000"

datatype rq_disposition =
  RQ_DISP_OK | RQ_DISP_RETRY | RQ_DISP_REREAD | RQ_DISP_PARK | RQ_DISP_HALT | RQ_DISP_YIELD
  | RQ_DISP_REINIT

definition rq_backoff_ms :: "u32 \<Rightarrow> u32" where
  "rq_backoff_ms attempts =
    (if attempts = 0 then 0
     else let shift = attempts - 1
     in if shift \<ge> 16 then RQ_BACKOFF_CAP_MS
     else let ms = push_bit (unat shift) 1000
     in if ms > RQ_BACKOFF_CAP_MS then RQ_BACKOFF_CAP_MS else ms)"

definition rq_classify_response :: "int \<Rightarrow> string option \<Rightarrow> rq_disposition" where
  "rq_classify_response status code =
    (if status \<le> 0 then RQ_DISP_RETRY
     else if status \<ge> 200 \<and> status < 300 then RQ_DISP_OK
     else if status = 401 \<or> status = 403 then RQ_DISP_HALT
     else if status = 409 then
       (if code = Some ''UPLOAD_NOT_OPEN'' then RQ_DISP_REINIT else RQ_DISP_RETRY)
     else if status = 422 then RQ_DISP_REREAD
     else if status = 429 then RQ_DISP_RETRY
     else if status = 400 \<or> status = 404 \<or> status = 413 then RQ_DISP_PARK
     else if status \<ge> 500 then RQ_DISP_RETRY
     else if status \<ge> 400 then RQ_DISP_PARK
     else RQ_DISP_RETRY)"

definition rq_classify_status :: "int \<Rightarrow> rq_disposition" where
  "rq_classify_status status = rq_classify_response status None"

definition rq_classify_step :: "int \<Rightarrow> string option \<Rightarrow> bool \<Rightarrow> rq_disposition" where
  "rq_classify_step status code card_yielded =
    (if card_yielded then RQ_DISP_YIELD else rq_classify_response status code)"

subsection \<open>The error code scanner\<close>

definition quote :: char where "quote = CHR 0x22"

definition code_key :: string where "code_key = quote # ''code'' @ [quote]"

text \<open>\<^verbatim>\<open>strstr(body, key)\<close> advanced past the key: what follows its first occurrence.\<close>

fun after_key :: "string \<Rightarrow> string \<Rightarrow> string option" where
  "after_key key [] = (if key = [] then Some [] else None)"
| "after_key key (c # cs) =
    (if take (length key) (c # cs) = key then Some (drop (length key) (c # cs))
     else after_key key cs)"

definition json_space :: "char \<Rightarrow> bool" where
  "json_space c \<longleftrightarrow> c = CHR '' '' \<or> c = CHR 0x09 \<or> c = CHR 0x0A \<or> c = CHR 0x0D"

fun read_code :: "nat \<Rightarrow> string \<Rightarrow> string \<Rightarrow> string option" where
  "read_code cap out [] = None"
| "read_code cap out (c # cs) =
    (if c = quote then (if out = [] then None else Some out)
     else if \<not> (c_upper c \<or> c = CHR ''_'') then None
     else if length out + 1 \<ge> cap then None
     else read_code cap (out @ [c]) cs)"

definition rq_error_code :: "string option \<Rightarrow> nat \<Rightarrow> string option" where
  "rq_error_code body cap =
    (if cap = 0 then None
     else case body of None \<Rightarrow> None
     | Some b \<Rightarrow>
        (case after_key code_key b of None \<Rightarrow> None
         | Some p \<Rightarrow>
            (case dropWhile json_space p of [] \<Rightarrow> None
             | c # p1 \<Rightarrow>
                if c \<noteq> CHR '':'' then None
                else (case dropWhile json_space p1 of [] \<Rightarrow> None
                  | q # p2 \<Rightarrow> if q \<noteq> quote then None else read_code cap [] p2))))"

subsection \<open>Heartbeat cadence\<close>

definition RQ_HEARTBEAT_PERIOD_MS :: int where "RQ_HEARTBEAT_PERIOD_MS = 45000"
definition RQ_HEARTBEAT_MIN_GAP_MS :: int where "RQ_HEARTBEAT_MIN_GAP_MS = 10000"

record rq_hb_facts =
  hb_pending :: int
  hb_uploading :: int
  hb_failed :: int
  hb_halted :: bool
  hb_server_state :: int

record rq_hb_state =
  hb_sent :: bool
  hb_sent_ms :: int
  hb_sent_facts :: rq_hb_facts

definition hb_busy :: "rq_hb_facts \<Rightarrow> bool" where
  "hb_busy f \<longleftrightarrow> hb_pending f > 0 \<or> hb_uploading f > 0"

definition rq_heartbeat_due :: "rq_hb_state \<Rightarrow> rq_hb_facts \<Rightarrow> bool \<Rightarrow> bool \<Rightarrow> int \<Rightarrow> bool" where
  "rq_heartbeat_due st now_facts joined net_up now_ms =
    (if \<not> joined \<or> \<not> net_up then False
     else if \<not> hb_sent st then True
     else let since = (if now_ms - hb_sent_ms st < 0 then 0 else now_ms - hb_sent_ms st)
     in if since \<ge> RQ_HEARTBEAT_PERIOD_MS then True
     else if since < RQ_HEARTBEAT_MIN_GAP_MS then False
     else if hb_busy now_facts \<noteq> hb_busy (hb_sent_facts st) then True
     else if hb_server_state now_facts \<noteq> hb_server_state (hb_sent_facts st) then True
     else False)"

definition rq_heartbeat_sent :: "rq_hb_state \<Rightarrow> rq_hb_facts \<Rightarrow> int \<Rightarrow> rq_hb_state" where
  "rq_heartbeat_sent st facts now_ms =
     st\<lparr>hb_sent := True, hb_sent_ms := now_ms, hb_sent_facts := facts\<rparr>"

text \<open>
  The queue worker's use of the pair, one poll per element: the facts, whether a Roll is joined
  and the network is up, and the clock. A heartbeat goes out when it is due and is then recorded.
  The result lists the times of the heartbeats sent.
\<close>

type_synonym hb_poll = "rq_hb_facts \<times> bool \<times> bool \<times> int"

fun hb_run :: "rq_hb_state \<Rightarrow> hb_poll list \<Rightarrow> int list" where
  "hb_run st [] = []"
| "hb_run st ((facts, joined, net_up, now) # ps) =
    (if rq_heartbeat_due st facts joined net_up now
     then now # hb_run (rq_heartbeat_sent st facts now) ps
     else hb_run st ps)"

section \<open>Lemmas\<close>

lemma after_key_split:
  assumes "after_key key body = Some rest"
  shows "\<exists>pre. body = pre @ key @ rest"
  using assms
proof (induction body)
  case Nil
  then show ?case by (auto split: if_splits)
next
  case (Cons c cs)
  show ?case
  proof (cases "take (length key) (c # cs) = key")
    case True
    then have "c # cs = key @ rest"
      using Cons.prems append_take_drop_id [of "length key" "c # cs"] by simp
    then show ?thesis by (metis append_Nil)
  next
    case False
    then obtain pre where "cs = pre @ key @ rest" using Cons by auto
    then show ?thesis by (metis append_Cons)
  qed
qed

lemma after_key_first:
  assumes "\<And>i. i < length pre \<Longrightarrow> take (length key) (drop i (pre @ key @ rest)) \<noteq> key"
    and "key \<noteq> []"
  shows "after_key key (pre @ key @ rest) = Some rest"
  using assms(1)
proof (induction pre)
  case Nil
  show ?case using assms(2) by (cases key) auto
next
  case (Cons c pre)
  have "take (length key) (drop i (pre @ key @ rest)) \<noteq> key" if "i < length pre" for i
    using Cons.prems [of "Suc i"] that by simp
  then show ?case
    using Cons.prems [of 0] Cons.IH by simp
qed

lemma read_code_sound:
  "read_code cap out p = Some code \<Longrightarrow>
   \<exists>w rest. code = out @ w \<and> p = w @ quote # rest \<and> code \<noteq> [] \<and>
     (\<forall>c \<in> set w. c_upper c \<or> c = CHR ''_'') \<and> (length out < cap \<longrightarrow> length code < cap)"
proof (induction cap out p rule: read_code.induct)
  case (1 cap out)
  then show ?case by simp
next
  case (2 cap out c cs)
  show ?case
  proof (cases "c = quote")
    case True
    with 2(2) show ?thesis by (auto split: if_splits)
  next
    case False
    with 2(2) have ok: "c_upper c \<or> c = CHR ''_''" "\<not> cap \<le> length out + 1"
      "read_code cap (out @ [c]) cs = Some code"
      by (auto split: if_splits)
    with 2(1) False obtain w rest where "code = (out @ [c]) @ w" "cs = w @ quote # rest"
      "code \<noteq> []" "\<forall>c \<in> set w. c_upper c \<or> c = CHR ''_''" "length code < cap"
      by fastforce
    then show ?thesis
      using ok(1) by (intro exI [of _ "c # w"] exI [of _ rest]) auto
  qed
qed

lemma quote_not_code: "\<not> c_upper quote" "quote \<noteq> CHR ''_''" "\<not> json_space quote"
  "quote \<noteq> CHR '':''" "\<not> json_space (CHR '':'')"
  by (simp_all add: quote_def c_upper_def json_space_def less_eq_char_def)

lemma read_code_complete:
  assumes "\<And>c. c \<in> set w \<Longrightarrow> c_upper c \<or> c = CHR ''_''" and "length out + length w < cap"
    and "out @ w \<noteq> []"
  shows "read_code cap out (w @ quote # rest) = Some (out @ w)"
  using assms
proof (induction w arbitrary: out)
  case Nil
  then show ?case by simp
next
  case (Cons c w)
  have "c \<noteq> quote" using Cons.prems(1) [of c] quote_not_code by auto
  then show ?case
    using Cons.prems Cons.IH [of "out @ [c]"] by auto
qed

lemma hb_run_after:
  assumes "sorted (map (\<lambda>(f, j, u, t). t) ps)" and "hb_sent st"
    and "\<And>p. p \<in> set ps \<Longrightarrow> hb_sent_ms st \<le> (case p of (f, j, u, t) \<Rightarrow> t)"
  shows "successively (\<lambda>a b. a + RQ_HEARTBEAT_MIN_GAP_MS \<le> b) (hb_sent_ms st # hb_run st ps)"
  using assms
proof (induction ps arbitrary: st)
  case Nil
  then show ?case by simp
next
  case (Cons p ps)
  obtain f j u t where p: "p = (f, j, u, t)" by (cases p) auto
  show ?case
  proof (cases "rq_heartbeat_due st f j u t")
    case True
    have gap: "hb_sent_ms st + RQ_HEARTBEAT_MIN_GAP_MS \<le> t"
      using True Cons.prems(2) Cons.prems(3) [of p] p
      by (auto simp: rq_heartbeat_due_def RQ_HEARTBEAT_MIN_GAP_MS_def RQ_HEARTBEAT_PERIOD_MS_def
          Let_def split: if_splits)
    have "successively (\<lambda>a b. a + RQ_HEARTBEAT_MIN_GAP_MS \<le> b)
        (t # hb_run (rq_heartbeat_sent st f t) ps)"
      using Cons.IH [of "rq_heartbeat_sent st f t"] Cons.prems(1) p
      by (auto simp: rq_heartbeat_sent_def)
    with gap True p show ?thesis by simp
  next
    case False
    then show ?thesis
      using Cons.IH [of st] Cons.prems p by simp
  qed
qed

section \<open>Properties\<close>

text \<open>
  The backoff is one second doubling with every further failure and capped at thirty seconds,
  computed without overflow for every failure count a 32-bit counter can hold.
\<close>

lemma backoff_is_capped_doubling:
  "unat (rq_backoff_ms attempts) =
    (if attempts = 0 then 0 else min 30000 (1000 * 2 ^ (unat attempts - 1)))"
proof (cases "attempts = 0")
  case True
  then show ?thesis by (simp add: rq_backoff_ms_def)
next
  case False
  define k where "k = unat (attempts - 1)"
  have k: "k = unat attempts - 1"
    using False by (simp add: k_def unat_sub word_le_nat_alt unat_gt_0 Suc_leI)
  have big: "(16 \<le> attempts - 1) = (16 \<le> k)"
    by (simp add: k_def word_le_nat_alt)
  show ?thesis
  proof (cases "16 \<le> k")
    case True
    have "(2::nat) ^ 16 \<le> 2 ^ k" using True by (intro power_increasing) auto
    then have "30000 \<le> 1000 * (2::nat) ^ k" by simp
    then show ?thesis
      using False True big k by (simp add: rq_backoff_ms_def RQ_BACKOFF_CAP_MS_def min_absorb1)
  next
    case small: False
    have "(2::nat) ^ k \<le> 2 ^ 15" using small by (intro power_increasing) auto
    then have "unat (push_bit k 1000 :: u32) = 1000 * 2 ^ k"
      by (subst unsigned_push_bit_eq)
        (simp add: push_bit_eq_mult take_bit_nat_eq_self_iff take_bit_nat_eq_self)
    then show ?thesis
      using False small big k
      by (auto simp: rq_backoff_ms_def RQ_BACKOFF_CAP_MS_def Let_def k_def [symmetric]
          word_less_nat_alt)
  qed
qed

text \<open>
  Classification. A step counts as done exactly on a 2xx; the queue halts exactly on 401 and
  403; a session is re-initialised exactly on a 409 whose code says it is not open; a park, which
  gives a photograph up, needs a 4xx verdict of the server about that photograph, never silence,
  a 5xx, a rate limit or an unreadable 409; and a yielded step is never judged at all.
\<close>

theorem classify_verdicts:
  "(rq_classify_response status code = RQ_DISP_OK \<longleftrightarrow> 200 \<le> status \<and> status < 300) \<and>
   (rq_classify_response status code = RQ_DISP_HALT \<longleftrightarrow> status = 401 \<or> status = 403) \<and>
   (rq_classify_response status code = RQ_DISP_REINIT \<longleftrightarrow>
      status = 409 \<and> code = Some ''UPLOAD_NOT_OPEN'') \<and>
   (rq_classify_response status code = RQ_DISP_REREAD \<longleftrightarrow> status = 422) \<and>
   (rq_classify_response status code = RQ_DISP_PARK \<longleftrightarrow>
      400 \<le> status \<and> status < 500 \<and> status \<notin> {401, 403, 409, 422, 429}) \<and>
   rq_classify_response status code \<noteq> RQ_DISP_YIELD \<and>
   (rq_classify_step status code yielded = RQ_DISP_YIELD \<longleftrightarrow> yielded)"
  by (auto simp: rq_classify_response_def rq_classify_step_def)

text \<open>
  The error code scanner returns the code of a well-formed body whatever spacing surrounds the
  colon and whatever follows the value, provided no earlier occurrence of the key precedes it.
\<close>

theorem error_code_found:
  assumes "\<And>i. i < length pre \<Longrightarrow> take (length code_key) (drop i body) \<noteq> code_key"
    and "body = pre @ code_key @ wsa @ '':'' @ wsb @ [quote] @ code @ [quote] @ rest"
    and "\<And>c. c \<in> set wsa \<union> set wsb \<Longrightarrow> json_space c"
    and "\<And>c. c \<in> set code \<Longrightarrow> c_upper c \<or> c = CHR ''_''" and "code \<noteq> []" and "length code < cap"
  shows "rq_error_code (Some body) cap = Some code"
proof -
  have "take (length code_key) (drop i (pre @ code_key @ wsa @ '':'' @ wsb @ [quote] @ code @
      [quote] @ rest)) \<noteq> code_key" if "i < length pre" for i
    using assms(1) [OF that] unfolding assms(2) .
  moreover have "code_key \<noteq> []" by (simp add: code_key_def)
  ultimately have "after_key code_key body =
      Some (wsa @ '':'' @ wsb @ [quote] @ code @ [quote] @ rest)"
    unfolding assms(2) by (rule after_key_first)
  moreover have "dropWhile json_space (wsa @ '':'' @ r) = '':'' @ r" for r
    using assms(3) quote_not_code(5) by (simp add: dropWhile_append2)
  moreover have "dropWhile json_space (wsb @ [quote] @ r) = quote # r" for r
    using assms(3) quote_not_code(3) by (simp add: dropWhile_append2)
  moreover have "read_code cap [] (code @ quote # rest) = Some code"
    using read_code_complete [of code "[]" cap rest] assms(4-6) by simp
  ultimately show ?thesis
    using assms(6) by (simp add: rq_error_code_def)
qed

theorem error_code_found_witness:
  "rq_error_code (Some ([quote] @ code_key @ '' '' @ '':'' @ [] @ [quote] @ ''UPLOAD_NOT_OPEN'' @
     [quote] @ ''}'')) 40 = Some ''UPLOAD_NOT_OPEN''"
  by (rule error_code_found [where pre = "[quote]" and wsa = "'' ''" and wsb = "[]" and rest = "''}''"])
    (auto simp: code_key_def quote_def json_space_def c_upper_def less_eq_char_def)

text \<open>
  Whatever the body, a code the scanner returns is a quoted value of the key in that body made
  of capital letters and underscores only, non-empty, and short enough for the caller's buffer with
  its terminator.
\<close>

theorem error_code_sound:
  assumes "rq_error_code (Some body) cap = Some code"
  shows "code \<noteq> [] \<and> length code < cap \<and> (\<forall>c \<in> set code. c_upper c \<or> c = CHR ''_'') \<and>
    (\<exists>pre wsa wsb rest. body = pre @ code_key @ wsa @ '':'' @ wsb @ [quote] @ code @ [quote] @ rest)"
proof -
  obtain p p1 p2 where cap: "cap \<noteq> 0" and p: "after_key code_key body = Some p"
    and p1: "dropWhile json_space p = CHR '':'' # p1"
    and p2: "dropWhile json_space p1 = quote # p2" and rc: "read_code cap [] p2 = Some code"
    using assms by (auto simp: rq_error_code_def split: if_splits option.splits list.splits)
  obtain rest where r: "p2 = code @ quote # rest" "code \<noteq> []" "length code < cap"
    "\<forall>c \<in> set code. c_upper c \<or> c = CHR ''_''"
    using read_code_sound [OF rc] cap by auto
  obtain pre where "body = pre @ code_key @ p"
    using after_key_split [OF p] by blast
  moreover have "p = takeWhile json_space p @ '':'' @ p1"
    using takeWhile_dropWhile_id [of json_space p] p1 by simp
  moreover have "p1 = takeWhile json_space p1 @ [quote] @ p2"
    using takeWhile_dropWhile_id [of json_space p1] p2 by simp
  ultimately have "body = pre @ code_key @ takeWhile json_space p @ '':'' @
      takeWhile json_space p1 @ [quote] @ code @ [quote] @ rest"
    using r(1) by (metis append.assoc append_Cons append_Nil)
  with r show ?thesis by blast
qed

theorem error_code_sound_witness:
  "\<exists>pre wsa wsb rest. code_key @ '':'' @ [quote] @ ''A'' @ [quote] =
     pre @ code_key @ wsa @ '':'' @ wsb @ [quote] @ ''A'' @ [quote] @ rest"
proof -
  have "rq_error_code (Some (code_key @ '':'' @ [quote] @ ''A'' @ [quote])) 4 = Some ''A''"
    by (simp add: rq_error_code_def code_key_def quote_def json_space_def c_upper_def less_eq_char_def)
  from error_code_sound [OF this] show ?thesis by blast
qed

text \<open>
  Heartbeats are rate limited: over any sequence of polls with a clock that does not run
  backwards, two consecutive heartbeats are at least the minimum gap apart.
\<close>

theorem heartbeats_rate_limited:
  assumes "sorted (map (\<lambda>(f, j, u, t). t) ps)" and "\<not> hb_sent st"
  shows "successively (\<lambda>a b. a + RQ_HEARTBEAT_MIN_GAP_MS \<le> b) (hb_run st ps)"
  using assms(1)
proof (induction ps)
  case Nil
  show ?case by simp
next
  case (Cons p ps)
  obtain f j u t where p: "p = (f, j, u, t)" by (cases p) auto
  have "successively (\<lambda>a b. a + RQ_HEARTBEAT_MIN_GAP_MS \<le> b)
      (t # hb_run (rq_heartbeat_sent st f t) ps)"
    using hb_run_after [of ps "rq_heartbeat_sent st f t"] Cons.prems p
    by (auto simp: rq_heartbeat_sent_def)
  then show ?case using Cons p by simp
qed

theorem heartbeats_rate_limited_witness:
  "successively (\<lambda>a b. a + RQ_HEARTBEAT_MIN_GAP_MS \<le> b)
    (let f = \<lparr>hb_pending = 0, hb_uploading = 0, hb_failed = 0, hb_halted = False, hb_server_state = 0\<rparr>
     in hb_run \<lparr>hb_sent = False, hb_sent_ms = 0, hb_sent_facts = f\<rparr>
          [(f, True, True, 5), (f, True, True, 50000)])"
  unfolding Let_def by (rule heartbeats_rate_limited) simp_all

text \<open>
  A camera with a Roll and a network never goes quiet: a poll at least one period after the last
  heartbeat, or the first such poll of a boot, sends one, whatever the queue reports, halted or not.
\<close>

theorem heartbeat_never_suppressed:
  assumes "\<not> hb_sent st \<or> hb_sent_ms st + RQ_HEARTBEAT_PERIOD_MS \<le> now"
  shows "hb_run st ((facts, True, True, now) # ps) =
    now # hb_run (rq_heartbeat_sent st facts now) ps"
  using assms
  by (auto simp: rq_heartbeat_due_def RQ_HEARTBEAT_PERIOD_MS_def Let_def)

theorem heartbeat_never_suppressed_witness:
  "let f = \<lparr>hb_pending = 0, hb_uploading = 0, hb_failed = 0, hb_halted = True, hb_server_state = 0\<rparr>;
       st = \<lparr>hb_sent = True, hb_sent_ms = 0, hb_sent_facts = f\<rparr>
   in hb_run st ((f, True, True, 45000) # []) = 45000 # hb_run (rq_heartbeat_sent st f 45000) []"
  unfolding Let_def by (rule heartbeat_never_suppressed) (simp add: RQ_HEARTBEAT_PERIOD_MS_def)

end
