(* ===== verification/Roll_Job.thy ===== *)
theory Roll_Job
  imports Roll_Policy
begin

text \<open>
  The job half of the Roll upload queue (\<^verbatim>\<open>firmware/p4/main/roll_queue.c\<close>, \<^verbatim>\<open>roll_queue.h\<close>): one
  queued capture, its construction from a camera list, the next step it asks for, and what an
  outcome does to it; and the way \<^verbatim>\<open>upload_queue.c\<close> books a result on a job.

  A job is passed by value, so the \<^verbatim>\<open>job == NULL\<close> guards of the sources have no counterpart. The
  fixed arrays \<^verbatim>\<open>frame_slot\<close> and \<^verbatim>\<open>frame_done\<close> are lists of \<open>RQ_MAX_FRAMES\<close> elements, which the
  invariant \<open>job_wf\<close> states. Text fields are the strings before their terminator.
\<close>

section \<open>The code\<close>

definition RQ_MAX_FRAMES :: nat where "RQ_MAX_FRAMES = 8"
definition RQ_UUID_LEN :: nat where "RQ_UUID_LEN = 40"
definition RQ_CAPTURE_ID_LEN :: nat where "RQ_CAPTURE_ID_LEN = 64"
definition RQ_ERROR_LEN :: nat where "RQ_ERROR_LEN = 96"

datatype rq_state =
  RQ_QUEUED | RQ_REGISTERING | RQ_THUMB_UPLOADING | RQ_THUMB_READY | RQ_ORIGINALS_UPLOADING
  | RQ_VERIFYING | RQ_COMPLETE | RQ_RETRY_WAIT | RQ_FAILED

datatype rq_step_kind =
  RQ_STEP_NOTHING | RQ_STEP_REGISTER | RQ_STEP_UPLOAD_THUMB | RQ_STEP_UPLOAD_FRAME
  | RQ_STEP_COMPLETE_CAPTURE | RQ_STEP_WAIT_BACKOFF

record rq_job =
  uuid :: string
  capture_id :: string
  roll_id :: string
  job_state :: rq_state
  frame_count :: int
  thumb_present :: bool
  thumb_done :: bool
  frame_slot :: "u8 list"
  frame_done :: "bool list"
  attempts :: u32
  reread_attempts :: u32
  next_attempt_ms :: int
  last_error :: string

record rq_step =
  kind :: rq_step_kind
  frame_index :: int

definition rq_retry_due :: "rq_job \<Rightarrow> int \<Rightarrow> bool" where
  "rq_retry_due job now_ms =
    (if job_state job \<noteq> RQ_RETRY_WAIT then True else now_ms \<ge> next_attempt_ms job)"

definition rq_job_boot_resume :: "rq_job \<Rightarrow> rq_job" where
  "rq_job_boot_resume job =
    (if job_state job = RQ_RETRY_WAIT then job\<lparr>next_attempt_ms := 0\<rparr> else job)"

definition rq_job_network_restored :: "rq_job \<Rightarrow> rq_job" where
  "rq_job_network_restored job =
    (if job_state job = RQ_RETRY_WAIT then job\<lparr>next_attempt_ms := 0\<rparr> else job)"

subsection \<open>Camera lists\<close>

fun slots_loop :: "int \<Rightarrow> int list \<Rightarrow> u8 list \<Rightarrow> bool" where
  "slots_loop max_slot seen [] = True"
| "slots_loop max_slot seen (b # bs) =
    (let s = uint b
     in if s < 1 \<or> s > max_slot then False
        else if s \<in> set seen then False
        else slots_loop max_slot (s # seen) bs)"

definition rq_slots_valid :: "u8 list option \<Rightarrow> int \<Rightarrow> int \<Rightarrow> bool" where
  "rq_slots_valid slots count max_slot =
    (if count < 0 \<or> count > int RQ_MAX_FRAMES then False
     else if count > 0 \<and> slots = None then False
     else let m = (if max_slot > int RQ_MAX_FRAMES then int RQ_MAX_FRAMES else max_slot)
     in slots_loop m [] (take (nat count) (case slots of None \<Rightarrow> [] | Some s \<Rightarrow> s)))"

definition init_common :: "string option \<Rightarrow> string option \<Rightarrow> bool \<Rightarrow> rq_job" where
  "init_common u r thumb = \<lparr>uuid = fst (pure_strcopy RQ_UUID_LEN u), capture_id = [],
     roll_id = fst (pure_strcopy RQ_CAPTURE_ID_LEN r), job_state = RQ_QUEUED, frame_count = 0,
     thumb_present = thumb, thumb_done = False, frame_slot = replicate RQ_MAX_FRAMES 0,
     frame_done = replicate RQ_MAX_FRAMES False, attempts = 0, reread_attempts = 0,
     next_attempt_ms = 0, last_error = []\<rparr>"

text \<open>The first \<open>count\<close> positions of a zeroed array of \<open>RQ_MAX_FRAMES\<close> elements, filled in.\<close>

definition fill :: "nat \<Rightarrow> (nat \<Rightarrow> 'a) \<Rightarrow> 'a \<Rightarrow> 'a list" where
  "fill count f z = map (\<lambda>i. if i < count then f i else z) [0..<RQ_MAX_FRAMES]"

definition rq_job_init_slots ::
  "string option \<Rightarrow> string option \<Rightarrow> u8 list option \<Rightarrow> int \<Rightarrow> bool \<Rightarrow> bool \<times> rq_job" where
  "rq_job_init_slots u r slots count thumb =
    (let job = init_common u r thumb
     in if \<not> rq_slots_valid slots count (int RQ_MAX_FRAMES) then (False, job)
        else (True, job\<lparr>frame_slot := fill (nat count) (\<lambda>i. the slots ! i) 0,
                        frame_count := count\<rparr>))"

definition rq_job_init :: "string option \<Rightarrow> string option \<Rightarrow> int \<Rightarrow> bool \<Rightarrow> rq_job" where
  "rq_job_init u r count thumb =
    (let job = init_common u r thumb;
         c1 = (if count < 0 then 0 else count);
         c2 = (if c1 > int RQ_MAX_FRAMES then int RQ_MAX_FRAMES else c1)
     in job\<lparr>frame_slot := fill (nat c2) (\<lambda>i. of_nat (i + 1)) 0, frame_count := c2\<rparr>)"

definition positions :: "rq_job \<Rightarrow> nat list" where
  "positions job = [0..<min (nat (frame_count job)) RQ_MAX_FRAMES]"

definition rq_job_has_slots :: "rq_job \<Rightarrow> bool" where
  "rq_job_has_slots job = list_all (\<lambda>i. frame_slot job ! i \<noteq> 0) (positions job)"

definition rq_job_adopt_slots :: "rq_job \<Rightarrow> u8 list option \<Rightarrow> int \<Rightarrow> bool \<times> rq_job" where
  "rq_job_adopt_slots job slots count =
    (if frame_count job > 0 \<and> rq_job_has_slots job then (False, job)
     else if \<not> rq_slots_valid slots count (int RQ_MAX_FRAMES) then (False, job)
     else let old_done = frame_done job;
              old_count = (if frame_count job > int RQ_MAX_FRAMES then int RQ_MAX_FRAMES
                           else frame_count job);
              cam = (\<lambda>i. the slots ! i)
     in (True, job\<lparr>
          frame_slot := fill (nat count) cam 0,
          frame_done := fill (nat count)
            (\<lambda>i. uint (cam i) - 1 < old_count \<and> old_done ! (unat (cam i) - 1)) False,
          frame_count := count\<rparr>))"

definition rq_job_settled :: "rq_job \<Rightarrow> bool" where
  "rq_job_settled job \<longleftrightarrow> job_state job = RQ_COMPLETE \<or> job_state job = RQ_FAILED"

subsection \<open>The next step\<close>

definition first_pending_frame :: "rq_job \<Rightarrow> int" where
  "first_pending_frame job =
    (case filter (\<lambda>i. \<not> frame_done job ! i) (positions job) of
       [] \<Rightarrow> 0 | i # _ \<Rightarrow> uint (frame_slot job ! i))"

definition position_of_slot :: "rq_job \<Rightarrow> int \<Rightarrow> nat option" where
  "position_of_slot job slot =
    (case filter (\<lambda>i. uint (frame_slot job ! i) = slot) (positions job) of
       [] \<Rightarrow> None | i # _ \<Rightarrow> Some i)"

definition rq_next_step :: "rq_job \<Rightarrow> int \<Rightarrow> rq_step" where
  "rq_next_step job now_ms =
    (if job_state job = RQ_COMPLETE \<or> job_state job = RQ_FAILED
     then \<lparr>kind = RQ_STEP_NOTHING, frame_index = 0\<rparr>
     else if job_state job = RQ_RETRY_WAIT \<and> \<not> rq_retry_due job now_ms
     then \<lparr>kind = RQ_STEP_WAIT_BACKOFF, frame_index = 0\<rparr>
     else if capture_id job = [] then \<lparr>kind = RQ_STEP_REGISTER, frame_index = 0\<rparr>
     else if thumb_present job \<and> \<not> thumb_done job
     then \<lparr>kind = RQ_STEP_UPLOAD_THUMB, frame_index = 0\<rparr>
     else let frame = first_pending_frame job
     in if frame > 0 then \<lparr>kind = RQ_STEP_UPLOAD_FRAME, frame_index = frame\<rparr>
     else \<lparr>kind = RQ_STEP_COMPLETE_CAPTURE, frame_index = 0\<rparr>)"

subsection \<open>Applying an outcome\<close>

definition set_error :: "string option \<Rightarrow> rq_job \<Rightarrow> rq_job" where
  "set_error detail job =
    job\<lparr>last_error := (case detail of None \<Rightarrow> []
       | Some d \<Rightarrow> take (RQ_ERROR_LEN - 1) (fst (pure_strcopy RQ_ERROR_LEN (Some d))))\<rparr>"

definition state_for_step :: "rq_job \<Rightarrow> rq_step_kind \<Rightarrow> rq_state" where
  "state_for_step job k =
    (case k of RQ_STEP_REGISTER \<Rightarrow> RQ_REGISTERING
     | RQ_STEP_UPLOAD_THUMB \<Rightarrow> RQ_THUMB_UPLOADING
     | RQ_STEP_UPLOAD_FRAME \<Rightarrow> RQ_ORIGINALS_UPLOADING
     | RQ_STEP_COMPLETE_CAPTURE \<Rightarrow> RQ_VERIFYING
     | _ \<Rightarrow> job_state job)"

definition apply_ok :: "rq_job \<Rightarrow> rq_step \<Rightarrow> bool \<times> rq_job" where
  "apply_ok job0 step =
    (let job = set_error None (job0\<lparr>attempts := 0\<rparr>)
     in case kind step of
          RQ_STEP_REGISTER \<Rightarrow> (True, job\<lparr>job_state :=
             (if thumb_present job then RQ_THUMB_UPLOADING else RQ_ORIGINALS_UPLOADING)\<rparr>)
        | RQ_STEP_UPLOAD_THUMB \<Rightarrow> (True, job\<lparr>thumb_done := True, reread_attempts := 0,
             job_state := RQ_THUMB_READY\<rparr>)
        | RQ_STEP_UPLOAD_FRAME \<Rightarrow>
            (let job1 = (case position_of_slot job (frame_index step) of
                           None \<Rightarrow> job
                         | Some pos \<Rightarrow> job\<lparr>frame_done := (frame_done job)[pos := True]\<rparr>)
             in (True, job1\<lparr>reread_attempts := 0, job_state := RQ_ORIGINALS_UPLOADING\<rparr>))
        | RQ_STEP_COMPLETE_CAPTURE \<Rightarrow> (True, job\<lparr>job_state := RQ_COMPLETE\<rparr>)
        | RQ_STEP_NOTHING \<Rightarrow> (False, job)
        | RQ_STEP_WAIT_BACKOFF \<Rightarrow> (False, job))"

definition apply_rerun :: "rq_job \<Rightarrow> string option \<Rightarrow> bool \<times> rq_job" where
  "apply_rerun job detail =
    (let job1 = set_error detail (job\<lparr>reread_attempts := reread_attempts job + 1\<rparr>)
     in if reread_attempts job1 > RQ_MAX_REREADS then (True, job1\<lparr>job_state := RQ_FAILED\<rparr>)
        else (True, job1\<lparr>job_state := RQ_RETRY_WAIT, next_attempt_ms := 0\<rparr>))"

definition rq_apply :: "rq_job \<Rightarrow> rq_step \<Rightarrow> rq_disposition \<Rightarrow> string option \<Rightarrow> bool \<times> rq_job" where
  "rq_apply job step disp detail =
    (if job_state job = RQ_COMPLETE \<or> job_state job = RQ_FAILED then (False, job)
     else case disp of
       RQ_DISP_OK \<Rightarrow> apply_ok job step
     | RQ_DISP_RETRY \<Rightarrow>
         (let job1 = set_error detail (job\<lparr>attempts := attempts job + 1\<rparr>)
          in (True, job1\<lparr>job_state :=
               (if attempts job1 \<ge> RQ_MAX_ATTEMPTS then RQ_FAILED else RQ_RETRY_WAIT)\<rparr>))
     | RQ_DISP_YIELD \<Rightarrow> (False, (set_error detail job)\<lparr>job_state := RQ_RETRY_WAIT\<rparr>)
     | RQ_DISP_REREAD \<Rightarrow> apply_rerun job detail
     | RQ_DISP_REINIT \<Rightarrow> apply_rerun job detail
     | RQ_DISP_PARK \<Rightarrow> (True, (set_error detail job)\<lparr>job_state := RQ_FAILED\<rparr>)
     | RQ_DISP_HALT \<Rightarrow>
         (True, (set_error detail job)\<lparr>job_state := state_for_step job (kind step)\<rparr>))"

definition rq_park_is_transient :: "rq_job \<Rightarrow> bool" where
  "rq_park_is_transient job =
    (if job_state job \<noteq> RQ_FAILED then False
     else attempts job \<ge> RQ_MAX_ATTEMPTS \<and> reread_attempts job \<le> RQ_MAX_REREADS)"

definition rq_job_revive :: "rq_job \<Rightarrow> rq_job" where
  "rq_job_revive job =
    job\<lparr>attempts := 0, reread_attempts := 0, next_attempt_ms := 0, job_state := RQ_RETRY_WAIT\<rparr>"

text \<open>
  How \<^verbatim>\<open>run_one_step\<close> of \<^verbatim>\<open>upload_queue.c\<close> books a step's result on the live job: the server's
  capture id is stored before the outcome of a successful registration is applied.
\<close>

definition book_result ::
  "rq_job \<Rightarrow> rq_step \<Rightarrow> rq_disposition \<Rightarrow> string \<Rightarrow> string option \<Rightarrow> bool \<times> rq_job" where
  "book_result job step disp server_id detail =
    rq_apply
      (if disp = RQ_DISP_OK \<and> kind step = RQ_STEP_REGISTER
       then job\<lparr>capture_id := fst (pure_strcopy RQ_CAPTURE_ID_LEN (Some server_id))\<rparr> else job)
      step disp detail"

subsection \<open>Naming\<close>

definition rq_state_name :: "rq_state \<Rightarrow> string" where
  "rq_state_name st =
    (case st of RQ_QUEUED \<Rightarrow> ''QUEUED'' | RQ_REGISTERING \<Rightarrow> ''REGISTERING''
     | RQ_THUMB_UPLOADING \<Rightarrow> ''THUMB_UPLOADING'' | RQ_THUMB_READY \<Rightarrow> ''THUMB_READY''
     | RQ_ORIGINALS_UPLOADING \<Rightarrow> ''ORIGINALS_UPLOADING'' | RQ_VERIFYING \<Rightarrow> ''VERIFYING''
     | RQ_COMPLETE \<Rightarrow> ''COMPLETE'' | RQ_RETRY_WAIT \<Rightarrow> ''RETRY_WAIT'' | RQ_FAILED \<Rightarrow> ''FAILED'')"

section \<open>Well-formed jobs\<close>

definition job_wf :: "rq_job \<Rightarrow> bool" where
  "job_wf j \<longleftrightarrow> length (frame_slot j) = RQ_MAX_FRAMES \<and> length (frame_done j) = RQ_MAX_FRAMES \<and>
     0 \<le> frame_count j \<and> frame_count j \<le> int RQ_MAX_FRAMES"

definition cameras :: "rq_job \<Rightarrow> int list" where
  "cameras j = map (\<lambda>i. uint (frame_slot j ! i)) (positions j)"

definition job_cams :: "rq_job \<Rightarrow> bool" where
  "job_cams j \<longleftrightarrow> distinct (cameras j) \<and> (\<forall>c \<in> set (cameras j). 1 \<le> c \<and> c \<le> int RQ_MAX_FRAMES)"

definition job_counts :: "rq_job \<Rightarrow> bool" where
  "job_counts j \<longleftrightarrow> job_state j = RQ_FAILED \<or>
     attempts j < RQ_MAX_ATTEMPTS \<and> reread_attempts j \<le> RQ_MAX_REREADS"

definition job_ok :: "rq_job \<Rightarrow> bool" where
  "job_ok j \<longleftrightarrow> job_wf j \<and> job_cams j \<and> job_counts j"

lemmas job_inv_defs = job_ok_def job_wf_def job_cams_def job_counts_def

definition pending_positions :: "rq_job \<Rightarrow> nat list" where
  "pending_positions j = filter (\<lambda>i. \<not> frame_done j ! i) (positions j)"

lemma set_error_fields [simp]:
  "capture_id (set_error d j) = capture_id j" "job_state (set_error d j) = job_state j"
  "frame_count (set_error d j) = frame_count j" "thumb_present (set_error d j) = thumb_present j"
  "thumb_done (set_error d j) = thumb_done j" "frame_slot (set_error d j) = frame_slot j"
  "frame_done (set_error d j) = frame_done j" "attempts (set_error d j) = attempts j"
  "reread_attempts (set_error d j) = reread_attempts j"
  "next_attempt_ms (set_error d j) = next_attempt_ms j" "uuid (set_error d j) = uuid j"
  "roll_id (set_error d j) = roll_id j"
  by (simp_all add: set_error_def)

lemma positions_cong: "frame_count j = frame_count k \<Longrightarrow> positions j = positions k"
  by (simp add: positions_def)

lemma cameras_cong:
  "frame_count j = frame_count k \<Longrightarrow> frame_slot j = frame_slot k \<Longrightarrow> cameras j = cameras k"
  by (simp add: cameras_def positions_def)

lemma position_less: "i \<in> set (positions j) \<Longrightarrow> i < RQ_MAX_FRAMES"
  by (simp add: positions_def)

lemma slots_loop_iff:
  "slots_loop m seen bs \<longleftrightarrow>
    distinct (map uint bs) \<and> (\<forall>b \<in> set bs. 1 \<le> uint b \<and> uint b \<le> m \<and> uint b \<notin> set seen)"
proof (induction bs arbitrary: seen)
  case Nil
  show ?case by simp
next
  case (Cons b bs)
  have "slots_loop m seen (b # bs) \<longleftrightarrow>
      1 \<le> uint b \<and> uint b \<le> m \<and> uint b \<notin> set seen \<and> slots_loop m (uint b # seen) bs"
    by (simp add: Let_def not_less)
  moreover have "uint b \<in> set (map uint bs) \<longleftrightarrow> (\<exists>c \<in> set bs. uint c = uint b)"
    by (auto simp: image_iff dest: sym)
  ultimately show ?case
    unfolding Cons.IH by (simp del: set_map) blast
qed

lemma nth_fill: "i < RQ_MAX_FRAMES \<Longrightarrow> fill n f z ! i = (if i < n then f i else z)"
  by (simp add: fill_def)

lemma length_fill [simp]: "length (fill n f z) = RQ_MAX_FRAMES"
  by (simp add: fill_def)

lemma cameras_fill:
  assumes "frame_count j = int n" and "frame_slot j = fill n (\<lambda>i. bs ! i) 0"
    and "n \<le> RQ_MAX_FRAMES" and "length bs = n"
  shows "cameras j = map uint bs"
  using assms by (auto simp: cameras_def positions_def nth_fill intro!: nth_equalityI)

lemma slots_valid_list:
  assumes "rq_slots_valid (Some bs) count (int RQ_MAX_FRAMES)" and "length bs = nat count"
  shows "0 \<le> count" "count \<le> int RQ_MAX_FRAMES" "distinct (map uint bs)"
    "\<forall>b \<in> set bs. 1 \<le> uint b \<and> uint b \<le> int RQ_MAX_FRAMES"
  using assms by (auto simp: rq_slots_valid_def Let_def slots_loop_iff split: if_splits)

lemma init_common_ok: "job_ok (init_common u r t)"
  by (simp add: init_common_def job_inv_defs cameras_def positions_def RQ_MAX_ATTEMPTS_def
      RQ_MAX_REREADS_def)

lemma init_slots_ok:
  assumes "length bs = nat count"
  shows "job_ok (snd (rq_job_init_slots u r (Some bs) count t))"
proof (cases "rq_slots_valid (Some bs) count (int RQ_MAX_FRAMES)")
  case True
  note v = slots_valid_list [OF True assms]
  let ?j = "snd (rq_job_init_slots u r (Some bs) count t)"
  have j: "?j = (init_common u r t)\<lparr>frame_slot := fill (nat count) (\<lambda>i. bs ! i) 0, frame_count := count\<rparr>"
    using True by (simp add: rq_job_init_slots_def)
  have "cameras ?j = map uint bs"
    using v(1,2) assms by (intro cameras_fill [where n = "nat count"]) (auto simp: j)
  then show ?thesis
    using v init_common_ok [of u r t] by (auto simp: j job_inv_defs) 
next
  case False
  then show ?thesis
    using init_common_ok by (simp add: rq_job_init_slots_def Let_def)
qed

lemma apply_ok_frame:
  "frame_slot (snd (apply_ok j s)) = frame_slot j" "frame_count (snd (apply_ok j s)) = frame_count j"
  "length (frame_done (snd (apply_ok j s))) = length (frame_done j)"
  "capture_id (snd (apply_ok j s)) = capture_id j" "attempts (snd (apply_ok j s)) = 0"
  "thumb_present (snd (apply_ok j s)) = thumb_present j"
  "reread_attempts (snd (apply_ok j s)) \<le> reread_attempts j"
  by (simp_all add: apply_ok_def Let_def split: rq_step_kind.split option.split)

lemma rq_apply_frame:
  "frame_slot (snd (rq_apply j s d det)) = frame_slot j"
  "frame_count (snd (rq_apply j s d det)) = frame_count j"
  "length (frame_done (snd (rq_apply j s d det))) = length (frame_done j)"
  "capture_id (snd (rq_apply j s d det)) = capture_id j"
  "thumb_present (snd (rq_apply j s d det)) = thumb_present j"
  by (simp_all add: rq_apply_def apply_rerun_def apply_ok_frame Let_def split: rq_disposition.split)

lemma counter_steps:
  "a < RQ_MAX_ATTEMPTS \<Longrightarrow> unat (a + 1) = unat a + 1"
  "r \<le> RQ_MAX_REREADS \<Longrightarrow> unat (r + 1) = unat r + 1"
  by (simp_all add: RQ_MAX_ATTEMPTS_def RQ_MAX_REREADS_def word_less_nat_alt word_le_nat_alt
      unat_word_ariths)

lemma rq_apply_ok:
  assumes "job_ok j"
  shows "job_ok (snd (rq_apply j s d det))"
proof -
  have "cameras (snd (rq_apply j s d det)) = cameras j"
    by (rule cameras_cong) (simp_all add: rq_apply_frame)
  moreover have "job_counts (snd (rq_apply j s d det))"
    using assms apply_ok_frame(5,7) [of j s]
    by (auto simp: rq_apply_def apply_rerun_def job_inv_defs Let_def not_le RQ_MAX_ATTEMPTS_def
        split: rq_disposition.split intro: order_trans)
  ultimately show ?thesis
    using assms by (simp add: job_ok_def job_wf_def job_cams_def rq_apply_frame)
qed

lemma book_result_ok: "job_ok j \<Longrightarrow> job_ok (snd (book_result j s d sid det))"
  unfolding book_result_def
  by (rule rq_apply_ok) (auto simp: job_inv_defs cameras_def positions_def)

section \<open>The pending frames\<close>

lemma position_of_slot_unique:
  assumes "job_cams j" and "i \<in> set (positions j)"
  shows "position_of_slot j (uint (frame_slot j ! i)) = Some i"
proof -
  have inj: "inj_on (\<lambda>k. uint (frame_slot j ! k)) (set (positions j))"
    using assms(1) by (simp add: job_cams_def cameras_def distinct_map)
  have "filter (\<lambda>k. uint (frame_slot j ! k) = uint (frame_slot j ! i)) (positions j) =
      filter (\<lambda>k. k = i) (positions j)"
    using inj assms(2) by (intro filter_cong) (auto dest: inj_onD)
  moreover have "i \<in> set (filter (\<lambda>k. k = i) (positions j))" using assms(2) by simp
  moreover have "\<forall>k \<in> set (filter (\<lambda>k. k = i) (positions j)). k = i" by simp
  ultimately show ?thesis
    unfolding position_of_slot_def
    by (cases "filter (\<lambda>k. k = i) (positions j)") simp_all
qed

lemma first_pending_eq:
  assumes "job_cams j"
  shows "first_pending_frame j = (case pending_positions j of [] \<Rightarrow> 0 | i # _ \<Rightarrow> uint (frame_slot j ! i))"
    "pending_positions j = i # ps \<Longrightarrow> first_pending_frame j > 0 \<and>
      position_of_slot j (first_pending_frame j) = Some i"
    "first_pending_frame j = 0 \<longleftrightarrow> pending_positions j = []"
proof -
  show eq: "first_pending_frame j =
      (case pending_positions j of [] \<Rightarrow> 0 | i # _ \<Rightarrow> uint (frame_slot j ! i))"
    by (simp add: first_pending_frame_def pending_positions_def)
  have pos: "0 < uint (frame_slot j ! i)" if "i \<in> set (pending_positions j)" for i
    using assms that by (force simp: job_cams_def cameras_def pending_positions_def)
  show "pending_positions j = i # ps \<Longrightarrow> first_pending_frame j > 0 \<and>
      position_of_slot j (first_pending_frame j) = Some i"
    using pos [of i] position_of_slot_unique [OF assms, of i]
    by (simp add: eq) (metis filter_is_subset list.set_intros(1) pending_positions_def subsetD)
  show "first_pending_frame j = 0 \<longleftrightarrow> pending_positions j = []"
    using pos by (cases "pending_positions j") (force simp: eq)+
qed

lemma pending_confirm:
  assumes "job_wf j" and "pending_positions j = i # ps"
    and "frame_done k = (frame_done j)[i := True]" and "frame_count k = frame_count j"
  shows "pending_positions k = ps"
proof -
  have d: "distinct (pending_positions j)" by (simp add: pending_positions_def positions_def)
  have i: "i < length (frame_done j)"
  proof -
    have "i \<in> set (pending_positions j)" using assms(2) by simp
    then show ?thesis using assms(1) by (auto simp: pending_positions_def job_wf_def dest: position_less)
  qed
  have "pending_positions k = filter (\<lambda>x. x \<noteq> i) (pending_positions j)"
    using i positions_cong [OF assms(4)] assms(3)
    by (auto simp: pending_positions_def filter_filter nth_list_update intro!: filter_cong)
  also have "\<dots> = ps"
    using d assms(2) by (auto intro: filter_True)
  finally show ?thesis .
qed

section \<open>Running a due job\<close>

text \<open>
  One judged step of a job that is due: the step it asks for, and the outcome booked on it. The
  outcome is a disposition with the capture id the server returned and the error text.
\<close>

type_synonym outcome = "rq_disposition \<times> string \<times> string option"

definition run_due :: "rq_job \<Rightarrow> outcome \<Rightarrow> rq_job" where
  "run_due j oc = (case oc of (d, sid, det) \<Rightarrow>
     snd (book_result j (rq_next_step j (next_attempt_ms j)) d sid det))"

definition judged :: "outcome \<Rightarrow> bool" where
  "judged oc = (case oc of (d, sid, det) \<Rightarrow> d \<noteq> RQ_DISP_YIELD \<and> d \<noteq> RQ_DISP_HALT \<and> sid \<noteq> [])"

definition work :: "rq_job \<Rightarrow> nat" where
  "work j = (if capture_id j = [] then 1 else 0) +
     (if thumb_present j \<and> \<not> thumb_done j then 1 else 0) + length (pending_positions j) + 1"

definition rank :: "rq_job \<Rightarrow> nat" where
  "rank j = (if rq_job_settled j then 0
     else 15 * work j + (12 - unat (attempts j)) + (3 - unat (reread_attempts j)))"

lemma rank_le:
  "rank j \<le> 15 * work j + (12 - unat (attempts j)) + (3 - unat (reread_attempts j))"
  by (simp add: rank_def)

lemma due_step:
  assumes "job_cams j" and "\<not> rq_job_settled j"
  shows "rq_next_step j (next_attempt_ms j) =
    (if capture_id j = [] then \<lparr>kind = RQ_STEP_REGISTER, frame_index = 0\<rparr>
     else if thumb_present j \<and> \<not> thumb_done j then \<lparr>kind = RQ_STEP_UPLOAD_THUMB, frame_index = 0\<rparr>
     else case pending_positions j of
       [] \<Rightarrow> \<lparr>kind = RQ_STEP_COMPLETE_CAPTURE, frame_index = 0\<rparr>
     | i # _ \<Rightarrow> \<lparr>kind = RQ_STEP_UPLOAD_FRAME, frame_index = uint (frame_slot j ! i)\<rparr>)"
  using assms first_pending_eq(2) [OF assms(1)]
  by (auto simp: rq_next_step_def rq_job_settled_def rq_retry_due_def first_pending_eq(1)
      split: list.split)

lemma strcopy_id: "s \<noteq> [] \<Longrightarrow> fst (pure_strcopy RQ_CAPTURE_ID_LEN (Some s)) \<noteq> []"
  by (cases s) (simp_all add: strcopy_take RQ_CAPTURE_ID_LEN_def)

lemma work_cong:
  "capture_id k = capture_id j \<Longrightarrow> thumb_present k = thumb_present j \<Longrightarrow> thumb_done k = thumb_done j \<Longrightarrow>
   frame_done k = frame_done j \<Longrightarrow> frame_count k = frame_count j \<Longrightarrow> work k = work j"
  by (simp add: work_def pending_positions_def positions_def)

text \<open>A successful step does one unit of the remaining work, or completes the job.\<close>

lemma run_ok_work:
  fixes det :: "string option"
  assumes ok: "job_ok j" and uns: "\<not> rq_job_settled j" and sid: "sid \<noteq> []"
  defines "k \<equiv> run_due j (RQ_DISP_OK, sid, det)"
  shows "job_state k = RQ_COMPLETE \<and> work j = 1 \<or> \<not> rq_job_settled k \<and> work k + 1 = work j"
proof -
  have cams: "job_cams j" and wf: "job_wf j" using ok by (simp_all add: job_ok_def)
  have st: "\<not> (job_state j = RQ_COMPLETE \<or> job_state j = RQ_FAILED)"
    using uns by (simp add: rq_job_settled_def)
  note ds = due_step [OF cams uns]
  show ?thesis
  proof (cases "capture_id j = []")
    case True
    then show ?thesis
      using st strcopy_id [OF sid]
      by (simp add: k_def run_due_def ds book_result_def rq_apply_def apply_ok_def Let_def work_def
          pending_positions_def positions_def rq_job_settled_def)
  next
    case reg: False
    show ?thesis
    proof (cases "thumb_present j \<and> \<not> thumb_done j")
      case True
      then show ?thesis
        using st reg
        by (simp add: k_def run_due_def ds book_result_def rq_apply_def apply_ok_def Let_def work_def
            pending_positions_def positions_def rq_job_settled_def)
    next
      case th: False
      show ?thesis
      proof (cases "pending_positions j")
        case Nil
        then show ?thesis
          using st reg th
          by (auto simp: k_def run_due_def ds book_result_def rq_apply_def apply_ok_def Let_def work_def)
      next
        case (Cons i ps)
        have i: "i \<in> set (positions j)"
          using Cons by (metis filter_is_subset list.set_intros(1) pending_positions_def subsetD)
        have pos: "position_of_slot (set_error None (j\<lparr>attempts := 0\<rparr>)) (uint (frame_slot j ! i)) = Some i"
          using position_of_slot_unique [OF cams i] by (simp add: position_of_slot_def positions_def)
        have k: "frame_done k = (frame_done j)[i := True]" "frame_count k = frame_count j"
          "capture_id k = capture_id j" "thumb_present k = thumb_present j"
          "thumb_done k = thumb_done j" "job_state k = RQ_ORIGINALS_UPLOADING"
          using st reg th Cons pos
          by (auto simp: k_def run_due_def ds book_result_def rq_apply_def apply_ok_def Let_def)
        have "pending_positions k = ps"
          by (rule pending_confirm [OF wf Cons k(1,2)])
        then show ?thesis
          using k Cons reg th by (auto simp: work_def rq_job_settled_def)
      qed
    qed
  qed
qed

lemma run_ok_counts:
  "job_ok j \<Longrightarrow> \<not> rq_job_settled j \<Longrightarrow> attempts (run_due j (RQ_DISP_OK, sid, det)) = 0"
  by (auto simp: run_due_def book_result_def rq_apply_def rq_job_settled_def apply_ok_frame)

lemma run_due_ok: "job_ok j \<Longrightarrow> job_ok (run_due j oc)"
  by (auto simp: run_due_def book_result_ok split: prod.split)

lemma run_settled: "rq_job_settled j \<Longrightarrow> rq_job_settled (run_due j oc)"
  by (auto simp: run_due_def book_result_def rq_apply_def rq_job_settled_def split: prod.split)

lemma apply_rerun_fields:
  "capture_id (snd (apply_rerun j det)) = capture_id j"
  "thumb_present (snd (apply_rerun j det)) = thumb_present j"
  "thumb_done (snd (apply_rerun j det)) = thumb_done j"
  "frame_slot (snd (apply_rerun j det)) = frame_slot j"
  "frame_done (snd (apply_rerun j det)) = frame_done j"
  "frame_count (snd (apply_rerun j det)) = frame_count j"
  "attempts (snd (apply_rerun j det)) = attempts j"
  "reread_attempts (snd (apply_rerun j det)) = reread_attempts j + 1"
  "job_state (snd (apply_rerun j det)) =
     (if RQ_MAX_REREADS < reread_attempts j + 1 then RQ_FAILED else RQ_RETRY_WAIT)"
  by (simp_all add: apply_rerun_def Let_def)

lemma book_result_base:
  obtains b where "snd (book_result j s d sid det) = snd (rq_apply b s d det)"
    and "job_state b = job_state j" "attempts b = attempts j" "reread_attempts b = reread_attempts j"
  unfolding book_result_def by (cases "d = RQ_DISP_OK \<and> kind s = RQ_STEP_REGISTER") auto

lemma apply_ok_not_parked:
  "job_state j \<noteq> RQ_FAILED \<Longrightarrow> job_state (snd (apply_ok j s)) \<noteq> RQ_FAILED"
  by (simp add: apply_ok_def Let_def split: rq_step_kind.split)

lemma run_due_rank:
  assumes ok: "job_ok j" and uns: "\<not> rq_job_settled j" and jd: "judged oc"
  shows "rank (run_due j oc) < rank j"
proof -
  obtain d sid det where oc: "oc = (d, sid, det)" by (cases oc) auto
  have st: "\<not> (job_state j = RQ_COMPLETE \<or> job_state j = RQ_FAILED)"
    using uns by (simp add: rq_job_settled_def)
  have at: "attempts j < RQ_MAX_ATTEMPTS" and rr: "reread_attempts j \<le> RQ_MAX_REREADS"
    using ok st by (auto simp: job_inv_defs)
  have atn: "unat (attempts j) < 12" and rrn: "unat (reread_attempts j) \<le> 2"
    using at rr by (simp_all add: word_less_nat_alt word_le_nat_alt RQ_MAX_ATTEMPTS_def RQ_MAX_REREADS_def)
  have rj: "rank j = 15 * work j + (12 - unat (attempts j)) + (3 - unat (reread_attempts j))"
    using uns by (simp add: rank_def)
  consider "d = RQ_DISP_OK" | "d = RQ_DISP_RETRY" | "d = RQ_DISP_REREAD \<or> d = RQ_DISP_REINIT"
    | "d = RQ_DISP_PARK"
    using jd oc by (cases d) (auto simp: judged_def)
  then show ?thesis
  proof cases
    case 1
    have "sid \<noteq> []" using jd oc by (simp add: judged_def)
    from run_ok_work [OF ok uns this, of det] show ?thesis
      using atn rrn rj 1 oc by (auto simp: rank_def rq_job_settled_def)
  next
    case 2
    let ?k = "run_due j oc"
    have "work ?k = work j" and "unat (attempts ?k) = unat (attempts j) + 1"
      and "unat (reread_attempts ?k) = unat (reread_attempts j)"
      using 2 oc st counter_steps(1) [OF at]
      by (auto simp: run_due_def book_result_def rq_apply_def Let_def intro!: work_cong)
    then show ?thesis using atn rrn rj rank_le [of ?k] by linarith
  next
    case 3
    let ?k = "run_due j oc"
    have "work ?k = work j" and "unat (reread_attempts ?k) = unat (reread_attempts j) + 1"
      and "unat (attempts ?k) = unat (attempts j)"
      using 3 oc st counter_steps(2) [OF rr]
      by (auto simp: run_due_def book_result_def rq_apply_def apply_rerun_fields intro!: work_cong)
    then show ?thesis using atn rrn rj rank_le [of ?k] by linarith
  next
    case 4
    then have "job_state (run_due j oc) = RQ_FAILED"
      using oc st by (simp add: run_due_def book_result_def rq_apply_def)
    then show ?thesis using rj by (simp add: rank_def rq_job_settled_def work_def)
  qed
qed

interpretation upload: ranked_machine run_due rq_job_settled job_ok judged rank
proof unfold_locales
  show "job_ok s \<Longrightarrow> rank s = 0 \<Longrightarrow> rq_job_settled s" for s
    by (auto simp: rank_def work_def split: if_splits)
qed (auto intro: run_due_ok run_due_rank run_settled)

lemma rank_bound:
  assumes "job_wf j" shows "rank j \<le> 180"
proof -
  have "length (pending_positions j) \<le> length (positions j)"
    by (simp add: pending_positions_def)
  also have "\<dots> \<le> 8" by (simp add: positions_def RQ_MAX_FRAMES_def)
  finally have "work j \<le> 11" by (simp add: work_def)
  then show ?thesis using rank_le [of j] by linarith
qed

section \<open>Draining against a server that accepts everything\<close>

text \<open>The steps a job still has to ask for, in order.\<close>

definition plan :: "rq_job \<Rightarrow> rq_step list" where
  "plan j =
    (if capture_id j = [] then [\<lparr>kind = RQ_STEP_REGISTER, frame_index = 0\<rparr>] else []) @
    (if thumb_present j \<and> \<not> thumb_done j then [\<lparr>kind = RQ_STEP_UPLOAD_THUMB, frame_index = 0\<rparr>] else []) @
    map (\<lambda>i. \<lparr>kind = RQ_STEP_UPLOAD_FRAME, frame_index = uint (frame_slot j ! i)\<rparr>) (pending_positions j) @
    [\<lparr>kind = RQ_STEP_COMPLETE_CAPTURE, frame_index = 0\<rparr>]"

fun drain :: "nat \<Rightarrow> string \<Rightarrow> rq_job \<Rightarrow> rq_step list \<times> rq_job" where
  "drain 0 sid j = ([], j)"
| "drain (Suc n) sid j =
    (if rq_job_settled j then ([], j)
     else let r = drain n sid (run_due j (RQ_DISP_OK, sid, None))
          in (rq_next_step j (next_attempt_ms j) # fst r, snd r))"

lemma length_plan: "length (plan j) = work j"
  by (simp add: plan_def work_def)

lemma plan_step:
  assumes ok: "job_ok j" and uns: "\<not> rq_job_settled j" and sid: "sid \<noteq> []"
  shows "plan j = rq_next_step j (next_attempt_ms j) #
    (if job_state (run_due j (RQ_DISP_OK, sid, None)) = RQ_COMPLETE then []
     else plan (run_due j (RQ_DISP_OK, sid, None)))"
proof -
  have cams: "job_cams j" and wf: "job_wf j" using ok by (simp_all add: job_ok_def)
  have st: "\<not> (job_state j = RQ_COMPLETE \<or> job_state j = RQ_FAILED)"
    using uns by (simp add: rq_job_settled_def)
  note ds = due_step [OF cams uns]
  note unfolds = run_due_def ds book_result_def rq_apply_def apply_ok_def Let_def plan_def
  consider (reg) "capture_id j = []" | (thumb) "capture_id j \<noteq> []" "thumb_present j \<and> \<not> thumb_done j"
    | (all) "capture_id j \<noteq> []" "\<not> (thumb_present j \<and> \<not> thumb_done j)" "pending_positions j = []"
    | (frame) i ps where "capture_id j \<noteq> []" "\<not> (thumb_present j \<and> \<not> thumb_done j)"
        "pending_positions j = i # ps"
    by (cases "pending_positions j") auto
  then show ?thesis
  proof cases
    case reg
    then show ?thesis
      using st strcopy_id [OF sid] by (simp add: unfolds pending_positions_def positions_def)
  next
    case thumb
    then show ?thesis
      using st by (simp add: unfolds pending_positions_def positions_def)
  next
    case all
    then show ?thesis using st by (simp add: unfolds)
  next
    case (frame i ps)
    let ?k = "run_due j (RQ_DISP_OK, sid, None)"
    have i: "i \<in> set (positions j)"
      using frame(3) by (metis filter_is_subset list.set_intros(1) pending_positions_def subsetD)
    have pos: "position_of_slot (set_error None (j\<lparr>attempts := 0\<rparr>)) (uint (frame_slot j ! i)) = Some i"
      using position_of_slot_unique [OF cams i] by (simp add: position_of_slot_def positions_def)
    have k: "frame_done ?k = (frame_done j)[i := True]" "frame_count ?k = frame_count j"
      "capture_id ?k = capture_id j" "thumb_present ?k = thumb_present j"
      "thumb_done ?k = thumb_done j" "job_state ?k = RQ_ORIGINALS_UPLOADING"
      "frame_slot ?k = frame_slot j"
      using st frame pos
      by (auto simp: run_due_def ds book_result_def rq_apply_def apply_ok_def Let_def)
    have "pending_positions ?k = ps"
      by (rule pending_confirm [OF wf frame(3) k(1,2)])
    then show ?thesis
      using k frame by (auto simp: plan_def ds)
  qed
qed

lemma drain_plan:
  assumes "job_ok j" and "\<not> rq_job_settled j" and "sid \<noteq> []" and "work j \<le> n"
  shows "fst (drain n sid j) = plan j \<and> job_state (snd (drain n sid j)) = RQ_COMPLETE"
  using assms
proof (induction n arbitrary: j)
  case 0
  then show ?case by (simp add: work_def)
next
  case (Suc n)
  let ?k = "run_due j (RQ_DISP_OK, sid, None)"
  note ps = plan_step [OF Suc.prems(1-3)]
  show ?case
  proof (cases "job_state ?k = RQ_COMPLETE")
    case True
    then have "drain n sid ?k = ([], ?k)"
      by (cases n) (simp_all add: rq_job_settled_def)
    with True ps Suc.prems(2) show ?thesis by simp
  next
    case False
    with run_ok_work [OF Suc.prems(1-3), of None]
    have "\<not> rq_job_settled ?k" and "work ?k \<le> n" using Suc.prems(4) by auto
    with Suc.IH [OF run_due_ok [OF Suc.prems(1)]] Suc.prems(2,3) False ps show ?thesis
      by (simp add: Let_def)
  qed
qed

section \<open>Which jobs can exist\<close>

text \<open>
  The life of a job on the camera: it is built from the camera list of a capture, its steps'
  results are booked on it, its deadline is set by the worker's clock, and a reboot, a returning
  network, the server's return or the user's retry put it back in play.
\<close>

inductive job_reach :: "rq_job \<Rightarrow> bool" where
  built: "length bs = nat count \<Longrightarrow> job_reach (snd (rq_job_init_slots u r (Some bs) count t))"
| booked: "job_reach j \<Longrightarrow> job_reach (snd (book_result j (rq_next_step j now) d sid det))"
| scheduled: "job_reach j \<Longrightarrow> job_reach (j\<lparr>next_attempt_ms := t\<rparr>)"
| rebooted: "job_reach j \<Longrightarrow> job_reach (rq_job_boot_resume j)"
| restored: "job_reach j \<Longrightarrow> job_reach (rq_job_network_restored j)"
| revived: "job_reach j \<Longrightarrow> job_reach (rq_job_revive j)"

lemma deadline_ok: "job_ok j \<Longrightarrow> job_ok (j\<lparr>next_attempt_ms := t\<rparr>)"
  by (simp add: job_inv_defs cameras_def positions_def)

lemma revive_ok: "job_ok j \<Longrightarrow> job_ok (rq_job_revive j)"
  by (simp add: rq_job_revive_def job_inv_defs cameras_def positions_def RQ_MAX_ATTEMPTS_def
      RQ_MAX_REREADS_def)

lemma reach_ok: "job_reach j \<Longrightarrow> job_ok j"
  by (induction rule: job_reach.induct)
    (auto simp: init_slots_ok book_result_ok deadline_ok revive_ok rq_job_boot_resume_def
      rq_job_network_restored_def)

section \<open>Properties\<close>



text \<open>
  C2: against a server that accepts every step, an unsettled job asks for exactly the steps its
  completion flags leave open - registration, thumbnail, the unconfirmed cameras in upload order,
  completion - each once and in that order, and is then complete.
\<close>

theorem job_drains_in_order:
  assumes "job_reach j" and "\<not> rq_job_settled j" and "sid \<noteq> []" and "length (plan j) \<le> n"
  shows "fst (drain n sid j) = plan j \<and> job_state (snd (drain n sid j)) = RQ_COMPLETE"
  using drain_plan [OF reach_ok] assms by (simp add: length_plan)

theorem job_drains_in_order_witness:
  "fst (drain 5 ''id'' (snd (rq_job_init_slots (Some ''u'') (Some ''r'') (Some [1, 3]) 2 True))) =
     plan (snd (rq_job_init_slots (Some ''u'') (Some ''r'') (Some [1, 3]) 2 True)) \<and>
   job_state (snd (drain 5 ''id'' (snd (rq_job_init_slots (Some ''u'') (Some ''r'') (Some [1, 3]) 2 True)))) =
     RQ_COMPLETE"
proof -
  let ?j = "snd (rq_job_init_slots (Some ''u'') (Some ''r'') (Some [1, 3]) 2 True)"
  have "rq_slots_valid (Some [1, 3]) 2 (int RQ_MAX_FRAMES)"
    by (simp add: rq_slots_valid_def RQ_MAX_FRAMES_def Let_def)
  then have "\<not> rq_job_settled ?j" and "length (plan ?j) \<le> 5"
    by (simp_all add: rq_job_init_slots_def init_common_def rq_job_settled_def plan_def
        pending_positions_def positions_def RQ_MAX_FRAMES_def numeral_eq_Suc)
  then show ?thesis
    by (intro job_drains_in_order job_reach.built) simp_all
qed

text \<open>
  C19: no result ever loses progress. Booking any outcome keeps every confirmation a reachable job
  has; an outcome other than success changes no confirmation, no id and no frame list; and a
  success confirms at most the frame of the camera the step named.
\<close>

theorem progress_is_never_lost:
  fixes j :: rq_job and now :: int and d :: rq_disposition and sid :: string and det :: "string option"
  assumes "job_reach j"
  defines "s \<equiv> rq_next_step j now"
  defines "k \<equiv> snd (book_result j s d sid det)"
  shows "(thumb_done j \<longrightarrow> thumb_done k) \<and>
    (\<forall>i < RQ_MAX_FRAMES. frame_done j ! i \<longrightarrow> frame_done k ! i) \<and>
    (\<forall>i \<in> set (positions j). frame_done k ! i \<and> \<not> frame_done j ! i \<longrightarrow>
       d = RQ_DISP_OK \<and> kind s = RQ_STEP_UPLOAD_FRAME \<and> uint (frame_slot j ! i) = frame_index s) \<and>
    frame_slot k = frame_slot j \<and> frame_count k = frame_count j \<and>
    (d \<noteq> RQ_DISP_OK \<longrightarrow> thumb_done k = thumb_done j \<and> frame_done k = frame_done j \<and>
       capture_id k = capture_id j)"
proof -
  have wf: "length (frame_done j) = RQ_MAX_FRAMES"
    using reach_ok [OF assms(1)] by (simp add: job_inv_defs)
  let ?b = "if d = RQ_DISP_OK \<and> kind s = RQ_STEP_REGISTER
    then j\<lparr>capture_id := fst (pure_strcopy RQ_CAPTURE_ID_LEN (Some sid))\<rparr> else j"
  have flags: "thumb_done j \<longrightarrow> thumb_done k"
    "frame_done k = frame_done j \<or> d = RQ_DISP_OK \<and> kind s = RQ_STEP_UPLOAD_FRAME \<and>
       (\<exists>p. position_of_slot j (frame_index s) = Some p \<and> frame_done k = (frame_done j)[p := True])"
    "d \<noteq> RQ_DISP_OK \<longrightarrow> thumb_done k = thumb_done j \<and> frame_done k = frame_done j \<and>
       capture_id k = capture_id j"
    by (auto simp: k_def book_result_def rq_apply_def apply_ok_def apply_rerun_def Let_def
        position_of_slot_def positions_def split: rq_disposition.split rq_step_kind.split option.split)
  have pos: "uint (frame_slot j ! p) = slot \<and> p < RQ_MAX_FRAMES" if "position_of_slot j slot = Some p" for p slot
  proof -
    have "\<exists>ps. filter (\<lambda>i. uint (frame_slot j ! i) = slot) (positions j) = p # ps"
      using that by (auto simp: position_of_slot_def split: list.splits)
    then have "p \<in> set (filter (\<lambda>i. uint (frame_slot j ! i) = slot) (positions j))"
      by (metis list.set_intros(1))
    then show ?thesis by (auto dest: position_less)
  qed
  have keep: "frame_slot k = frame_slot j \<and> frame_count k = frame_count j"
    by (simp add: k_def book_result_def rq_apply_frame)
  have bits: "(\<forall>i < RQ_MAX_FRAMES. frame_done j ! i \<longrightarrow> frame_done k ! i) \<and>
      (\<forall>i \<in> set (positions j). frame_done k ! i \<and> \<not> frame_done j ! i \<longrightarrow>
       d = RQ_DISP_OK \<and> kind s = RQ_STEP_UPLOAD_FRAME \<and> uint (frame_slot j ! i) = frame_index s)"
    using flags(2)
  proof (elim disjE conjE exE)
    fix p assume ok: "d = RQ_DISP_OK" "kind s = RQ_STEP_UPLOAD_FRAME"
      and p: "position_of_slot j (frame_index s) = Some p" "frame_done k = (frame_done j)[p := True]"
    show ?thesis
      using ok pos [OF p(1)] p(2) wf by (auto simp: nth_list_update)
  qed simp
  show ?thesis using flags bits keep by blast
qed

theorem progress_is_never_lost_witness:
  "thumb_done (snd (book_result (snd (rq_job_init_slots (Some ''u'') (Some ''r'') (Some [2]) 1 False))
     (rq_next_step (snd (rq_job_init_slots (Some ''u'') (Some ''r'') (Some [2]) 1 False)) 0)
     RQ_DISP_RETRY ''x'' None)) = False"
proof -
  let ?j = "snd (rq_job_init_slots (Some ''u'') (Some ''r'') (Some [2]) 1 False)"
  have "thumb_done (snd (book_result ?j (rq_next_step ?j 0) RQ_DISP_RETRY ''x'' None)) = thumb_done ?j"
    using progress_is_never_lost [of ?j 0 RQ_DISP_RETRY "''x''" None] job_reach.built [of "[2]" 1]
    by simp
  then show ?thesis by (simp add: rq_job_init_slots_def init_common_def Let_def)
qed

text \<open>
  The predicate that tells a park for network reasons from a verdict is exact: when booking an
  outcome parks a reachable job that was not parked, the park reads as transient precisely when
  the outcome was a transient failure.
\<close>

theorem transient_park_exact:
  assumes "job_reach j" and "job_state j \<noteq> RQ_FAILED"
    and "job_state (snd (book_result j s d sid det)) = RQ_FAILED"
  shows "rq_park_is_transient (snd (book_result j s d sid det)) \<longleftrightarrow> d = RQ_DISP_RETRY"
proof -
  have c: "attempts j < RQ_MAX_ATTEMPTS" "reread_attempts j \<le> RQ_MAX_REREADS"
    using reach_ok [OF assms(1)] assms(2) by (auto simp: job_inv_defs)
  obtain b where pk: "snd (book_result j s d sid det) = snd (rq_apply b s d det)"
    and b: "job_state b = job_state j" "attempts b = attempts j" "reread_attempts b = reread_attempts j"
    by (rule book_result_base)
  have parked: "job_state (snd (rq_apply b s d det)) = RQ_FAILED"
    using assms(3) by (simp add: pk)
  then have st: "job_state j \<noteq> RQ_COMPLETE"
    using b(1) by (auto simp: rq_apply_def)
  note up = rq_apply_def b apply_rerun_fields rq_park_is_transient_def Let_def not_le st assms(2)
  have "rq_park_is_transient (snd (rq_apply b s d det)) \<longleftrightarrow> d = RQ_DISP_RETRY"
  proof (cases d)
    case RQ_DISP_OK
    then show ?thesis
      using apply_ok_not_parked [of b s] parked by (simp add: up)
  next
    case RQ_DISP_HALT
    then show ?thesis
      using parked by (simp add: up state_for_step_def split: rq_step_kind.splits)
  qed (use parked c in \<open>simp_all add: up split: if_splits\<close>)
  then show ?thesis by (simp only: pk)
qed

theorem transient_park_exact_witness:
  "let j = snd (rq_job_init_slots (Some ''u'') (Some ''r'') (Some [2]) 1 False)
   in rq_park_is_transient (snd (book_result j (rq_next_step j 0) RQ_DISP_PARK ''x'' None)) \<longleftrightarrow>
      RQ_DISP_PARK = RQ_DISP_RETRY"
  unfolding Let_def
  by (rule transient_park_exact, rule job_reach.built)
    (simp_all add: rq_job_init_slots_def init_common_def book_result_def rq_apply_def Let_def)

text \<open>
  A reboot is the same as carrying on: after the boot resume, at any time of the new clock, an
  unsettled job asks for the step its flags left open, which is the step it would have asked for
  when due; and the history of failures is kept.
\<close>

theorem reboot_resumes_where_it_left:
  assumes "job_reach j" and "0 \<le> now'" and "kind (rq_next_step j now) \<noteq> RQ_STEP_WAIT_BACKOFF"
  shows "rq_next_step (rq_job_boot_resume j) now' = rq_next_step j now \<and>
    attempts (rq_job_boot_resume j) = attempts j \<and> job_reach (rq_job_boot_resume j)"
proof -
  have "first_pending_frame (rq_job_boot_resume j) = first_pending_frame j"
    by (simp add: first_pending_frame_def positions_def rq_job_boot_resume_def split: list.split)
  moreover have "next_attempt_ms j \<le> now" if "job_state j = RQ_RETRY_WAIT"
    by (rule ccontr) (use assms(3) that in \<open>simp add: rq_next_step_def rq_retry_due_def\<close>)
  ultimately have "rq_next_step (rq_job_boot_resume j) now' = rq_next_step j now"
    using assms(2) by (auto simp: rq_next_step_def rq_job_boot_resume_def rq_retry_due_def Let_def)
  with assms(1) show ?thesis
    by (simp add: job_reach.rebooted) (simp add: rq_job_boot_resume_def)
qed

theorem reboot_resumes_where_it_left_witness:
  "let j = snd (rq_job_init_slots (Some ''u'') (Some ''r'') (Some [2]) 1 False)
   in rq_next_step (rq_job_boot_resume j) 7 = rq_next_step j 0 \<and>
      attempts (rq_job_boot_resume j) = attempts j \<and> job_reach (rq_job_boot_resume j)"
  unfolding Let_def
  by (rule reboot_resumes_where_it_left, rule job_reach.built)
    (simp_all add: rq_job_init_slots_def init_common_def rq_next_step_def Let_def)

text \<open>
  C20: completion is asked for only when nothing is left: a reachable job's completion step means
  that the capture is registered, its thumbnail is confirmed if there is one, and every camera of
  its list is confirmed.
\<close>

theorem complete_only_when_all_done:
  assumes "job_reach j" and "kind (rq_next_step j now) = RQ_STEP_COMPLETE_CAPTURE"
  shows "capture_id j \<noteq> [] \<and> (thumb_present j \<longrightarrow> thumb_done j) \<and>
    (\<forall>i \<in> set (positions j). frame_done j ! i)"
proof -
  have "job_cams j" using reach_ok [OF assms(1)] by (simp add: job_ok_def)
  then have "pending_positions j = []" if "\<not> first_pending_frame j > 0"
    using first_pending_eq(2) [of j] that by (cases "pending_positions j") auto
  then show ?thesis
    using assms(2)
    by (auto simp: rq_next_step_def Let_def pending_positions_def filter_empty_conv split: if_splits)
qed

theorem complete_only_when_all_done_witness:
  "capture_id (snd (book_result (snd (rq_job_init_slots (Some ''u'') (Some ''r'') (Some []) 0 False))
      (rq_next_step (snd (rq_job_init_slots (Some ''u'') (Some ''r'') (Some []) 0 False)) 0)
      RQ_DISP_OK ''cap'' None)) \<noteq> []"
proof -
  let ?j = "snd (rq_job_init_slots (Some ''u'') (Some ''r'') (Some []) 0 False)"
  let ?k = "snd (book_result ?j (rq_next_step ?j 0) RQ_DISP_OK ''cap'' None)"
  have "job_reach ?k" by (intro job_reach.booked job_reach.built) simp
  moreover have "kind (rq_next_step ?k 0) = RQ_STEP_COMPLETE_CAPTURE"
    by (simp add: rq_job_init_slots_def init_common_def book_result_def apply_ok_def
      rq_apply_def rq_next_step_def set_error_def Let_def positions_def first_pending_frame_def
      RQ_MAX_FRAMES_def RQ_CAPTURE_ID_LEN_def pure_strcopy_def rq_slots_valid_def)
  ultimately show ?thesis using complete_only_when_all_done by blast
qed

text \<open>
  Without a camera list that guarantee is lost: a record that predates the list and has
  unconfirmed frames asks for completion, not for nothing.
\<close>

theorem slotless_job_asks_completion:
  assumes "\<not> rq_job_settled j" and "job_state j \<noteq> RQ_RETRY_WAIT" and "capture_id j \<noteq> []"
    and "\<not> thumb_present j" and "0 < frame_count j" and "\<not> frame_done j ! 0" and "frame_slot j ! 0 = 0"
  shows "kind (rq_next_step j now) = RQ_STEP_COMPLETE_CAPTURE"
proof -
  have "positions j = 0 # [1..<min (nat (frame_count j)) RQ_MAX_FRAMES]"
    using assms(5) by (simp add: positions_def upt_conv_Cons RQ_MAX_FRAMES_def)
  then have "first_pending_frame j = 0"
    using assms(6,7) by (simp add: first_pending_frame_def)
  then show ?thesis
    using assms(1-4) by (simp add: rq_next_step_def rq_job_settled_def)
qed

theorem slotless_job_asks_completion_witness:
  "kind (rq_next_step ((init_common (Some ''u'') (Some ''r'') False)
     \<lparr>capture_id := ''c'', frame_count := 3\<rparr>) 0) = RQ_STEP_COMPLETE_CAPTURE"
  by (rule slotless_job_asks_completion)
    (simp_all add: init_common_def rq_job_settled_def RQ_MAX_FRAMES_def)

text \<open>
  Adopting a camera list keeps what the old queue confirmed, by camera: afterwards the job is
  well formed, its cameras are the list, and the frame of a camera counts as confirmed exactly if
  the old record, which took position n for camera n + 1, had confirmed that camera.
\<close>

theorem adopt_keeps_confirmations:
  assumes "job_wf j" and "job_counts j" and "length bs = nat count"
    and "rq_job_adopt_slots j (Some bs) count = (True, k)"
  shows "job_ok k \<and> cameras k = map uint bs \<and>
    (\<forall>i < length bs. frame_done k ! i \<longleftrightarrow>
       int (unat (bs ! i) - 1) < frame_count j \<and> frame_done j ! (unat (bs ! i) - 1))"
proof -
  have v: "rq_slots_valid (Some bs) count (int RQ_MAX_FRAMES)"
    and k: "k = snd (rq_job_adopt_slots j (Some bs) count)"
    using assms(4) by (auto simp: rq_job_adopt_slots_def split: if_splits)
  note vl = slots_valid_list [OF v assms(3)]
  have fields: "frame_slot k = fill (nat count) (\<lambda>i. bs ! i) 0" "frame_count k = count"
    "job_state k = job_state j" "attempts k = attempts j" "reread_attempts k = reread_attempts j"
    "frame_done k = fill (nat count) (\<lambda>i. uint (bs ! i) - 1 < frame_count j \<and>
       frame_done j ! (unat (bs ! i) - 1)) False"
    using assms(1,4) by (auto simp: rq_job_adopt_slots_def Let_def job_wf_def split: if_splits)
  have cams: "cameras k = map uint bs"
    using vl(1,2) assms(3) by (intro cameras_fill [where n = "nat count"]) (auto simp: fields)
  have "job_ok k"
    using cams vl assms(1,2) by (auto simp: job_inv_defs fields)
  moreover have "frame_done k ! i \<longleftrightarrow>
      int (unat (bs ! i) - 1) < frame_count j \<and> frame_done j ! (unat (bs ! i) - 1)"
    if "i < length bs" for i
  proof -
    have "1 \<le> uint (bs ! i)" using vl(4) that by simp
    then have "int (unat (bs ! i) - 1) = uint (bs ! i) - 1"
      unfolding uint_nat by linarith
    then show ?thesis
      using that assms(3) vl(2) by (simp add: fields nth_fill)
  qed
  ultimately show ?thesis using cams by blast
qed

theorem adopt_keeps_confirmations_witness:
  "let j = (init_common (Some ''u'') (Some ''r'') False)\<lparr>frame_count := 2\<rparr>
   in job_ok (snd (rq_job_adopt_slots j (Some [3, 1]) 2)) \<and>
     cameras (snd (rq_job_adopt_slots j (Some [3, 1]) 2)) = [3, 1]"
proof -
  let ?j = "(init_common (Some ''u'') (Some ''r'') False)\<lparr>frame_count := 2\<rparr>"
  have "rq_job_adopt_slots ?j (Some [3, 1]) 2 = (True, snd (rq_job_adopt_slots ?j (Some [3, 1]) 2))"
    by (simp add: rq_job_adopt_slots_def init_common_def rq_job_has_slots_def positions_def
        RQ_MAX_FRAMES_def rq_slots_valid_def Let_def upt_conv_Cons)
  moreover have "job_wf ?j" "job_counts ?j" "length [3, 1 :: u8] = nat 2"
    by (simp_all add: init_common_def job_inv_defs RQ_MAX_ATTEMPTS_def RQ_MAX_FRAMES_def)
  ultimately show ?thesis
    using adopt_keeps_confirmations [of ?j "[3, 1]" 2] unfolding Let_def by simp
qed

end
