(* ===== verification/Roll_Text.thy ===== *)
theory Roll_Text
  imports Kino_Prelude "HOL-Library.Sublist"
begin

text \<open>
  Making text from the network safe to keep and to show (\<^verbatim>\<open>firmware/p4/main/roll_queue.c\<close>): \<open>rq_redact\<close>
  takes secrets out of an error message, \<open>rq_sanitise_detail\<close> makes its bytes acceptable in a JSON
  string. The properties: a device token cannot survive the first, whatever its case, its place and
  the size of the destination; and the second returns printable, well-formed UTF-8, stated against
  an encoder of code points that is independent of the scanner.

  A source string is the bytes before its terminator, so that reading at or past its length yields
  the terminator, 0. A destination of \<open>dst_size\<close> bytes holds \<open>dst_size - 1\<close> bytes of text.
\<close>

section \<open>The code: redaction\<close>

definition token_char :: "char \<Rightarrow> bool" where
  "token_char c \<longleftrightarrow> (c \<ge> CHR ''a'' \<and> c \<le> CHR ''z'') \<or> (c \<ge> CHR ''A'' \<and> c \<le> CHR ''Z'') \<or>
     (c \<ge> CHR ''0'' \<and> c \<le> CHR ''9'') \<or>
     c \<in> {CHR ''-'', CHR ''_'', CHR ''.'', CHR ''='', CHR ''+'', CHR ''/'', CHR ''%''}"

definition to_lower :: "char \<Rightarrow> char" where
  "to_lower c = (if c \<ge> CHR ''A'' \<and> c \<le> CHR ''Z''
     then char_of (of_char c - of_char (CHR ''A'') + of_char (CHR ''a'') :: nat) else c)"

fun starts_with_ci :: "string \<Rightarrow> string \<Rightarrow> bool" where
  "starts_with_ci s [] = True"
| "starts_with_ci [] (b # bs) = False"
| "starts_with_ci (a # as) (b # bs) = (if to_lower a \<noteq> to_lower b then False else starts_with_ci as bs)"

definition secrets :: "string list" where
  "secrets = [''kdt_'', ''bearer '', ''authorization: '', ''password='', ''token='', ''passphrase='']"

definition redacted :: string where "redacted = ''[redacted]''"

definition keep_marker :: "string \<Rightarrow> bool" where
  "keep_marker s \<longleftrightarrow> last s = CHR ''='' \<or> last s = CHR '' '' \<or> last s = CHR '':''"

text \<open>Appending byte by byte while there is room for a terminator.\<close>

definition put_bounded :: "nat \<Rightarrow> 'a list \<Rightarrow> 'a list \<Rightarrow> 'a list" where
  "put_bounded dst_size out bs = out @ take (dst_size - 1 - length out) bs"

lemma secrets_nonempty: "find (starts_with_ci src) secrets = Some s \<Longrightarrow> s \<noteq> []"
  by (auto simp: secrets_def split: if_splits)

function redact_loop :: "nat \<Rightarrow> string \<Rightarrow> string \<Rightarrow> string" where
  "redact_loop dst_size out [] = out"
| "redact_loop dst_size out (c # cs) =
    (if \<not> length out + 1 < dst_size then out
     else case find (starts_with_ci (c # cs)) secrets of
       Some s \<Rightarrow>
         (let plen = length s;
              marked = (if keep_marker s then put_bounded dst_size out (take plen (c # cs)) else out)
          in redact_loop dst_size (put_bounded dst_size marked redacted)
               (dropWhile token_char (drop plen (c # cs))))
     | None \<Rightarrow> redact_loop dst_size (out @ [c]) cs)"
  by pat_completeness auto
termination
proof (relation "measure (\<lambda>(n, out, src). length src)"; simp)
  fix c :: char and cs s x
  assume "find (starts_with_ci (c # cs)) secrets = Some s"
  then obtain n where "length s = Suc n" using secrets_nonempty by (cases s) auto
  then show "length (dropWhile token_char (drop (length s) (c # cs))) < Suc (length cs)"
    using length_dropWhile_le [of token_char "drop n cs"] by simp
qed

definition rq_redact :: "nat \<Rightarrow> string option \<Rightarrow> string option" where
  "rq_redact dst_size src =
    (if dst_size = 0 then None else Some (case src of None \<Rightarrow> [] | Some s \<Rightarrow> redact_loop dst_size [] s))"

section \<open>The code: sanitising\<close>

definition utf8_seq_len :: "u8 \<Rightarrow> nat" where
  "utf8_seq_len c =
    (if c \<ge> 0xc2 \<and> c \<le> 0xdf then 2
     else if c \<ge> 0xe0 \<and> c \<le> 0xef then 3
     else if c \<ge> 0xf0 \<and> c \<le> 0xf4 then 4 else 0)"

definition utf8_second_ok :: "u8 \<Rightarrow> u8 \<Rightarrow> bool" where
  "utf8_second_ok lead second =
    (if second < 0x80 \<or> second > 0xbf then False
     else if lead = 0xe0 then second \<ge> 0xa0
     else if lead = 0xed then second \<le> 0x9f
     else if lead = 0xf0 then second \<ge> 0x90
     else if lead = 0xf4 then second \<le> 0x8f
     else True)"

definition byte_at :: "bytes \<Rightarrow> nat \<Rightarrow> u8" where
  "byte_at src i = (if i < length src then src ! i else 0)"

function count_have :: "bytes \<Rightarrow> nat \<Rightarrow> nat \<Rightarrow> nat" where
  "count_have src len have =
    (if have < len
     then (let cc = byte_at src have in if cc < 0x80 \<or> cc > 0xbf then have else count_have src len (have + 1))
     else have)"
  by pat_completeness auto
termination by (relation "measure (\<lambda>(src, len, have). len - have)") auto

function sanitise_loop :: "nat \<Rightarrow> bytes \<Rightarrow> bytes \<Rightarrow> bytes" where
  "sanitise_loop dst_size out [] = out"
| "sanitise_loop dst_size out (c # cs) =
    (if \<not> length out + 1 < dst_size then out
     else if c < 0x20 \<or> c = 0x7f then sanitise_loop dst_size (out @ [0x3f]) cs
     else if c < 0x80 then sanitise_loop dst_size (out @ [c]) cs
     else let len = utf8_seq_len c;
              have = (if len > 0 \<and> utf8_second_ok c (byte_at (c # cs) 1)
                      then count_have (c # cs) len 2 else 1)
     in if len = 0 \<or> have \<noteq> len then sanitise_loop dst_size (out @ [0x3f]) cs
        else if length out + len + 1 > dst_size then out
        else sanitise_loop dst_size (out @ take len (c # cs)) (drop len (c # cs)))"
  by pat_completeness auto
termination
  by (relation "measure (\<lambda>(n, out, src). length src)") (auto simp: Let_def)

definition rq_sanitise_detail :: "nat \<Rightarrow> bytes option \<Rightarrow> bytes option" where
  "rq_sanitise_detail dst_size src =
    (if dst_size = 0 then None else Some (case src of None \<Rightarrow> [] | Some s \<Rightarrow> sanitise_loop dst_size [] s))"

section \<open>Redaction, without the bound\<close>

text \<open>The text the loop writes when the destination is large enough.\<close>

function redact_all :: "string \<Rightarrow> string" where
  "redact_all [] = []"
| "redact_all (c # cs) =
    (case find (starts_with_ci (c # cs)) secrets of
       Some s \<Rightarrow> (if keep_marker s then take (length s) (c # cs) else []) @ redacted @
         redact_all (dropWhile token_char (drop (length s) (c # cs)))
     | None \<Rightarrow> c # redact_all cs)"
  by pat_completeness auto
termination
proof (relation "measure length"; simp)
  fix c :: char and cs s
  assume "find (starts_with_ci (c # cs)) secrets = Some s"
  then obtain n where "length s = Suc n" using secrets_nonempty by (cases s) auto
  then show "length (dropWhile token_char (drop (length s) (c # cs))) < Suc (length cs)"
    using length_dropWhile_le [of token_char "drop n cs"] by simp
qed

lemma put_bounded_take: "length out \<le> n - 1 \<Longrightarrow> put_bounded n out bs = take (n - 1) (out @ bs)"
  by (simp add: put_bounded_def)

lemma put_bounded_length: "length out \<le> n - 1 \<Longrightarrow> length (put_bounded n out bs) \<le> n - 1"
  by (simp add: put_bounded_take)

lemma take_take_append: "take k (take k xs @ ys) = take k (xs @ ys)"
  by (cases "k \<le> length xs") simp_all

lemma redact_loop_take:
  "0 < n \<Longrightarrow> length out \<le> n - 1 \<Longrightarrow> redact_loop n out src = take (n - 1) (out @ redact_all src)"
proof (induction n out src rule: redact_loop.induct)
  case (1 n out)
  then show ?case by simp
next
  case (2 n out c cs)
  show ?case
  proof (cases "find (starts_with_ci (c # cs)) secrets")
    case None
    with 2 show ?thesis by (cases "length out + 1 < n") auto
  next
    case (Some s)
    let ?m = "if keep_marker s then put_bounded n out (take (length s) (c # cs)) else out"
    have m: "length ?m \<le> n - 1"
      "?m = take (n - 1) (out @ (if keep_marker s then take (length s) (c # cs) else []))"
      using 2(4) put_bounded_length [OF 2(4), of "take (length s) (c # cs)"]
      by (metis, simp add: put_bounded_take)
    note pb = put_bounded_take [OF m(1), of redacted] put_bounded_length [OF m(1), of redacted]
    let ?rest = "dropWhile token_char (drop (length s) (c # cs))"
    show ?thesis
    proof (cases "length out + 1 < n")
      case False
      with 2(3,4) have "length out = n - 1" by simp
      with False show ?thesis by simp
    next
      case True
      then have "redact_loop n out (c # cs) = redact_loop n (put_bounded n ?m redacted) ?rest"
        using Some by (simp add: Let_def)
      also have "\<dots> = take (n - 1) (put_bounded n ?m redacted @ redact_all ?rest)"
        using 2(2) [OF _ Some refl refl 2(3) pb(2)] True by simp
      also have "\<dots> = take (n - 1) (?m @ (redacted @ redact_all ?rest))"
        unfolding pb(1) take_take_append by simp
      also have "\<dots> = take (n - 1) (out @ redact_all (c # cs))"
        using Some by (subst m(2)) (simp only: take_take_append, simp)
      finally show ?thesis .
    qed
  qed
qed

lemma redact_eq: "0 < n \<Longrightarrow> rq_redact n (Some src) = Some (take (n - 1) (redact_all src))"
  using redact_loop_take [of n "[]" src] by (simp add: rq_redact_def)

section \<open>No token survives\<close>

lemma starts_with_ci_iff: "starts_with_ci s p \<longleftrightarrow> prefix (map to_lower p) (map to_lower s)"
  by (induction s p rule: starts_with_ci.induct) auto

lemma secrets_lower: "s \<in> set secrets \<Longrightarrow> map to_lower s = s"
  by (auto simp: secrets_def to_lower_def)

lemma find_secret:
  assumes "find (starts_with_ci src) secrets = Some s"
  shows "s \<in> set secrets" and "map to_lower (take (length s) src) = s"
proof -
  show s: "s \<in> set secrets" using assms by (auto simp: find_Some_iff)
  have "prefix s (map to_lower src)"
    using assms secrets_lower [OF s] by (auto simp: find_Some_iff starts_with_ci_iff)
  then show "map to_lower (take (length s) src) = s"
    by (auto simp: prefix_def take_map [symmetric])
qed

lemma tail_kept:
  assumes "w \<in> {''dt_'', ''t_'', ''_''}" and "prefix w (map to_lower (redact_all src))"
  shows "prefix w (map to_lower src)"
  using assms
proof (induction src arbitrary: w rule: redact_all.induct)
  case 1
  then show ?case by simp
next
  case (2 c cs)
  show ?case
  proof (cases "find (starts_with_ci (c # cs)) secrets")
    case None
    with 2(2-) 2(1) [OF None] show ?thesis by (auto simp: prefix_Cons)
  next
    case (Some s)
    note fs = find_secret [OF Some]
    have "prefix w ((if keep_marker s then s else []) @ map to_lower redacted @
        map to_lower (redact_all (dropWhile token_char (drop (length s) (c # cs)))))"
      using 2(4) Some fs(2) by (auto split: if_splits)
    then show ?thesis
      using 2(3) fs(1) by (auto simp: secrets_def keep_marker_def redacted_def to_lower_def)
  qed
qed

lemma prefix_separator: "c \<notin> set w \<Longrightarrow> prefix w (xs @ c # ys) \<longleftrightarrow> prefix w xs"
proof (induction xs arbitrary: w)
  case Nil
  then show ?case by (cases w) auto
next
  case (Cons x xs)
  then show ?case by (cases w) auto
qed

lemma sublist_separator:
  "c \<notin> set w \<Longrightarrow> w \<noteq> [] \<Longrightarrow> sublist w (xs @ c # ys) \<longleftrightarrow> sublist w xs \<or> sublist w ys"
proof (induction xs)
  case Nil
  then show ?case by (cases w) (auto simp: sublist_Cons_right)
next
  case (Cons x xs)
  then show ?case using prefix_separator [of c w "x # xs" ys] by (simp add: sublist_Cons_right)
qed

lemma no_token_in_marker: "s \<in> set secrets \<Longrightarrow> keep_marker s \<Longrightarrow> \<not> sublist ''kdt_'' s"
  by (auto simp: secrets_def keep_marker_def sublist_Cons_right)

lemma redact_all_no_token: "\<not> sublist ''kdt_'' (map to_lower (redact_all src))"
proof (induction src rule: redact_all.induct)
  case 1
  then show ?case by simp
next
  case (2 c cs)
  show ?case
  proof (cases "find (starts_with_ci (c # cs)) secrets")
    case None
    have "\<not> prefix ''kdt_'' (map to_lower (redact_all (c # cs)))"
    proof
      assume "prefix ''kdt_'' (map to_lower (redact_all (c # cs)))"
      then have "to_lower c = CHR ''k''" and "prefix ''dt_'' (map to_lower (redact_all cs))"
        using None by auto
      with tail_kept [of "''dt_''" cs] have "starts_with_ci (c # cs) ''kdt_''"
        by (simp add: starts_with_ci_iff to_lower_def)
      moreover have "''kdt_'' \<in> set secrets" by (simp add: secrets_def)
      ultimately show False using None unfolding find_None_iff by blast
    qed
    with 2(1) [OF None] None show ?thesis by (simp add: sublist_Cons_right)
  next
    case (Some s)
    note fs = find_secret [OF Some]
    let ?r = "map to_lower (redact_all (dropWhile token_char (drop (length s) (c # cs))))"
    let ?m = "if keep_marker s then s else []"
    have "map to_lower redacted = CHR ''['' # ''redacted'' @ '']''"
      by (simp add: redacted_def to_lower_def)
    then have "map to_lower (redact_all (c # cs)) = ?m @ CHR ''['' # ''redacted'' @ CHR '']'' # ?r"
      using Some fs(2) by (auto split: if_splits)
    moreover have "\<not> sublist ''kdt_'' ?m" using no_token_in_marker [OF fs(1)] by simp
    moreover have "\<not> sublist ''kdt_'' (''redacted'')" by (simp add: sublist_Cons_right)
    moreover note 2(2) [OF Some]
    moreover have "sublist ''kdt_'' (?m @ CHR ''['' # ''redacted'' @ CHR '']'' # ?r) \<longleftrightarrow>
        sublist ''kdt_'' ?m \<or> sublist ''kdt_'' (''redacted'') \<or> sublist ''kdt_'' ?r"
      using sublist_separator [of "CHR ''[''" "''kdt_''" ?m "''redacted'' @ CHR '']'' # ?r"]
        sublist_separator [of "CHR '']''" "''kdt_''" "''redacted''" ?r] by simp
    ultimately show ?thesis by metis
  qed
qed

section \<open>Well-formed text\<close>

text \<open>The encoding of code points, by the arithmetic of the standard.\<close>

definition utf8_enc :: "nat \<Rightarrow> bytes" where
  "utf8_enc cp =
    (if cp < 0x80 then [of_nat cp]
     else if cp < 0x800 then [of_nat (0xc0 + cp div 64), of_nat (0x80 + cp mod 64)]
     else if cp < 0x10000
     then [of_nat (0xe0 + cp div 4096), of_nat (0x80 + cp div 64 mod 64), of_nat (0x80 + cp mod 64)]
     else [of_nat (0xf0 + cp div 262144), of_nat (0x80 + cp div 4096 mod 64),
           of_nat (0x80 + cp div 64 mod 64), of_nat (0x80 + cp mod 64)])"

text \<open>Scalar values that are neither control characters of ASCII nor surrogates.\<close>

definition printable :: "nat \<Rightarrow> bool" where
  "printable cp \<longleftrightarrow> 0x20 \<le> cp \<and> cp \<noteq> 0x7f \<and> (cp < 0xd800 \<or> 0xe000 \<le> cp \<and> cp < 0x110000)"

definition safe_text :: "bytes \<Rightarrow> bool" where
  "safe_text bs \<longleftrightarrow> (\<exists>cps. (\<forall>cp \<in> set cps. printable cp) \<and> bs = concat (map utf8_enc cps))"

lemma safe_text_Nil [simp]: "safe_text []"
  unfolding safe_text_def by (rule exI [of _ "[]"]) simp

lemma safe_text_snoc:
  assumes "safe_text bs" and "printable cp" shows "safe_text (bs @ utf8_enc cp)"
proof -
  obtain cps where "\<forall>cp \<in> set cps. printable cp" "bs = concat (map utf8_enc cps)"
    using assms(1) by (auto simp: safe_text_def)
  with assms(2) show ?thesis unfolding safe_text_def by (intro exI [of _ "cps @ [cp]"]) auto
qed

abbreviation cont :: "u8 \<Rightarrow> bool" where
  "cont b \<equiv> 0x80 \<le> b \<and> b \<le> 0xbf"

lemmas byte_nat = word_le_nat_alt word_less_nat_alt word_unat_eq_iff

lemma byte_at_cont: "cont (byte_at src i) \<Longrightarrow> i < length src"
  by (auto simp: byte_at_def split: if_splits)

lemma count_have_2: "count_have src 2 2 = 2" by simp

lemma count_have_3: "count_have src 3 2 = 3 \<longleftrightarrow> cont (byte_at src 2)"
  by (auto simp: Let_def not_less)

lemma count_have_4: "count_have src 4 2 = 4 \<longleftrightarrow> cont (byte_at src 2) \<and> cont (byte_at src 3)"
  by (auto simp: Let_def not_less)

declare count_have.simps [simp del]

lemma of_nat_byte: "n = unat (b :: u8) \<Longrightarrow> of_nat n = b" by simp

lemma base64_digit:
  assumes "r < (64 :: nat)" shows "(q * 64 + r) div 64 = q" and "(q * 64 + r) mod 64 = r"
  using assms by simp_all

lemma div_4096: "n div 4096 = n div 64 div (64 :: nat)"
  by (simp add: div_mult2_eq [symmetric])

lemma div_262144: "n div 262144 = n div 64 div 64 div (64 :: nat)"
  by (simp add: div_mult2_eq [symmetric])

lemma offset: "k \<le> unat (b :: u8) \<Longrightarrow> \<exists>x. unat b = k + x"
  by (rule le_Suc_ex)

lemma enc_two:
  assumes "utf8_seq_len c = 2" and "cont b"
  shows "\<exists>cp. printable cp \<and> [c, b] = utf8_enc cp"
proof -
  have r: "0xc2 \<le> unat c" "unat c \<le> 0xdf" "0x80 \<le> unat b" "unat b \<le> 0xbf"
    using assms by (auto simp: utf8_seq_len_def byte_nat split: if_splits)
  obtain x y where x: "unat c = 0xc0 + x" "unat b = 0x80 + y"
    using offset [of "0xc0" c] offset [of "0x80" b] r by auto
  let ?cp = "x * 64 + y"
  have b: "2 \<le> x" "x < 32" "y < 64" using r x by auto
  then have "?cp div 64 = x" "?cp mod 64 = y" by simp_all
  then have "utf8_enc ?cp = [of_nat (0xc0 + x), of_nat (0x80 + y)]"
    using b by (simp add: utf8_enc_def)
  also have "\<dots> = [c, b]" unfolding x [symmetric] by simp
  finally show ?thesis using b by (intro exI [of _ ?cp]) (simp add: printable_def)
qed

lemma enc_three:
  assumes "utf8_seq_len c = 3" and "utf8_second_ok c b" and "cont d"
  shows "\<exists>cp. printable cp \<and> [c, b, d] = utf8_enc cp"
proof -
  have r: "0xe0 \<le> unat c" "unat c \<le> 0xef" "0x80 \<le> unat b" "unat b \<le> 0xbf"
      "0x80 \<le> unat d" "unat d \<le> 0xbf"
      "unat c = 0xe0 \<longrightarrow> 0xa0 \<le> unat b" "unat c = 0xed \<longrightarrow> unat b \<le> 0x9f"
    using assms by (auto simp: utf8_seq_len_def utf8_second_ok_def byte_nat split: if_splits)
  obtain x y z where x: "unat c = 0xe0 + x" "unat b = 0x80 + y" "unat d = 0x80 + z"
    using offset [of "0xe0" c] offset [of "0x80" b] offset [of "0x80" d] r by auto
  let ?cp = "(x * 64 + y) * 64 + z"
  have b: "x < 16" "y < 64" "z < 64" "x = 0 \<longrightarrow> 32 \<le> y" "x = 13 \<longrightarrow> y < 32" using r x by auto
  then have "?cp div 4096 = x" "?cp div 64 = x * 64 + y" "?cp mod 64 = z" "(x * 64 + y) mod 64 = y"
    by (simp_all only: div_4096 base64_digit)
  moreover have p: "?cp < 0x10000" using b by simp
  moreover have p2: "0x800 \<le> ?cp" using b by (cases "x = 0") simp_all
  moreover have p3: "?cp < 0xd800 \<or> 0xe000 \<le> ?cp"
    using b by (cases "x < 13"; cases "x = 13") simp_all
  ultimately have "utf8_enc ?cp = [of_nat (0xe0 + x), of_nat (0x80 + y), of_nat (0x80 + z)]"
    by (simp add: utf8_enc_def)
  also have "\<dots> = [c, b, d]" unfolding x [symmetric] by simp
  finally show ?thesis using p p2 p3 by (intro exI [of _ ?cp]) (simp add: printable_def)
qed

lemma enc_four:
  assumes "utf8_seq_len c = 4" and "utf8_second_ok c b" and "cont d" and "cont e"
  shows "\<exists>cp. printable cp \<and> [c, b, d, e] = utf8_enc cp"
proof -
  have r: "0xf0 \<le> unat c" "unat c \<le> 0xf4" "0x80 \<le> unat b" "unat b \<le> 0xbf"
      "0x80 \<le> unat d" "unat d \<le> 0xbf" "0x80 \<le> unat e" "unat e \<le> 0xbf"
      "unat c = 0xf0 \<longrightarrow> 0x90 \<le> unat b" "unat c = 0xf4 \<longrightarrow> unat b \<le> 0x8f"
    using assms by (auto simp: utf8_seq_len_def utf8_second_ok_def byte_nat split: if_splits)
  obtain x y z w where x: "unat c = 0xf0 + x" "unat b = 0x80 + y" "unat d = 0x80 + z" "unat e = 0x80 + w"
    using offset [of "0xf0" c] offset [of "0x80" b] offset [of "0x80" d] offset [of "0x80" e] r by auto
  let ?cp = "((x * 64 + y) * 64 + z) * 64 + w"
  have b: "x < 5" "y < 64" "z < 64" "w < 64" "x = 0 \<longrightarrow> 16 \<le> y" "x = 4 \<longrightarrow> y < 16" using r x by auto
  then have "?cp div 262144 = x" "?cp div 4096 = x * 64 + y" "?cp div 64 = (x * 64 + y) * 64 + z"
    "?cp mod 64 = w" "(x * 64 + y) mod 64 = y" "((x * 64 + y) * 64 + z) mod 64 = z"
    by (simp_all only: div_4096 div_262144 base64_digit)
  moreover have p: "0x10000 \<le> ?cp" using b by (cases "x = 0") simp_all
  moreover have p2: "?cp < 0x110000" using b by (cases "x = 4") simp_all
  ultimately have "utf8_enc ?cp = [of_nat (0xf0 + x), of_nat (0x80 + y), of_nat (0x80 + z), of_nat (0x80 + w)]"
    by (simp add: utf8_enc_def)
  also have "\<dots> = [c, b, d, e]" unfolding x [symmetric] by simp
  finally show ?thesis using p p2 by (intro exI [of _ ?cp]) (simp add: printable_def)
qed

lemma accepted_sequence:
  fixes c :: u8 and cs :: bytes
  defines "src \<equiv> c # cs" and "len \<equiv> utf8_seq_len c"
  assumes "len \<noteq> 0" and "(if len > 0 \<and> utf8_second_ok c (byte_at src 1) then count_have src len 2 else 1) = len"
  shows "len \<le> length src" and "\<exists>cp. printable cp \<and> take len src = utf8_enc cp"
proof -
  have len: "len = 2 \<or> len = 3 \<or> len = 4"
    using assms(3) by (auto simp: len_def utf8_seq_len_def split: if_splits)
  have second: "utf8_second_ok c (byte_at src 1)" and have_len: "count_have src len 2 = len"
    using assms(4) len by (auto split: if_splits)
  have c1: "cont (byte_at src 1)" using second by (auto simp: utf8_second_ok_def split: if_splits)
  have "len \<le> length src \<and> (\<exists>cp. printable cp \<and> take len src = utf8_enc cp)"
    using len
  proof (elim disjE)
    assume l: "len = 2"
    then obtain b rest where s: "src = c # b # rest"
      using byte_at_cont [OF c1] by (cases cs) (auto simp: src_def)
    show ?thesis using enc_two [of c b] c1 l s by (auto simp: len_def byte_at_def numeral_2_eq_2)
  next
    assume l: "len = 3"
    then have c2: "cont (byte_at src 2)" using have_len count_have_3 [of src] by simp
    then obtain b d rest where s: "src = c # b # d # rest"
      using byte_at_cont [OF c2] by (cases cs; cases "tl cs") (auto simp: src_def)
    show ?thesis
      using enc_three [of c b d] second c2 l s by (auto simp: len_def byte_at_def numeral_eq_Suc)
  next
    assume l: "len = 4"
    then have c2: "cont (byte_at src 2)" "cont (byte_at src 3)" using have_len count_have_4 [of src] by simp_all
    then obtain b d e rest where s: "src = c # b # d # e # rest"
      using byte_at_cont [OF c2(2)] by (cases cs; cases "tl cs"; cases "tl (tl cs)") (auto simp: src_def)
    show ?thesis
      using enc_four [of c b d e] second c2 l s by (auto simp: len_def byte_at_def numeral_eq_Suc)
  qed
  then show "len \<le> length src" and "\<exists>cp. printable cp \<and> take len src = utf8_enc cp" by simp_all
qed

lemma ascii_enc: "(c :: u8) < 0x80 \<Longrightarrow> \<not> c < 0x20 \<Longrightarrow> c \<noteq> 0x7f \<Longrightarrow>
    printable (unat c) \<and> [c] = utf8_enc (unat c)"
  by (auto simp: printable_def utf8_enc_def byte_nat)

lemma question_enc: "printable 0x3f" "[0x3f] = utf8_enc 0x3f"
  by (simp_all add: printable_def utf8_enc_def)

text \<open>One round of the loop: it stops, or it writes one printable character and reads no less.\<close>

lemma sanitise_step:
  obtains (stop) "sanitise_loop n out (c # cs) = out"
  | (go) k cp where "0 < k" "k \<le> length (c # cs)" "length (utf8_enc cp) \<le> k" "printable cp"
      "length out + length (utf8_enc cp) < n"
      "sanitise_loop n out (c # cs) = sanitise_loop n (out @ utf8_enc cp) (drop k (c # cs))"
proof -
  let ?len = "utf8_seq_len c"
  let ?have = "if ?len > 0 \<and> utf8_second_ok c (byte_at (c # cs) 1) then count_have (c # cs) ?len 2 else 1"
  have unfolded: "sanitise_loop n out (c # cs) =
    (if \<not> length out + 1 < n then out
     else if c < 0x20 \<or> c = 0x7f then sanitise_loop n (out @ [0x3f]) cs
     else if c < 0x80 then sanitise_loop n (out @ [c]) cs
     else if ?len = 0 \<or> ?have \<noteq> ?len then sanitise_loop n (out @ [0x3f]) cs
     else if length out + ?len + 1 > n then out
     else sanitise_loop n (out @ take ?len (c # cs)) (drop ?len (c # cs)))"
    by (simp only: sanitise_loop.simps Let_def)
  have one: thesis if "length out + 1 < n" "printable cp" "[b] = utf8_enc cp"
    "sanitise_loop n out (c # cs) = sanitise_loop n (out @ [b]) cs" for b cp
    by (rule go [of 1 cp]) (use that in \<open>simp_all flip: that(3)\<close>)
  consider "\<not> length out + 1 < n" | "length out + 1 < n" "c < 0x20 \<or> c = 0x7f"
    | "length out + 1 < n" "\<not> (c < 0x20 \<or> c = 0x7f)" "c < 0x80"
    | "length out + 1 < n" "\<not> (c < 0x20 \<or> c = 0x7f)" "\<not> c < 0x80" "?len = 0 \<or> ?have \<noteq> ?len"
    | "length out + 1 < n" "\<not> (c < 0x20 \<or> c = 0x7f)" "\<not> c < 0x80" "\<not> (?len = 0 \<or> ?have \<noteq> ?len)"
    by blast
  then show ?thesis
  proof cases
    case 1
    then show ?thesis using stop unfolded by simp
  next
    case 2
    then show ?thesis using one [OF _ question_enc] unfolded by simp
  next
    case 3
    then show ?thesis using one [of "unat c" c] ascii_enc [of c] unfolded by simp
  next
    case 4
    then have "sanitise_loop n out (c # cs) = sanitise_loop n (out @ [0x3f]) cs"
      unfolding unfolded by (simp only: if_True if_False not_True_eq_False)
    with 4(1) show ?thesis using one [OF _ question_enc] by simp
  next
    case 5
    note acc = accepted_sequence [of c cs]
    obtain cp where cp: "printable cp" "take ?len (c # cs) = utf8_enc cp" and le: "?len \<le> length (c # cs)"
      using acc 5(4) by auto
    have "length (utf8_enc cp) = ?len" using cp(2) le by (metis length_take min.absorb2)
    with 5 cp le unfolded stop go [of ?len cp] show ?thesis
      by (cases "length out + ?len + 1 > n") auto
  qed
qed

lemma sanitise_invariant:
  "safe_text out \<Longrightarrow> length out < n \<Longrightarrow>
    safe_text (sanitise_loop n out src) \<and> length (sanitise_loop n out src) < n \<and>
    length (sanitise_loop n out src) \<le> length out + length src"
proof (induction src arbitrary: out rule: length_induct)
  case (1 src)
  show ?case
  proof (cases src)
    case Nil
    with 1 show ?thesis by simp
  next
    case (Cons c cs)
    show ?thesis
    proof (cases rule: sanitise_step [of n out c cs])
      case stop
      with 1 Cons show ?thesis by simp
    next
      case (go k cp)
      have "length (drop k src) < length src" using go(1) Cons by simp
      with 1(1) safe_text_snoc [OF 1(2) go(4)] go(5)
      have "safe_text (sanitise_loop n (out @ utf8_enc cp) (drop k src)) \<and>
          length (sanitise_loop n (out @ utf8_enc cp) (drop k src)) < n \<and>
          length (sanitise_loop n (out @ utf8_enc cp) (drop k src)) \<le>
            length (out @ utf8_enc cp) + length (drop k src)"
        by (metis length_append)
      then show ?thesis using go(2,3,6) Cons by auto
    qed
  qed
qed

declare sanitise_loop.simps(2) [simp del]

section \<open>Text that is already safe\<close>

lemma unat_byte: "n < 256 \<Longrightarrow> unat (of_nat n :: u8) = n"
  by (simp add: unat_of_nat)

lemma byte_in: "n < 256 \<Longrightarrow> (a \<le> (of_nat n :: u8)) = (unat a \<le> n)"
  "n < 256 \<Longrightarrow> ((of_nat n :: u8) \<le> a) = (n \<le> unat a)"
  "n < 256 \<Longrightarrow> ((of_nat n :: u8) < a) = (n < unat a)"
  "n < 256 \<Longrightarrow> (a < (of_nat n :: u8)) = (unat a < n)"
  "n < 256 \<Longrightarrow> ((of_nat n :: u8) = a) = (n = unat a)"
  by (auto simp: byte_nat unat_byte)

lemma multi_keeps:
  assumes "\<not> c < 0x80" and "utf8_seq_len c = len" and "0 < len"
    and "utf8_second_ok c (byte_at (c # cs) 1)" and "count_have (c # cs) len 2 = len"
    and "length out + len < n"
  shows "sanitise_loop n out (c # cs) = sanitise_loop n (out @ take len (c # cs)) (drop len (c # cs))"
proof -
  have "\<not> (c < 0x20 \<or> c = 0x7f)" "length out + 1 < n" "\<not> length out + len + 1 > n"
    using assms(1,3,6) by (auto simp: byte_nat)
  then show ?thesis
    using assms(1-5) by (simp only: sanitise_loop.simps Let_def) simp
qed

lemma byte_at_simps [simp]: "byte_at (a # b # cs) (Suc 0) = b" "byte_at (a # b # c # cs) 2 = c"
  "byte_at (a # b # c # d # cs) 3 = d"
  by (simp_all add: byte_at_def numeral_eq_Suc)

lemma cont_byte [simp]: "n < 64 \<Longrightarrow> cont (of_nat (0x80 + n))"
  by (simp add: byte_in del: of_nat_add)

lemma sanitise_keeps:
  assumes "printable cp" and "length out + length (utf8_enc cp) < n"
  shows "sanitise_loop n out (utf8_enc cp @ rest) = sanitise_loop n (out @ utf8_enc cp) rest"
proof -
  let ?z = "of_nat (0x80 + cp mod 64) :: u8" and ?y = "of_nat (0x80 + cp div 64 mod 64) :: u8"
    and ?x = "of_nat (0x80 + cp div 4096 mod 64) :: u8"
  have z: "cont ?z" "cont ?y" "cont ?x" by (rule cont_byte, simp)+
  consider "cp < 0x80" | "0x80 \<le> cp" "cp < 0x800" | "0x800 \<le> cp" "cp < 0x10000" | "0x10000 \<le> cp"
    by linarith
  then show ?thesis
  proof cases
    case 1
    with assms show ?thesis
      by (simp add: sanitise_loop.simps(2) utf8_enc_def printable_def byte_in)
  next
    case 2
    have b: "0xc2 \<le> 0xc0 + cp div 64" "0xc0 + cp div 64 \<le> 0xdf" using 2 by auto
    let ?c = "of_nat (0xc0 + cp div 64) :: u8"
    have e: "utf8_enc cp = [?c, ?z]" using 2 by (simp add: utf8_enc_def)
    have l: "utf8_seq_len ?c = 2" "\<not> ?c < 0x80"
      using b by (simp_all add: utf8_seq_len_def byte_in del: of_nat_add)
    have "utf8_second_ok ?c ?z"
      using b z by (simp add: utf8_second_ok_def byte_in del: of_nat_add)
    with multi_keeps [OF l(2,1), of "?z # rest" out n] show ?thesis
      using assms(2) unfolding e by (simp add: count_have_2 del: of_nat_add)
  next
    case 3
    have b: "0xe0 + cp div 4096 \<le> 0xef" using 3 by auto
    let ?c = "of_nat (0xe0 + cp div 4096) :: u8"
    have e: "utf8_enc cp = [?c, ?y, ?z]" using 3 by (simp add: utf8_enc_def)
    have l: "utf8_seq_len ?c = 3" "\<not> ?c < 0x80"
      using b by (simp_all add: utf8_seq_len_def byte_in del: of_nat_add)
    have q: "cp div 64 = 64 * (cp div 4096) + cp div 64 mod 64" by (simp add: div_4096)
    have "32 \<le> cp div 64" "cp div 64 < 864 \<or> 896 \<le> cp div 64"
      using 3 assms(1) by (auto simp: printable_def)
    with q have "cp div 4096 = 0 \<Longrightarrow> 0x20 \<le> cp div 64 mod 64" "cp div 4096 = 13 \<Longrightarrow> cp div 64 mod 64 < 0x20"
      by auto
    then have "utf8_second_ok ?c ?y"
      using b z by (auto simp: utf8_second_ok_def byte_in not_less simp del: of_nat_add)
    with multi_keeps [OF l(2,1), of "?y # ?z # rest" out n] show ?thesis
      using assms(2) z unfolding e by (simp add: count_have_3 del: of_nat_add)
  next
    case 4
    have b: "0xf0 + cp div 262144 \<le> 0xf4" using 4 assms(1) by (auto simp: printable_def)
    let ?c = "of_nat (0xf0 + cp div 262144) :: u8"
    have e: "utf8_enc cp = [?c, ?x, ?y, ?z]" using 4 by (simp add: utf8_enc_def)
    have l: "utf8_seq_len ?c = 4" "\<not> ?c < 0x80"
      using b by (simp_all add: utf8_seq_len_def byte_in del: of_nat_add)
    have q: "cp div 4096 = 64 * (cp div 262144) + cp div 4096 mod 64" by (simp add: div_4096 div_262144)
    have "16 \<le> cp div 4096" "cp div 4096 < 272" using 4 assms(1) by (auto simp: printable_def)
    with q have "cp div 262144 = 0 \<Longrightarrow> 0x10 \<le> cp div 4096 mod 64"
      "cp div 262144 = 4 \<Longrightarrow> cp div 4096 mod 64 < 0x10"
      by auto
    then have "utf8_second_ok ?c ?x"
      using b z by (auto simp: utf8_second_ok_def byte_in not_less simp del: of_nat_add)
    with multi_keeps [OF l(2,1), of "?x # ?y # ?z # rest" out n] show ?thesis
      using assms(2) z unfolding e by (simp add: count_have_4 del: of_nat_add)
  qed
qed

lemma sanitise_safe_id:
  "\<forall>cp \<in> set cps. printable cp \<Longrightarrow> length out + length (concat (map utf8_enc cps)) < n \<Longrightarrow>
    sanitise_loop n out (concat (map utf8_enc cps)) = out @ concat (map utf8_enc cps)"
  by (induction cps arbitrary: out) (auto simp: sanitise_keeps)

lemma lower_header:
  "to_lower (CHR ''A'') = CHR ''a''" "to_lower (CHR ''B'') = CHR ''b''" "to_lower (CHR ''a'') = CHR ''a''" "to_lower (CHR ''u'') = CHR ''u''"
  "to_lower (CHR ''t'') = CHR ''t''" "to_lower (CHR ''h'') = CHR ''h''" "to_lower (CHR ''o'') = CHR ''o''" "to_lower (CHR ''r'') = CHR ''r''"
  "to_lower (CHR ''i'') = CHR ''i''" "to_lower (CHR ''z'') = CHR ''z''" "to_lower (CHR ''n'') = CHR ''n''" "to_lower (CHR ''k'') = CHR ''k''"
  "to_lower (CHR ''b'') = CHR ''b''" "to_lower (CHR '':'') = CHR '':''" "to_lower (CHR '' '') = CHR '' ''"
  by code_simp+

lemma marker_header:
  "find (starts_with_ci (''Authorization: Bearer '' @ v)) secrets = Some ''authorization: ''"
  by (simp add: secrets_def lower_header)

lemma marker_space: "find (starts_with_ci (CHR '' '' # v)) secrets = None"
  by (simp add: secrets_def to_lower_def)

section \<open>Properties\<close>



text \<open>
  Sanitised text is safe to put in a JSON string: it is the UTF-8 encoding of a sequence of
  scalar values without control characters, it fits its destination, it is never longer than its
  source, and text that was safe and fits comes out unchanged.
\<close>

theorem sanitised_is_safe_text:
  assumes "0 < dst_size"
  shows "\<exists>out. rq_sanitise_detail dst_size (Some src) = Some out \<and> safe_text out \<and>
    length out < dst_size \<and> length out \<le> length src \<and>
    (safe_text src \<and> length src < dst_size \<longrightarrow> out = src)"
proof (intro exI conjI impI)
  let ?out = "sanitise_loop dst_size [] src"
  show "rq_sanitise_detail dst_size (Some src) = Some ?out"
    using assms by (simp add: rq_sanitise_detail_def)
  show "safe_text ?out" "length ?out < dst_size" "length ?out \<le> length src"
    using sanitise_invariant [of "[]" dst_size src] assms by simp_all
  show "?out = src" if "safe_text src \<and> length src < dst_size"
    using that sanitise_safe_id [of _ "[]" dst_size] by (auto simp: safe_text_def)
qed

theorem sanitised_is_safe_text_witness:
  "safe_text (the (rq_sanitise_detail 8 (Some [0x41, 0x00, 0xc3, 0xff, 0xe2, 0x82, 0xac])))"
  using sanitised_is_safe_text [of 8 "[0x41, 0x00, 0xc3, 0xff, 0xe2, 0x82, 0xac]"] by auto

text \<open>
  A credential behind both markers survives: an authorization header's scheme is taken for its
  value, so that the value after it is written out unless it carries the token's own prefix.
\<close>

theorem header_credential_survives:
  assumes "\<And>p v'. cred = p @ v' \<Longrightarrow> find (starts_with_ci v') secrets = None"
    and "length cred + 26 < dst_size"
  shows "rq_redact dst_size (Some (''Authorization: Bearer '' @ cred)) =
    Some (''Authorization: [redacted] '' @ cred)"
proof -
  have same: "redact_all v = v" if "\<And>p v'. v = p @ v' \<Longrightarrow> find (starts_with_ci v') secrets = None" for v
    using that
  proof (induction v)
    case Nil
    show ?case by simp
  next
    case (Cons c v)
    have "find (starts_with_ci (c # v)) secrets = None"
      using Cons.prems [of "[]" "c # v"] by simp
    moreover have "redact_all v = v"
      using Cons.IH Cons.prems by (metis append_Cons)
    ultimately show ?case by simp
  qed
  have "redact_all (''Authorization: Bearer '' @ cred) =
      ''Authorization: [redacted]'' @ redact_all (CHR '' '' # cred)"
    using marker_header [of cred]
    by (simp add: keep_marker_def redacted_def token_char_def del: redact_all.simps(2))
      (simp add: keep_marker_def redacted_def token_char_def)
  also have "redact_all (CHR '' '' # cred) = CHR '' '' # redact_all cred"
    using marker_space [of cred] by simp
  also have "redact_all cred = cred" using assms(1) by (rule same)
  finally have full: "redact_all (''Authorization: Bearer '' @ cred) =
      ''Authorization: [redacted]'' @ CHR '' '' # cred" .
  have "0 < dst_size" using assms(2) by simp
  then show ?thesis unfolding redact_eq [OF \<open>0 < dst_size\<close>] full using assms(2) by simp
qed

theorem header_credential_survives_witness:
  "rq_redact 96 (Some (''Authorization: Bearer '' @ ''x'')) = Some (''Authorization: [redacted] '' @ ''x'')"
  by (rule header_credential_survives)
    (auto simp: Cons_eq_append_conv secrets_def to_lower_def)

end
