(* ===== verification/Pure_Capture.thy ===== *)
theory Pure_Capture
  imports Kino_Prelude
begin

text \<open>
  The capture and storage arithmetic of \<^verbatim>\<open>firmware/p4/main/pure.c\<close>: JPEG quality scales, the gain
  word, the resolution parser, the space a capture reserves, the shape of a capture directory's name
  and the scale of a thumbnail. \<open>pure_ev_to_ae_level\<close> and the alignment geometry compute with
  \<^verbatim>\<open>double\<close> and are not modelled.
\<close>

section \<open>The code\<close>

definition PURE_SENSOR_QUALITY_MIN :: int where "PURE_SENSOR_QUALITY_MIN = 5"
definition PURE_SENSOR_QUALITY_MAX :: int where "PURE_SENSOR_QUALITY_MAX = 63"

definition pure_quality_to_sensor :: "int \<Rightarrow> int" where
  "pure_quality_to_sensor percent =
    (if percent \<le> 0 then 0
     else let p = (if percent > 100 then 100 else percent);
              q = 20 - ((p - 60) * 15) sdiv 35
     in if q < 5 then 5 else if q > 40 then 40 else q)"

text \<open>The pair of what the capture command carries and what the metadata records.\<close>

definition pure_frame_quality :: "bool \<Rightarrow> int \<Rightarrow> int \<Rightarrow> int \<times> int" where
  "pure_frame_quality sensor_owns applied_quality mode_quality =
    (if sensor_owns \<and> applied_quality > 0 then (0, applied_quality)
     else if mode_quality > 0
     then (mode_quality,
           let record = mode_quality;
               record1 = (if record < PURE_SENSOR_QUALITY_MIN then PURE_SENSOR_QUALITY_MIN else record)
           in if record1 > PURE_SENSOR_QUALITY_MAX then PURE_SENSOR_QUALITY_MAX else record1)
     else (0, 0))"

definition pure_gain_to_ceiling :: "string option \<Rightarrow> int" where
  "pure_gain_to_ceiling gain =
    (case gain of None \<Rightarrow> 0 | Some g \<Rightarrow> if g = ''low'' then 4 else if g = ''high'' then 32 else 0)"

definition MAX_DIM :: u32 where "MAX_DIM = 4096"

definition digit_value :: "char \<Rightarrow> u32" where
  "digit_value c = of_nat (of_char c - of_char (CHR ''0''))"

text \<open>
  One of the two digit loops: \<open>None\<close> when the number passes the limit, else the number, how many
  digits were read, and what follows them.
\<close>

fun read_dim :: "u32 \<Rightarrow> int \<Rightarrow> string \<Rightarrow> (u32 \<times> int \<times> string) option" where
  "read_dim w digits [] = Some (w, digits, [])"
| "read_dim w digits (c # cs) =
    (if c_digit c
     then (let w1 = w * 10 + digit_value c in if w1 > MAX_DIM then None else read_dim w1 (digits + 1) cs)
     else Some (w, digits, c # cs))"

definition pure_parse_resolution :: "string option \<Rightarrow> (u32 \<times> u32) option" where
  "pure_parse_resolution src =
    (case src of None \<Rightarrow> None
     | Some s \<Rightarrow>
        (case read_dim 0 0 s of
           None \<Rightarrow> None
         | Some (w, digits, rest) \<Rightarrow>
             if digits = 0 \<or> rest = [] \<or> hd rest \<noteq> CHR ''x'' then None
             else case read_dim 0 0 (tl rest) of
                None \<Rightarrow> None
              | Some (h, digits2, rest2) \<Rightarrow>
                  if digits2 = 0 \<or> rest2 \<noteq> [] then None
                  else if w = 0 \<or> h = 0 then None
                  else Some (w, h)))"

definition PURE_RESERVE_THUMB_BYTES :: u64 where "PURE_RESERVE_THUMB_BYTES = 64 * 1024"
definition PURE_RESERVE_META_BYTES :: u64 where "PURE_RESERVE_META_BYTES = 8 * 1024"
definition PURE_RESERVE_MARGIN_BYTES :: u64 where "PURE_RESERVE_MARGIN_BYTES = 1024 * 1024"

definition pure_capture_reserve_bytes :: "int \<Rightarrow> u32 \<Rightarrow> u32 \<Rightarrow> u64" where
  "pure_capture_reserve_bytes frames0 width0 height0 =
    (let frames1 = (if frames0 < 1 then 1 else frames0);
         frames = (if frames1 > 4 then 4 else frames1);
         (width, height) = (if width0 = 0 \<or> height0 = 0 then (2048, 1536) else (width0, height0));
         per_frame = (ucast width * ucast height :: u64) div 2
     in per_frame * of_int frames + PURE_RESERVE_THUMB_BYTES + PURE_RESERVE_META_BYTES +
        PURE_RESERVE_MARGIN_BYTES)"

definition dir_char_ok :: "nat \<Rightarrow> char \<Rightarrow> bool" where
  "dir_char_ok i c =
    (if i = 8 \<or> i = 13 \<or> i = 18 \<or> i = 23 then c = CHR ''-''
     else (CHR ''0'' \<le> c \<and> c \<le> CHR ''9'') \<or> (CHR ''a'' \<le> c \<and> c \<le> CHR ''f''))"

definition pure_is_capture_dirname :: "string option \<Rightarrow> bool" where
  "pure_is_capture_dirname src =
    (case src of None \<Rightarrow> False
     | Some name \<Rightarrow>
         if length name \<noteq> 36 then False
         else list_all (\<lambda>i. dir_char_ok i (name ! i)) [0..<36])"

definition pure_scale_sixteenths :: "u32 \<Rightarrow> u32 \<Rightarrow> u32 \<Rightarrow> u32 \<Rightarrow> int" where
  "pure_scale_sixteenths w h box_w box_h =
    (if w = 0 \<or> h = 0 \<or> box_w = 0 \<or> box_h = 0 then 0
     else let by_w = (box_w * 16) div w;
              by_h = (box_h * 16) div h;
              n = (if by_w < by_h then by_w else by_h)
     in if n < 1 then 0 else if n > 16 then 16 else uint n)"

section \<open>Quality and space\<close>

lemma quality_in_sensor_range:
  "0 < p \<Longrightarrow> 5 \<le> pure_quality_to_sensor p \<and> pure_quality_to_sensor p \<le> 40"
  by (simp add: pure_quality_to_sensor_def Let_def)

lemma frame_quality_one_writer:
  "fst (pure_frame_quality owns applied mode) = 0 \<or>
   \<not> (owns \<and> 0 < applied) \<and> fst (pure_frame_quality owns applied mode) = mode"
  by (simp add: pure_frame_quality_def)

section \<open>Thumbnails stay in their box\<close>

lemma wrap_times_16: "unat (b * 16 :: u32) \<le> unat b * 16"
  using unat_word_ariths(2) [of b 16] by simp

lemma div_times_le: "unat ((b * 16 :: u32) div w) * unat w \<le> unat b * 16"
proof -
  have "unat ((b * 16) div w) * unat w = unat (b * 16) div unat w * unat w"
    by (simp add: unat_div)
  also have "\<dots> \<le> unat (b * 16)" by (rule div_times_less_eq_dividend)
  finally show ?thesis using wrap_times_16 [of b] by linarith
qed

lemma div_next_gt:
  assumes "unat b < 2 ^ 28" and "w \<noteq> (0 :: u32)"
  shows "unat b * 16 < (unat ((b * 16) div w) + 1) * unat w"
proof -
  have "unat (b * 16) = unat b * 16"
    using assms(1) unat_word_ariths(2) [of b 16] by simp
  moreover have "unat w \<noteq> 0" using assms(2) by (simp add: unat_eq_0)
  ultimately show ?thesis
    using dividend_less_div_times [of "unat w" "unat b * 16"] by (simp add: unat_div)
qed

text \<open>
  A picture scaled by the chosen sixteenths never leaves its box, for every size of picture and
  box, also where the product wraps; and for boxes below 2^28 the scale is the largest that fits, so
  that a refusal means that not even one sixteenth does.
\<close>

theorem scaled_picture_fits:
  fixes w h box_w box_h :: u32
  defines "n \<equiv> nat (pure_scale_sixteenths w h box_w box_h)"
  shows "unat w * n \<le> unat box_w * 16 \<and> unat h * n \<le> unat box_h * 16 \<and> n \<le> 16 \<and>
    (w \<noteq> 0 \<and> h \<noteq> 0 \<and> box_w \<noteq> 0 \<and> box_h \<noteq> 0 \<and> unat box_w < 2 ^ 28 \<and> unat box_h < 2 ^ 28 \<and> n < 16 \<longrightarrow>
       unat box_w * 16 < unat w * (n + 1) \<or> unat box_h * 16 < unat h * (n + 1))"
proof (cases "w = 0 \<or> h = 0 \<or> box_w = 0 \<or> box_h = 0")
  case True
  then have "n = 0" by (simp add: n_def pure_scale_sixteenths_def)
  with True show ?thesis by auto
next
  case False
  let ?a = "(box_w * 16) div w" and ?b = "(box_h * 16) div h"
  define m where "m = min (unat ?a) (unat ?b)"
  have "unat (if ?a < ?b then ?a else ?b) = m"
    by (simp add: m_def min_def word_less_nat_alt)
  then have n: "n = min m 16"
    using False
    by (auto simp: n_def pure_scale_sixteenths_def Let_def word_less_nat_alt uint_nat min_def simp flip: unat_0)
  have le: "unat w * n \<le> unat ?a * unat w" "unat h * n \<le> unat ?b * unat h"
    by (simp_all add: n m_def min_def mult.commute)
  have "unat w * n \<le> unat box_w * 16" "unat h * n \<le> unat box_h * 16"
    using le div_times_le [of box_w w] div_times_le [of box_h h] by linarith+
  moreover have "unat box_w * 16 < unat w * (n + 1) \<or> unat box_h * 16 < unat h * (n + 1)"
    if "unat box_w < 2 ^ 28" "unat box_h < 2 ^ 28" "n < 16"
  proof -
    have "n = unat ?a \<or> n = unat ?b" using that(3) n by (auto simp: m_def min_def split: if_splits)
    then show ?thesis
      using div_next_gt [OF that(1), of w] div_next_gt [OF that(2), of h] False
      by (auto simp: mult.commute)
  qed
  ultimately show ?thesis using n by auto
qed

theorem scaled_picture_fits_witness:
  "unat (1600 :: u32) * nat (pure_scale_sixteenths 1600 1200 320 240) \<le> unat (320 :: u32) * 16"
  using scaled_picture_fits [of 1600 1200 320 240] by blast

end
