(* ===== verification/Upload_List.thy ===== *)
theory Upload_List
  imports Roll_Scan Roll_Text Pure_Capture "HOL-Library.Multiset"
begin

text \<open>
  The RAM window of the upload queue (\<^verbatim>\<open>firmware/p4/main/upload_queue.c\<close>): the module's state and the
  operations on its list of jobs. The array \<^verbatim>\<open>s_jobs\<close> with its count is the list of its live entries,
  and \<^verbatim>\<open>s_added_seq\<close> the list beside it; entries past the count are zeroed by the code and never
  read. An index that may be \<^verbatim>\<open>-1\<close> is an option. Log output and the hardware validation marks have no
  counterpart; the counters that only feed a log line are left out.
\<close>

section \<open>The code\<close>

definition UPLOAD_QUEUE_MAX :: nat where "UPLOAD_QUEUE_MAX = 32"
definition SCAN_MAX_DIRS :: nat where "SCAN_MAX_DIRS = 512"
definition CARD_WAIT_MS :: int where "CARD_WAIT_MS = 200"
definition PARKED_IN_RAM_MAX :: nat where "PARKED_IN_RAM_MAX = 4"
definition PARKED_PROBE_MS :: int where "PARKED_PROBE_MS = 10 * 60 * 1000"

datatype upload_server_state = UPLOAD_SERVER_UNKNOWN | UPLOAD_SERVER_REACHABLE | UPLOAD_SERVER_UNREACHABLE

record uq =
  s_jobs :: "rq_job list"
  s_added_seq :: "u32 list"
  s_next_seq :: u32
  s_active :: "nat option"
  s_halted :: bool
  s_net_ready :: bool
  s_cap_hit :: bool
  s_rescan :: bool
  s_forget_active :: bool
  s_scan :: rq_scan
  s_uploaded :: int
  s_last_upload_ms :: int
  s_burst_done :: int
  s_last_error :: string
  s_parked_off_list :: int
  s_server_state :: upload_server_state
  s_revive_parked :: bool
  s_boot_revived :: bool
  s_last_probe_ms :: int

definition uq_boot :: uq where
  "uq_boot = \<lparr>s_jobs = [], s_added_seq = [], s_next_seq = 0, s_active = None, s_halted = False,
     s_net_ready = False, s_cap_hit = False, s_rescan = False, s_forget_active = False,
     s_scan = rq_scan_init, s_uploaded = 0, s_last_upload_ms = 0, s_burst_done = 0, s_last_error = [],
     s_parked_off_list = 0, s_server_state = UPLOAD_SERVER_UNKNOWN, s_revive_parked = False,
     s_boot_revived = False, s_last_probe_ms = 0\<rparr>"

definition find_job :: "string \<Rightarrow> uq \<Rightarrow> nat option" where
  "find_job u q = first_at (\<lambda>j. uuid j = u) (s_jobs q)"

definition list_add :: "rq_job \<Rightarrow> uq \<Rightarrow> bool \<times> uq" where
  "list_add job q =
    (if length (s_jobs q) \<ge> UPLOAD_QUEUE_MAX then (False, q\<lparr>s_cap_hit := True\<rparr>)
     else (True, q\<lparr>s_next_seq := s_next_seq q + 1,
                   s_added_seq := s_added_seq q @ [s_next_seq q + 1],
                   s_jobs := s_jobs q @ [job]\<rparr>))"

text \<open>The last entry fills the hole.\<close>

definition fill_hole :: "nat \<Rightarrow> 'a list \<Rightarrow> 'a list" where
  "fill_hole idx xs = butlast (xs[idx := last xs])"

definition list_drop :: "nat \<Rightarrow> uq \<Rightarrow> uq" where
  "list_drop idx q =
    (if idx \<ge> length (s_jobs q) then q
     else q\<lparr>s_jobs := fill_hole idx (s_jobs q), s_added_seq := fill_hole idx (s_added_seq q)\<rparr>)"

definition count_parked :: "uq \<Rightarrow> nat" where
  "count_parked q = length (filter (\<lambda>j. job_state j = RQ_FAILED) (s_jobs q))"

text \<open>The search for the oldest parked entry that is not being worked on.\<close>

fun victim_loop :: "uq \<Rightarrow> nat list \<Rightarrow> nat option \<Rightarrow> nat option" where
  "victim_loop q [] victim = victim"
| "victim_loop q (i # is) victim =
    (if job_state (s_jobs q ! i) \<noteq> RQ_FAILED \<or> s_active q = Some i then victim_loop q is victim
     else case victim of
       None \<Rightarrow> victim_loop q is (Some i)
     | Some v \<Rightarrow> if s_added_seq q ! i < s_added_seq q ! v then victim_loop q is (Some i)
                else victim_loop q is victim)"

fun trim_loop :: "nat \<Rightarrow> uq \<Rightarrow> nat \<times> uq" where
  "trim_loop 0 q = (0, q)"
| "trim_loop (Suc over) q =
    (case victim_loop q [0..<length (s_jobs q)] None of
       None \<Rightarrow> (0, q)
     | Some victim \<Rightarrow>
         (let r = trim_loop over ((list_drop victim q)\<lparr>s_parked_off_list := s_parked_off_list q + 1\<rparr>)
          in (fst r + 1, snd r)))"

definition trim_parked :: "uq \<Rightarrow> nat \<times> uq" where
  "trim_parked q = trim_loop (count_parked q - PARKED_IN_RAM_MAX) q"

subsection \<open>Choosing and finding again\<close>

definition runnable :: "int \<Rightarrow> rq_job \<Rightarrow> bool" where
  "runnable t j \<longleftrightarrow>
    \<not> (kind (rq_next_step j t) = RQ_STEP_NOTHING \<or> kind (rq_next_step j t) = RQ_STEP_WAIT_BACKOFF)"

definition pick_job :: "int \<Rightarrow> uq \<Rightarrow> (nat \<times> rq_step) option" where
  "pick_job t q =
    map_option (\<lambda>i. (i, rq_next_step (s_jobs q ! i) t)) (first_at (runnable t) (s_jobs q))"

definition still_ours :: "nat \<Rightarrow> string \<Rightarrow> uq \<Rightarrow> bool" where
  "still_ours idx u q \<longleftrightarrow> idx < length (s_jobs q) \<and> uuid (s_jobs q ! idx) = u"

definition relocate_job :: "nat \<Rightarrow> string \<Rightarrow> uq \<Rightarrow> nat option" where
  "relocate_job idx u q = (if still_ours idx u q then Some idx else find_job u q)"

text \<open>The hardware random number is an argument.\<close>

definition jittered_backoff :: "u32 \<Rightarrow> u32 \<Rightarrow> u32" where
  "jittered_backoff esp_random att =
    (let base = rq_backoff_ms att
     in if base < 4 then base
        else let span = base div 2 in base - base div 4 + esp_random mod (span + 1))"

subsection \<open>Parked jobs coming back\<close>

definition revive_if_transient :: "rq_job \<Rightarrow> rq_job" where
  "revive_if_transient j = (if rq_park_is_transient j then rq_job_revive j else j)"

definition revive_transient_locked :: "uq \<Rightarrow> uq" where
  "revive_transient_locked q =
    (let q1 = q\<lparr>s_jobs := map revive_if_transient (s_jobs q)\<rparr>
     in if s_parked_off_list q1 > 0 then q1\<lparr>s_revive_parked := True, s_rescan := True\<rparr> else q1)"

record roll_step_result =
  status :: int
  res_capture_id :: string
  res_detail :: string
  res_code :: string
  card_yielded :: bool

definition note_server_locked :: "roll_step_result \<Rightarrow> uq \<Rightarrow> uq" where
  "note_server_locked res q =
    (if card_yielded res then q
     else let was = s_server_state q;
              q1 = q\<lparr>s_server_state :=
                (if status res > 0 then UPLOAD_SERVER_REACHABLE else UPLOAD_SERVER_UNREACHABLE)\<rparr>
     in if s_server_state q1 = UPLOAD_SERVER_REACHABLE \<and> was \<noteq> UPLOAD_SERVER_REACHABLE
        then revive_transient_locked q1 else q1)"

definition maybe_probe_parked :: "int \<Rightarrow> uq \<Rightarrow> bool \<times> uq" where
  "maybe_probe_parked now q =
    (if s_last_probe_ms q \<noteq> 0 \<and> now - s_last_probe_ms q < PARKED_PROBE_MS then (False, q)
     else let (did, q1) =
       (case first_at rq_park_is_transient (s_jobs q) of
          Some i \<Rightarrow> (True, q\<lparr>s_jobs := (s_jobs q)[i := rq_job_revive (s_jobs q ! i)]\<rparr>)
        | None \<Rightarrow>
            if s_parked_off_list q > 0 then (True, q\<lparr>s_revive_parked := True, s_rescan := True\<rparr>)
            else (False, q))
     in (did, q1\<lparr>s_last_probe_ms := now\<rparr>))"

section \<open>The list\<close>

lemma length_fill_hole [simp]: "length (fill_hole i xs) = length xs - 1"
  by (simp add: fill_hole_def)

lemma mset_fill_hole: "i < length xs \<Longrightarrow> mset (fill_hole i xs) = mset xs - {#xs ! i#}"
proof -
  assume i: "i < length xs"
  then have ne: "xs[i := last xs] \<noteq> []" by auto
  have last: "last (xs[i := last xs]) = last xs"
    using i by (cases "xs = []") (simp_all add: last_list_update)
  have "mset (butlast (xs[i := last xs])) = mset (xs[i := last xs]) - {#last xs#}"
    using ne last by (metis add_diff_cancel_right' append_butlast_last_id mset.simps(1) mset.simps(2) mset_append add_mset_add_single add.left_neutral)
  also have "\<dots> = mset xs - {#xs ! i#}" using i by (simp add: mset_update)
  finally show ?thesis by (simp add: fill_hole_def)
qed

lemma fill_hole_zip:
  "length xs = length ys \<Longrightarrow> i < length xs \<Longrightarrow> fill_hole i (zip xs ys) = zip (fill_hole i xs) (fill_hole i ys)"
  by (cases "xs = []"; cases "ys = []")
    (simp_all add: fill_hole_def butlast_conv_take take_zip update_zip last_zip)

lemma map_fill_hole: "i < length xs \<Longrightarrow> map f (fill_hole i xs) = fill_hole i (map f xs)"
  by (cases "xs = []") (simp_all add: fill_hole_def map_butlast map_update last_map)

definition uuids :: "uq \<Rightarrow> string list" where
  "uuids q = map uuid (s_jobs q)"

text \<open>What holds of the list at every moment the lock is free.\<close>

definition uq_ok :: "uq \<Rightarrow> bool" where
  "uq_ok q \<longleftrightarrow> length (s_added_seq q) = length (s_jobs q) \<and> length (s_jobs q) \<le> UPLOAD_QUEUE_MAX \<and>
     (\<forall>j \<in> set (s_jobs q). job_ok j) \<and> distinct (uuids q)"

lemma find_job_None: "find_job u q = None \<longleftrightarrow> u \<notin> set (uuids q)"
  by (auto simp: find_job_def first_at_None uuids_def)

lemma find_job_Some: "find_job u q = Some i \<Longrightarrow> i < length (s_jobs q) \<and> uuid (s_jobs q ! i) = u"
  using first_at_SomeD [of "\<lambda>j. uuid j = u" "s_jobs q" i] by (simp add: find_job_def)

lemma relocate_Some: "relocate_job idx u q = Some i \<Longrightarrow> i < length (s_jobs q) \<and> uuid (s_jobs q ! i) = u"
  by (auto simp: relocate_job_def still_ours_def dest: find_job_Some split: if_splits)

lemma relocate_None: "relocate_job idx u q = None \<longleftrightarrow> u \<notin> set (uuids q)"
  by (auto simp: relocate_job_def still_ours_def find_job_None uuids_def)

text \<open>Where a job is found again does not depend on where it was.\<close>

lemma relocate_unique:
  assumes "distinct (uuids q)" and "i < length (s_jobs q)"
  shows "relocate_job idx (uuid (s_jobs q ! i)) q = Some i"
proof -
  have "uuid (s_jobs q ! i) \<in> set (uuids q)" using assms(2) by (simp add: uuids_def)
  then obtain k where k: "relocate_job idx (uuid (s_jobs q ! i)) q = Some k"
    using relocate_None [of idx _ q] by blast
  with relocate_Some [OF k] assms have "uuids q ! k = uuids q ! i" "k < length (uuids q)" "i < length (uuids q)"
    by (auto simp: uuids_def)
  with assms(1) have "k = i" by (simp add: nth_eq_iff_index_eq)
  with k show ?thesis by simp
qed

lemma list_drop_jobs: "i < length (s_jobs q) \<Longrightarrow> s_jobs (list_drop i q) = fill_hole i (s_jobs q)"
  by (simp add: list_drop_def)

lemma list_drop_mset:
  "i < length (s_jobs q) \<Longrightarrow> mset (s_jobs (list_drop i q)) = mset (s_jobs q) - {#s_jobs q ! i#}"
  by (simp add: list_drop_jobs mset_fill_hole)

lemma list_drop_uuids:
  assumes "distinct (uuids q)" and "i < length (s_jobs q)"
  shows "set (uuids (list_drop i q)) = set (uuids q) - {uuid (s_jobs q ! i)}" "distinct (uuids (list_drop i q))"
proof -
  have m: "mset (uuids (list_drop i q)) = mset (uuids q) - {#uuids q ! i#}"
    using assms(2) by (simp add: uuids_def list_drop_jobs map_fill_hole mset_fill_hole)
  have d: "distinct (uuids (list_drop i q)) \<and> set (uuids (list_drop i q)) = set (uuids q) - {uuids q ! i}"
  proof -
    have "mset (uuids (list_drop i q)) = mset (remove1 (uuids q ! i) (uuids q))" using m by simp
    then have "set (uuids (list_drop i q)) = set (remove1 (uuids q ! i) (uuids q))"
      and "distinct (uuids (list_drop i q)) = distinct (remove1 (uuids q ! i) (uuids q))"
      by (metis set_mset_mset, metis mset_eq_imp_distinct_iff)
    with assms(1) show ?thesis by (simp add: set_remove1_eq distinct_remove1)
  qed
  then show "set (uuids (list_drop i q)) = set (uuids q) - {uuid (s_jobs q ! i)}"
    and "distinct (uuids (list_drop i q))"
    using assms(2) by (simp_all add: uuids_def)
qed

lemma list_drop_ok: "uq_ok q \<Longrightarrow> uq_ok (list_drop i q)"
proof (cases "i < length (s_jobs q)")
  case True
  assume ok: "uq_ok q"
  have "set (s_jobs (list_drop i q)) \<subseteq> set (s_jobs q)"
    using list_drop_mset [OF True] by (metis in_diffD set_mset_mset subsetI)
  with ok True list_drop_uuids(2) [of q i] show ?thesis
    by (auto simp: uq_ok_def list_drop_def)
qed (simp add: list_drop_def)

lemma list_add_ok:
  "uq_ok q \<Longrightarrow> job_ok j \<Longrightarrow> uuid j \<notin> set (uuids q) \<Longrightarrow> uq_ok (snd (list_add j q))"
  by (auto simp: uq_ok_def list_add_def uuids_def)

section \<open>Choosing a job\<close>

lemma pick_job_None: "pick_job t q = None \<longleftrightarrow> (\<forall>j \<in> set (s_jobs q). \<not> runnable t j)"
  by (simp add: pick_job_def first_at_None)

lemma pick_job_Some:
  "pick_job t q = Some (i, s) \<Longrightarrow> i < length (s_jobs q) \<and> runnable t (s_jobs q ! i) \<and>
    s = rq_next_step (s_jobs q ! i) t \<and> (\<forall>k < i. \<not> runnable t (s_jobs q ! k))"
  unfolding pick_job_def by (auto dest: first_at_SomeD)

section \<open>Trimming parked jobs\<close>

definition eligible :: "uq \<Rightarrow> nat \<Rightarrow> bool" where
  "eligible q i \<longleftrightarrow> job_state (s_jobs q ! i) = RQ_FAILED \<and> s_active q \<noteq> Some i"

lemma victim_loop_spec:
  assumes "\<forall>v. victim = Some v \<longrightarrow> eligible q v"
  shows "case victim_loop q is victim of
      None \<Rightarrow> victim = None \<and> (\<forall>i \<in> set is. \<not> eligible q i)
    | Some v \<Rightarrow> eligible q v \<and> (v \<in> set is \<or> victim = Some v) \<and>
        (\<forall>i \<in> set is. eligible q i \<longrightarrow> s_added_seq q ! v \<le> s_added_seq q ! i) \<and>
        (\<forall>w. victim = Some w \<longrightarrow> s_added_seq q ! v \<le> s_added_seq q ! w)"
  using assms
proof (induction "is" arbitrary: victim)
  case Nil
  then show ?case by (simp split: option.split)
next
  case (Cons i "is")
  show ?case
  proof (cases "eligible q i")
    case False
    then have "victim_loop q (i # is) victim = victim_loop q is victim"
      by (auto simp: eligible_def)
    with Cons.IH [OF Cons.prems] False show ?thesis by (simp del: victim_loop.simps split: option.splits)
  next
    case True
    let ?new = "case victim of None \<Rightarrow> Some i
      | Some v \<Rightarrow> if s_added_seq q ! i < s_added_seq q ! v then Some i else victim"
    have "victim_loop q (i # is) victim = victim_loop q is ?new"
      using True by (auto simp: eligible_def split: option.split)
    moreover have "\<forall>v. ?new = Some v \<longrightarrow> eligible q v"
      using True Cons.prems by (auto split: option.splits if_splits)
    note Cons.IH [OF this]
    ultimately show ?thesis
      using True by (auto split: option.splits if_splits simp: not_less)
  qed
qed

lemma victim_None:
  "victim_loop q [0..<n] None = None \<Longrightarrow> i < n \<Longrightarrow> \<not> eligible q i"
  using victim_loop_spec [of None q "[0..<n]"] by (auto split: option.splits)

lemma victim_Some:
  assumes "victim_loop q [0..<n] None = Some v"
  shows "v < n" and "eligible q v"
    and "\<And>i. i < n \<Longrightarrow> eligible q i \<Longrightarrow> s_added_seq q ! v \<le> s_added_seq q ! i"
  using victim_loop_spec [of None q "[0..<n]"] assms by (auto split: option.splits)

text \<open>The entries of the window with their sequence numbers; those that are parked.\<close>

definition window :: "uq \<Rightarrow> (rq_job \<times> u32) multiset" where
  "window q = mset (zip (s_jobs q) (s_added_seq q))"

abbreviation parked :: "rq_job \<times> u32 \<Rightarrow> bool" where
  "parked e \<equiv> job_state (fst e) = RQ_FAILED"

lemma window_drop:
  assumes "length (s_added_seq q) = length (s_jobs q)" and "i < length (s_jobs q)"
  shows "window q = add_mset (s_jobs q ! i, s_added_seq q ! i) (window (list_drop i q))"
proof -
  let ?z = "zip (s_jobs q) (s_added_seq q)"
  have "zip (s_jobs (list_drop i q)) (s_added_seq (list_drop i q)) = fill_hole i ?z"
    using assms by (simp add: list_drop_def fill_hole_zip)
  then have "window (list_drop i q) = mset ?z - {#?z ! i#}"
    using assms by (simp add: window_def mset_fill_hole)
  moreover have "?z ! i \<in># mset ?z" using assms by (simp add: nth_mem del: nth_zip)
  ultimately show ?thesis using assms by (simp add: window_def)
qed

lemma count_parked_window:
  assumes "length (s_added_seq q) = length (s_jobs q)"
  shows "count_parked q = size (filter_mset parked (window q))"
proof -
  have "filter_mset parked (window q) = mset (filter parked (zip (s_jobs q) (s_added_seq q)))"
    unfolding window_def by (rule mset_filter [symmetric])
  then have "size (filter_mset parked (window q)) = length (filter parked (zip (s_jobs q) (s_added_seq q)))"
    by (simp only: size_mset)
  moreover have "length (filter parked (zip (s_jobs q) (s_added_seq q))) = length (filter (\<lambda>j. job_state j = RQ_FAILED) (s_jobs q))"
  proof -
    have "filter (\<lambda>j. job_state j = RQ_FAILED) (map fst (zip (s_jobs q) (s_added_seq q))) =
        map fst (filter parked (zip (s_jobs q) (s_added_seq q)))"
      by (simp add: filter_map comp_def)
    then show ?thesis using assms by (metis length_map map_fst_zip)
  qed
  ultimately show ?thesis by (simp add: count_parked_def)
qed

lemma parked_eligible:
  assumes "length (s_added_seq q) = length (s_jobs q)" and "s_active q = None" and "e \<in># window q" and "parked e"
  shows "\<exists>i < length (s_jobs q). eligible q i \<and> e = (s_jobs q ! i, s_added_seq q ! i)"
proof -
  obtain i where "i < length (s_jobs q)" "e = (s_jobs q ! i, s_added_seq q ! i)"
    using assms(1,3) by (auto simp: window_def in_set_zip)
  with assms(2,4) show ?thesis by (auto simp: eligible_def)
qed

lemma trim_loop_spec:
  assumes "length (s_added_seq q) = length (s_jobs q)" and "s_active q = None" and "k \<le> count_parked q"
  shows "\<exists>gone. window q = window (snd (trim_loop k q)) + gone \<and> size gone = k \<and>
    (\<forall>e \<in># gone. parked e \<and> (\<forall>e' \<in># window (snd (trim_loop k q)). parked e' \<longrightarrow> snd e \<le> snd e')) \<and>
    fst (trim_loop k q) = k \<and>
    s_parked_off_list (snd (trim_loop k q)) = s_parked_off_list q + int k \<and>
    length (s_added_seq (snd (trim_loop k q))) = length (s_jobs (snd (trim_loop k q)))"
  using assms
proof (induction k arbitrary: q)
  case 0
  then show ?case by simp
next
  case (Suc k)
  note lens = Suc.prems(1) and act = Suc.prems(2)
  have "filter_mset parked (window q) \<noteq> {#}"
    using Suc.prems(3) count_parked_window [OF lens] by (metis Suc_le_lessD not_less_zero size_empty)
  then obtain e where "e \<in># filter_mset parked (window q)" by (rule multiset_nonemptyE)
  then have e: "e \<in># window q" "parked e" by simp_all
  then obtain i where "i < length (s_jobs q)" "eligible q i"
    using parked_eligible [OF lens act] by blast
  then obtain v where v: "victim_loop q [0..<length (s_jobs q)] None = Some v"
    using victim_None by (cases "victim_loop q [0..<length (s_jobs q)] None") auto
  note vs = victim_Some [OF v]
  let ?e = "(s_jobs q ! v, s_added_seq q ! v)"
  let ?q = "(list_drop v q)\<lparr>s_parked_off_list := s_parked_off_list q + 1\<rparr>"
  have w: "window q = add_mset ?e (window ?q)"
    using window_drop [OF lens vs(1)] by (simp add: window_def)
  have pe: "parked ?e" using vs(2) by (simp add: eligible_def)
  have lens': "length (s_added_seq ?q) = length (s_jobs ?q)" and act': "s_active ?q = None"
    using lens act vs(1) by (simp_all add: list_drop_def)
  have "count_parked q = Suc (count_parked ?q)"
    using count_parked_window [OF lens] count_parked_window [OF lens'] w pe by simp
  then have "k \<le> count_parked ?q" using Suc.prems(3) by simp
  from Suc.IH [OF lens' act' this] obtain gone where gone: "window ?q = window (snd (trim_loop k ?q)) + gone"
    "size gone = k" "fst (trim_loop k ?q) = k"
    "\<forall>e \<in># gone. parked e \<and> (\<forall>e' \<in># window (snd (trim_loop k ?q)). parked e' \<longrightarrow> snd e \<le> snd e')"
    "s_parked_off_list (snd (trim_loop k ?q)) = s_parked_off_list ?q + int k"
    "length (s_added_seq (snd (trim_loop k ?q))) = length (s_jobs (snd (trim_loop k ?q)))"
    by blast
  have step: "trim_loop (Suc k) q = (fst (trim_loop k ?q) + 1, snd (trim_loop k ?q))"
    using v by (simp add: Let_def)
  have oldest: "snd ?e \<le> snd e'" if "e' \<in># window (snd (trim_loop k ?q))" "parked e'" for e'
  proof -
    have "e' \<in># window q" using that(1) gone(1) w by simp
    note parked_eligible [OF lens act this that(2)]
    then obtain i where "i < length (s_jobs q)" "eligible q i" "e' = (s_jobs q ! i, s_added_seq q ! i)"
      by blast
    with vs(3) [of i] show ?thesis by simp
  qed
  show ?case
    unfolding step
  proof (intro exI [of _ "add_mset ?e gone"] conjI)
    show "window q = window (snd (fst (trim_loop k ?q) + 1, snd (trim_loop k ?q))) + add_mset ?e gone"
      using w gone(1) by simp
    show "\<forall>e \<in># add_mset ?e gone. parked e \<and>
        (\<forall>e' \<in># window (snd (fst (trim_loop k ?q) + 1, snd (trim_loop k ?q))). parked e' \<longrightarrow> snd e \<le> snd e')"
      using gone(4) pe oldest by auto
  qed (use gone in simp_all)
qed

section \<open>Deadlines\<close>

lemma backoff_quarters: "4 dvd unat (rq_backoff_ms att) \<and> unat (rq_backoff_ms att) \<le> 30000"
proof -
  have "4 dvd 1000 * (2 :: nat) ^ n" for n by (intro dvd_mult2) simp
  then show ?thesis by (simp add: backoff_is_capped_doubling min_def)
qed

lemma jitter_nat:
  assumes "4 dvd b" and "b \<le> (30000 :: nat)" and "r \<le> b div 2"
  shows "3 * b \<le> 4 * (b - b div 4 + r)" and "4 * (b - b div 4 + r) \<le> 5 * b" and "b - b div 4 + r < 2 ^ 32"
proof -
  obtain k where "b = 4 * k" using assms(1) by blast
  with assms show "3 * b \<le> 4 * (b - b div 4 + r)" and "4 * (b - b div 4 + r) \<le> 5 * b"
    and "b - b div 4 + r < 2 ^ 32" by auto
qed

text \<open>
  The noise on a retry deadline stays within a quarter of the contract's curve, whatever the
  random number, and never wraps: four cameras that lost one access point spread out, and none of
  them waits longer than five quarters of the cap.
\<close>

theorem jitter_within_a_quarter:
  "3 * unat (rq_backoff_ms att) \<le> 4 * unat (jittered_backoff rnd att) \<and>
   4 * unat (jittered_backoff rnd att) \<le> 5 * unat (rq_backoff_ms att)"
proof -
  define b where "b = rq_backoff_ms att"
  define r where "r = rnd mod (b div 2 + 1)"
  note bq = backoff_quarters [of att, folded b_def]
  show ?thesis
  proof (cases "b < 4")
    case True
    then show ?thesis by (simp add: jittered_backoff_def flip: b_def)
  next
    case False
    have "unat (b div 2) = unat b div 2" by (simp add: unat_div)
    then have "unat (b div 2 + 1) = unat b div 2 + 1"
    proof -
      have "unat b div 2 < 30001" using bq by linarith
      then show ?thesis using \<open>unat (b div 2) = unat b div 2\<close> by (simp add: unat_word_ariths(1))
    qed
    then have r: "unat r \<le> unat b div 2"
      using mod_less_divisor [of "unat b div 2 + 1" "unat rnd"] by (simp add: r_def unat_mod)
    have q: "unat (b - b div 4) = unat b - unat b div 4"
    proof -
      have "b div 4 \<le> b" by (simp add: word_le_nat_alt unat_div)
      then show ?thesis by (simp add: unat_sub unat_div)
    qed
    have "unat (jittered_backoff rnd att) = unat b - unat b div 4 + unat r"
      using False q jitter_nat(3) [OF conjunct1 [OF bq] conjunct2 [OF bq] r]
      by (simp add: jittered_backoff_def unat_word_ariths(1) flip: b_def r_def)
    then show ?thesis using jitter_nat [OF conjunct1 [OF bq] conjunct2 [OF bq] r] by (simp flip: b_def)
  qed
qed

text \<open>
  The window never holds more than four parked captures after a trim, and nothing is lost by it:
  no capture with work left goes, the parked ones that go are the oldest, each is counted, and the
  number of parked captures the display shows stays what it was.
\<close>

theorem trim_keeps_the_count:
  assumes "length (s_added_seq q) = length (s_jobs q)" and "s_active q = None"
  shows "\<exists>gone. window q = window (snd (trim_parked q)) + gone \<and>
    (\<forall>e \<in># gone. parked e \<and> (\<forall>e' \<in># window (snd (trim_parked q)). parked e' \<longrightarrow> snd e \<le> snd e')) \<and>
    count_parked (snd (trim_parked q)) = min PARKED_IN_RAM_MAX (count_parked q) \<and>
    s_parked_off_list (snd (trim_parked q)) + int (count_parked (snd (trim_parked q))) =
      s_parked_off_list q + int (count_parked q)"
proof -
  let ?k = "count_parked q - PARKED_IN_RAM_MAX" and ?q = "snd (trim_parked q)"
  obtain gone where g: "window q = window ?q + gone" "size gone = ?k"
    "\<forall>e \<in># gone. parked e \<and> (\<forall>e' \<in># window ?q. parked e' \<longrightarrow> snd e \<le> snd e')"
    "s_parked_off_list ?q = s_parked_off_list q + int ?k" "length (s_added_seq ?q) = length (s_jobs ?q)"
    using trim_loop_spec [OF assms, of ?k] by (auto simp: trim_parked_def)
  have "filter_mset parked gone = gone" using g(3) by (simp add: filter_mset_eq_conv)
  then have "count_parked q = count_parked ?q + ?k"
    using count_parked_window [OF assms(1)] count_parked_window [OF g(5)] g(1,2) by simp
  then have "count_parked ?q = min PARKED_IN_RAM_MAX (count_parked q)" by auto
  with g show ?thesis by auto
qed

theorem trim_keeps_the_count_witness:
  "let j = (init_common (Some ''u'') (Some ''r'') False)\<lparr>job_state := RQ_FAILED\<rparr>;
       q = uq_boot\<lparr>s_jobs := replicate 6 j, s_added_seq := [6, 5, 4, 3, 2, 1]\<rparr>
   in count_parked (snd (trim_parked q)) = min PARKED_IN_RAM_MAX (count_parked q)"
proof -
  let ?j = "(init_common (Some ''u'') (Some ''r'') False)\<lparr>job_state := RQ_FAILED\<rparr>"
  let ?q = "uq_boot\<lparr>s_jobs := replicate 6 ?j, s_added_seq := [6, 5, 4, 3, 2, 1]\<rparr>"
  have "length (s_added_seq ?q) = length (s_jobs ?q)" "s_active ?q = None" by (simp_all add: uq_boot_def)
  from trim_keeps_the_count [OF this] show ?thesis unfolding Let_def by blast
qed

end
