(* ===== verification/Upload_Worker.thy ===== *)
theory Upload_Worker
  imports Upload_List
begin

text \<open>
  The worker and the public interface of the upload queue (\<^verbatim>\<open>firmware/p4/main/upload_queue.c\<close>).

  The worker drops the queue's lock while a step is on the network and while the card is written, and
  the shutter, the gallery and the host call in from other tasks; so each stretch of \<^verbatim>\<open>run_one_step\<close>
  between taking and giving the lock is a definition of its own, and \<open>run_one_step\<close> composes them. What
  the hardware answers is an argument: the clock, the random number, the transport's result, whether
  the card was free and whether a write landed. \<^verbatim>\<open>upload_store.c\<close>'s reading of a capture directory is the
  argument \<open>inspect\<close> of the scan.
\<close>

section \<open>The code: one step\<close>

definition ROLL_HTTP_CARD_YIELD_DETAIL :: string where
  "ROLL_HTTP_CARD_YIELD_DETAIL = ''the card went to a capture''"

definition keep_error :: "string \<Rightarrow> uq \<Rightarrow> uq" where
  "keep_error detail q = q\<lparr>s_last_error := the (rq_redact RQ_ERROR_LEN (Some detail))\<rparr>"

text \<open>Taking a job: the index, the step and the snapshot the transport gets.\<close>

definition take_job :: "int \<Rightarrow> uq \<Rightarrow> (nat \<times> rq_step \<times> rq_job) option \<times> uq" where
  "take_job now q =
    (case pick_job now q of
       None \<Rightarrow> (None, q\<lparr>s_active := None\<rparr>)
     | Some (idx, step) \<Rightarrow> (Some (idx, step, s_jobs q ! idx), q\<lparr>s_active := Some idx\<rparr>))"

definition set_deadline :: "rq_disposition \<Rightarrow> u32 \<Rightarrow> int \<Rightarrow> rq_job \<Rightarrow> rq_job" where
  "set_deadline disp rnd now job =
    (if job_state job = RQ_RETRY_WAIT
     then job\<lparr>next_attempt_ms :=
            (if disp = RQ_DISP_REREAD \<or> disp = RQ_DISP_REINIT then now
             else if disp = RQ_DISP_YIELD then now + CARD_WAIT_MS
             else now + uint (jittered_backoff rnd (attempts job)))\<rparr>
     else job)"

text \<open>
  What the job becomes when a result is booked on it, and whether its record has to be written.
\<close>

definition booked_job :: "rq_step \<Rightarrow> roll_step_result \<Rightarrow> u32 \<Rightarrow> int \<Rightarrow> rq_job \<Rightarrow> bool \<times> rq_job" where
  "booked_job step res rnd now job =
    (let disp = rq_classify_step (status res) (Some (res_code res)) (card_yielded res);
         r = book_result job step disp (res_capture_id res) (Some (res_detail res))
     in (fst r, set_deadline disp rnd now (snd r)))"

text \<open>
  The result has come back. The answer is \<open>None\<close> when the job has left the list or was to be forgotten,
  else where it lives now, what it has become, and whether its record has to be written.
\<close>

definition step_returned ::
  "nat \<Rightarrow> rq_step \<Rightarrow> rq_job \<Rightarrow> roll_step_result \<Rightarrow> u32 \<Rightarrow> int \<Rightarrow> uq \<Rightarrow> (nat \<times> rq_job \<times> bool) option \<times> uq" where
  "step_returned idx step snapshot res rnd now q =
    (let disp = rq_classify_step (status res) (Some (res_code res)) (card_yielded res);
         q1 = note_server_locked res q
     in case relocate_job idx (uuid snapshot) q1 of
          None \<Rightarrow> (None, q1\<lparr>s_forget_active := False, s_active := None\<rparr>)
        | Some i \<Rightarrow>
            if s_forget_active q1
            then (None, (list_drop i (q1\<lparr>s_forget_active := False\<rparr>))\<lparr>s_active := None\<rparr>)
            else let r = booked_job step res rnd now (s_jobs q1 ! i);
                     q2 = q1\<lparr>s_jobs := (s_jobs q1)[i := snd r]\<rparr>;
                     q3 = (if disp = RQ_DISP_HALT then q2\<lparr>s_halted := True\<rparr> else q2);
                     q4 = (if res_detail res \<noteq> [] then keep_error (res_detail res) q3 else q3)
                 in (Some (i, snd r, fst r), q4\<lparr>s_active := None\<rparr>))"

definition drop_settled :: "nat \<Rightarrow> rq_job \<Rightarrow> int \<Rightarrow> uq \<Rightarrow> uq" where
  "drop_settled idx snapshot now q =
    (if job_state snapshot = RQ_COMPLETE
     then case relocate_job idx (uuid snapshot) q of
            None \<Rightarrow> q
          | Some done_at \<Rightarrow>
              (list_drop done_at q)\<lparr>s_uploaded := s_uploaded q + 1, s_last_upload_ms := now,
                s_burst_done := s_burst_done q + 1, s_rescan := True\<rparr>
     else q)"

text \<open>The record could not be written: the card was busy, or the write failed.\<close>

definition persist_failed :: "nat \<Rightarrow> rq_job \<Rightarrow> bool \<Rightarrow> int \<Rightarrow> uq \<Rightarrow> uq" where
  "persist_failed idx snapshot busy now q =
    (let q1 = (case relocate_job idx (uuid snapshot) q of
         None \<Rightarrow> q
       | Some back_at \<Rightarrow>
           if job_state snapshot \<noteq> RQ_FAILED \<and> job_state snapshot \<noteq> RQ_COMPLETE
           then q\<lparr>s_jobs := (s_jobs q)[back_at := (s_jobs q ! back_at)\<lparr>job_state := RQ_RETRY_WAIT,
                  next_attempt_ms := now + (if busy then CARD_WAIT_MS else uint RQ_BACKOFF_CAP_MS)\<rparr>]\<rparr>
           else q)
     in keep_error (if busy then ROLL_HTTP_CARD_YIELD_DETAIL else ''UPLOAD.JSON write failed'') q1)"

definition trim_after_step :: "uq \<Rightarrow> uq" where
  "trim_after_step q =
    (let r = trim_parked q
     in if fst r > 0 \<and> s_cap_hit (snd r) then (snd r)\<lparr>s_rescan := True\<rparr> else snd r)"

text \<open>What the hardware answers during one step.\<close>

record step_env =
  t_pick :: int
  t_book :: int
  t_drop :: int
  t_back :: int
  http :: "rq_job \<Rightarrow> rq_step \<Rightarrow> roll_step_result"
  rand :: u32
  card_free :: bool
  save_ok :: "rq_job \<Rightarrow> bool"

definition after_booking :: "step_env \<Rightarrow> nat \<Rightarrow> rq_job \<Rightarrow> bool \<Rightarrow> uq \<Rightarrow> uq" where
  "after_booking env idx snapshot dirty q =
    (let q1 = drop_settled idx snapshot (t_drop env) q;
         busy = (\<not> card_free env);
         wrote = (card_free env \<and> save_ok env snapshot)
     in if dirty \<and> \<not> wrote then persist_failed idx snapshot busy (t_back env) q1
        else trim_after_step q1)"

definition run_one_step :: "step_env \<Rightarrow> uq \<Rightarrow> bool \<times> uq" where
  "run_one_step env q =
    (case take_job (t_pick env) q of
       (None, q1) \<Rightarrow> (False, q1)
     | (Some (idx, step, snapshot), q1) \<Rightarrow>
         (case step_returned idx step snapshot (http env snapshot step) (rand env) (t_book env) q1 of
            (None, q2) \<Rightarrow> (True, q2)
          | (Some (i, snap, dirty), q2) \<Rightarrow> (True, after_booking env i snap dirty q2)))"

section \<open>The code: the pass over the card\<close>

record scan_env =
  card_ok :: bool
  entries :: "string list option"
  yields :: "nat \<Rightarrow> bool"
  inspect :: "string \<Rightarrow> rq_reconcile \<times> rq_job \<times> bool"
  saves :: "rq_job \<Rightarrow> bool"

record scan_counts =
  looked_at :: nat
  parked_off :: nat
  unadmitted :: nat

definition capture_dirs :: "string list \<Rightarrow> string list" where
  "capture_dirs es = filter (\<lambda>e. pure_is_capture_dirname (Some e)) es"

text \<open>
  One directory that is not in the list: the record is read, revived if it is welcome, rewritten where
  it changed, and admitted. The flag says that the list had no room, which ends the pass.
\<close>

definition scan_entry :: "scan_env \<Rightarrow> string \<Rightarrow> scan_counts \<Rightarrow> uq \<Rightarrow> bool \<times> scan_counts \<times> uq" where
  "scan_entry env u cnt q =
    (case inspect env u of (action, job0, needs_save0) \<Rightarrow>
      if action = RQ_REC_IGNORE \<or> action = RQ_REC_UNREADABLE then (False, cnt, q)
      else let welcome = (job_state job0 = RQ_FAILED \<and> rq_park_is_transient job0 \<and> s_revive_parked q);
               job = (if welcome then rq_job_revive job0 else job0);
               needs_save = (needs_save0 \<or> welcome)
      in if needs_save \<and> \<not> saves env job then (False, cnt, q)
         else if job_state job = RQ_FAILED \<and> \<not> count_parked q < PARKED_IN_RAM_MAX
         then (False, cnt\<lparr>parked_off := parked_off cnt + 1\<rparr>, q)
         else case list_add job q of
           (True, q1) \<Rightarrow> (False, cnt, q1)
         | (False, q1) \<Rightarrow> (True, cnt\<lparr>unadmitted := unadmitted cnt + 1\<rparr>, q1))"

fun readdir_loop :: "scan_env \<Rightarrow> nat \<Rightarrow> string list \<Rightarrow> nat \<Rightarrow> scan_counts \<Rightarrow> uq \<Rightarrow> bool \<times> scan_counts \<times> uq" where
  "readdir_loop env skip [] seen cnt q = (True, cnt, q)"
| "readdir_loop env skip (e # es) seen cnt q =
    (if \<not> pure_is_capture_dirname (Some e) then readdir_loop env skip es seen cnt q
     else if seen < skip then readdir_loop env skip es (seen + 1) cnt q
     else if looked_at cnt \<ge> SCAN_MAX_DIRS then (False, cnt, q)
     else if yields env (looked_at cnt) then (False, cnt, q)
     else let cnt1 = cnt\<lparr>looked_at := looked_at cnt + 1\<rparr>; u = take 36 e
     in if find_job u q \<noteq> None then readdir_loop env skip es (seen + 1) cnt1 q
        else case scan_entry env u cnt1 q of
          (True, cnt2, q1) \<Rightarrow> (False, cnt2, q1)
        | (False, cnt2, q1) \<Rightarrow> readdir_loop env skip es (seen + 1) cnt2 q1)"

definition scan_finish :: "bool \<Rightarrow> scan_counts \<Rightarrow> uq \<Rightarrow> uq" where
  "scan_finish reached_end cnt q =
    (let q1 = q\<lparr>s_scan := rq_scan_pass_done (of_nat (looked_at cnt)) (of_nat (unadmitted cnt)) reached_end (s_scan q)\<rparr>;
         q2 = (if rq_scan_more (s_scan q1) then q1\<lparr>s_rescan := True\<rparr> else q1)
     in if \<not> reached_end then q2
        else let q3 = q2\<lparr>s_parked_off_list := int (parked_off cnt)\<rparr>
        in if parked_off cnt > 0 \<and> \<not> s_revive_parked q3 \<and>
              s_server_state q3 \<noteq> UPLOAD_SERVER_UNREACHABLE \<and> \<not> s_boot_revived q3
           then q3\<lparr>s_boot_revived := True, s_revive_parked := True, s_rescan := True\<rparr>
           else q3)"

definition no_counts :: scan_counts where
  "no_counts = \<lparr>looked_at = 0, parked_off = 0, unadmitted = 0\<rparr>"

definition queue_scan :: "scan_env \<Rightarrow> uq \<Rightarrow> bool \<times> uq" where
  "queue_scan env q =
    (let q1 = (if s_parked_off_list q = 0 then q\<lparr>s_revive_parked := False\<rparr> else q)
     in if \<not> card_ok env then (False, q1\<lparr>s_rescan := True\<rparr>)
        else case entries env of
          None \<Rightarrow> (True, q1)
        | Some es \<Rightarrow>
            (let skip = unat (rq_scan_skip (s_scan q1));
                 q2 = q1\<lparr>s_cap_hit := False, s_rescan := False\<rparr>
             in case readdir_loop env skip es 0 no_counts q2 of
                  (reached_end, cnt, q3) \<Rightarrow> (True, scan_finish reached_end cnt q3)))"

section \<open>The code: the public interface\<close>

datatype esp_err =
  ESP_OK | ESP_FAIL | ESP_ERR_NO_MEM | ESP_ERR_INVALID_ARG | ESP_ERR_INVALID_STATE | ESP_ERR_TIMEOUT
  | ESP_ERR_INVALID_RESPONSE

text \<open>The locked stretch of an enqueue, after the record has been written.\<close>

definition enqueue_admit :: "rq_job \<Rightarrow> uq \<Rightarrow> esp_err \<times> uq" where
  "enqueue_admit job q =
    (let (err, q1) =
      (if find_job (uuid job) q = None
       then (case list_add job q of
               (True, q1) \<Rightarrow> (ESP_OK, q1)
             | (False, q1) \<Rightarrow> (ESP_ERR_NO_MEM, q1\<lparr>s_rescan := True\<rparr>))
       else (ESP_OK, q))
     in (err, q1\<lparr>s_scan := rq_scan_card_changed (s_scan q1), s_rescan := True\<rparr>))"

definition upload_queue_enqueue_slots ::
  "bool \<Rightarrow> (rq_job \<Rightarrow> bool) \<Rightarrow> string option \<Rightarrow> string option \<Rightarrow> u8 list option \<Rightarrow> int \<Rightarrow> bool \<Rightarrow> uq \<Rightarrow> esp_err \<times> uq" where
  "upload_queue_enqueue_slots got_card saved capture_uuid rid slots n thumb q =
    (if \<not> pure_is_capture_dirname capture_uuid then (ESP_ERR_INVALID_ARG, q)
     else if rid = None \<or> rid = Some [] then (ESP_OK, q)
     else case rq_job_init_slots capture_uuid rid slots n thumb of
       (False, _) \<Rightarrow> (ESP_ERR_INVALID_ARG, q)
     | (True, job) \<Rightarrow>
         if \<not> got_card then (ESP_ERR_TIMEOUT, q)
         else if \<not> saved job then (ESP_FAIL, q)
         else enqueue_admit job q)"

text \<open>The Roll and the frames the capture's metadata names are arguments: \<^verbatim>\<open>upload_store.c\<close> reads them.\<close>

definition upload_queue_enqueue ::
  "bool \<Rightarrow> (rq_job \<Rightarrow> bool) \<Rightarrow> string option \<Rightarrow> u8 list option \<Rightarrow> string option \<Rightarrow> bool \<Rightarrow> uq \<Rightarrow> esp_err \<times> uq" where
  "upload_queue_enqueue got_card saved meta_roll meta_frames capture_uuid thumb q =
    (if \<not> pure_is_capture_dirname capture_uuid then (ESP_ERR_INVALID_ARG, q)
     else case meta_roll of
       None \<Rightarrow> (ESP_ERR_INVALID_STATE, q)
     | Some r \<Rightarrow>
         (case meta_frames of
            None \<Rightarrow> (ESP_ERR_INVALID_RESPONSE, q)
          | Some fs \<Rightarrow>
              upload_queue_enqueue_slots got_card saved capture_uuid (Some r) (Some fs) (int (length fs)) thumb q))"

record capture_report =
  rep_ok :: bool
  rep_stored :: int
  rep_uuid :: string
  rep_roll_id :: string
  rep_cam :: "bool list"

definition report_slots :: "bool list \<Rightarrow> u8 list" where
  "report_slots cams = take RQ_MAX_FRAMES (map (\<lambda>i. of_nat (i + 1)) (filter (\<lambda>i. cams ! i) [0..<length cams]))"

definition on_capture_done :: "bool \<Rightarrow> (rq_job \<Rightarrow> bool) \<Rightarrow> bool \<Rightarrow> capture_report \<Rightarrow> uq \<Rightarrow> uq" where
  "on_capture_done got_card saved has_thumb r q =
    (if \<not> rep_ok r \<or> rep_stored r \<le> 0 then q
     else if rep_roll_id r = [] then q
     else let slots = report_slots (rep_cam r)
     in snd (upload_queue_enqueue_slots got_card saved (Some (rep_uuid r)) (Some (rep_roll_id r))
               (Some slots) (int (length slots)) has_thumb q))"

definition upload_queue_forget :: "string \<Rightarrow> uq \<Rightarrow> uq" where
  "upload_queue_forget capture_uuid q =
    (let idx = find_job capture_uuid q;
         q1 = (case rq_forget_action (idx \<noteq> None) (idx \<noteq> None \<and> idx = s_active q) of
             RQ_FORGET_NOW \<Rightarrow> list_drop (the idx) q
           | RQ_FORGET_AFTER_STEP \<Rightarrow> q\<lparr>s_forget_active := True\<rparr>
           | RQ_FORGET_NONE \<Rightarrow> q)
     in q1\<lparr>s_scan := rq_scan_card_changed (s_scan q1), s_rescan := True\<rparr>)"

record upload_queue_report =
  rpt_pending :: int
  rpt_uploading :: int
  rpt_failed :: int
  rpt_uploaded :: int
  rpt_card_pending :: int
  rpt_scan_complete :: bool
  rpt_draining :: bool
  rpt_halted :: bool
  rpt_server_state :: upload_server_state
  rpt_last_upload_ms :: int
  rpt_burst_done :: int
  rpt_last_error :: string

definition upload_queue_status :: "bool \<Rightarrow> bool \<Rightarrow> uq \<Rightarrow> upload_queue_report \<times> uq" where
  "upload_queue_status capture_active maint_active q =
    (let idxs = [0..<length (s_jobs q)];
         failed = length (filter (\<lambda>i. job_state (s_jobs q ! i) = RQ_FAILED) idxs);
         pending = length (filter (\<lambda>i. job_state (s_jobs q ! i) \<noteq> RQ_FAILED \<and> Some i \<noteq> s_active q) idxs);
         card = uint (card_pending (s_scan q));
         q1 = (if int pending + card = 0 \<and> s_active q = None then q\<lparr>s_burst_done := 0\<rparr> else q)
     in (\<lparr>rpt_pending = int pending,
          rpt_uploading = (if s_active q \<noteq> None then 1 else 0),
          rpt_failed = int failed + s_parked_off_list q,
          rpt_uploaded = s_uploaded q,
          rpt_card_pending = card,
          rpt_scan_complete = (cycle_complete (s_scan q) \<and> \<not> rq_scan_more (s_scan q)),
          rpt_draining = (\<not> capture_active \<and> \<not> maint_active \<and> s_net_ready q \<and> \<not> s_halted q \<and>
            (pending > 0 \<or> s_active q \<noteq> None)),
          rpt_halted = s_halted q,
          rpt_server_state = s_server_state q,
          rpt_last_upload_ms = s_last_upload_ms q,
          rpt_burst_done = s_burst_done q1,
          rpt_last_error = s_last_error q\<rparr>, q1))"

definition upload_queue_network_restored :: "uq \<Rightarrow> uq" where
  "upload_queue_network_restored q =
    revive_transient_locked
      (q\<lparr>s_jobs := map (\<lambda>j. if job_state j \<noteq> RQ_RETRY_WAIT then j else rq_job_network_restored j) (s_jobs q)\<rparr>)"

definition upload_queue_retry_all :: "uq \<Rightarrow> int \<times> uq" where
  "upload_queue_retry_all q =
    (let again = (\<lambda>j. job_state j = RQ_RETRY_WAIT \<or> job_state j = RQ_FAILED);
         q1 = q\<lparr>s_jobs := map (\<lambda>j. if again j then rq_job_revive j else j) (s_jobs q),
                s_halted := False, s_last_error := []\<rparr>
     in (int (length (filter again (s_jobs q))),
         if s_parked_off_list q1 > 0 then q1\<lparr>s_revive_parked := True, s_rescan := True\<rparr> else q1))"

section \<open>The code: the worker task\<close>

definition server_number :: "upload_server_state \<Rightarrow> int" where
  "server_number s = (case s of UPLOAD_SERVER_UNKNOWN \<Rightarrow> 0 | UPLOAD_SERVER_REACHABLE \<Rightarrow> 1
     | UPLOAD_SERVER_UNREACHABLE \<Rightarrow> 2)"

text \<open>The heartbeat: the facts, whether one was sent, and the heartbeat state after it.\<close>

definition heartbeat_facts :: "upload_queue_report \<Rightarrow> rq_hb_facts" where
  "heartbeat_facts rep = \<lparr>hb_pending = rpt_pending rep + rpt_card_pending rep,
     hb_uploading = rpt_uploading rep, hb_failed = rpt_failed rep, hb_halted = rpt_halted rep,
     hb_server_state = server_number (rpt_server_state rep)\<rparr>"

definition heartbeat_tick ::
  "bool \<Rightarrow> bool \<Rightarrow> bool \<Rightarrow> int \<Rightarrow> rq_hb_state \<times> uq \<Rightarrow> rq_hb_facts option \<times> rq_hb_state \<times> uq" where
  "heartbeat_tick capture_active maint_active joined now s =
    (case s of (hb, q) \<Rightarrow>
      (case upload_queue_status capture_active maint_active q of (rep, q1) \<Rightarrow>
        (let facts = heartbeat_facts rep
         in if \<not> rq_heartbeat_due hb facts joined (s_net_ready q1) now then (None, hb, q1)
            else (Some facts, rq_heartbeat_sent hb facts now, q1))))"

datatype worker_act = Wait_Paused | Wait_Idle | Again

record round_env =
  capture_active :: bool
  maint_active :: bool
  net_ready :: bool
  roll_joined :: bool
  t_round :: int
  t_probe :: int
  step_part :: step_env
  scan_part :: scan_env

definition worker_round :: "round_env \<Rightarrow> rq_hb_state \<times> uq \<Rightarrow> worker_act \<times> rq_hb_state \<times> uq" where
  "worker_round env s =
    (if capture_active env \<or> maint_active env then (Wait_Paused, s)
     else let q0 = (snd s)\<lparr>s_net_ready := net_ready env\<rparr>
     in case heartbeat_tick (capture_active env) (maint_active env) (roll_joined env) (t_round env) (fst s, q0) of
       (_, hb, q1) \<Rightarrow>
         if \<not> net_ready env \<or> s_halted q1 then (Wait_Idle, hb, q1)
         else case run_one_step (step_part env) q1 of
           (True, q2) \<Rightarrow> (Again, hb, q2)
         | (False, q2) \<Rightarrow>
             (case (if s_rescan q2 then (False, q2) else maybe_probe_parked (t_probe env) q2) of
                (True, q3) \<Rightarrow> (Again, hb, q3)
              | (False, q3) \<Rightarrow>
                  if s_rescan q3
                  then (case queue_scan (scan_part env) q3 of
                          (True, q4) \<Rightarrow> (Again, hb, q4) | (False, q4) \<Rightarrow> (Wait_Idle, hb, q4))
                  else (Wait_Idle, hb, q3)))"

section \<open>What the operations keep\<close>

lemma revive_uuid [simp]: "uuid (rq_job_revive j) = uuid j"
  by (simp add: rq_job_revive_def)

lemma restored_uuid [simp]: "uuid (rq_job_network_restored j) = uuid j"
  by (simp add: rq_job_network_restored_def)

lemma restored_ok: "job_ok j \<Longrightarrow> job_ok (rq_job_network_restored j)"
  by (simp add: rq_job_network_restored_def deadline_ok)

lemma apply_ok_uuid: "uuid (snd (apply_ok j s)) = uuid j"
  by (simp add: apply_ok_def Let_def split: rq_step_kind.split option.split)

lemma rq_apply_uuid: "uuid (snd (rq_apply j s d det)) = uuid j"
  by (simp add: rq_apply_def apply_ok_uuid apply_rerun_def Let_def split: rq_disposition.split)

lemma book_result_uuid: "uuid (snd (book_result j s d sid det)) = uuid j"
  unfolding book_result_def rq_apply_uuid by simp

lemma booked_job_uuid [simp]: "uuid (snd (booked_job s res rnd now j)) = uuid j"
  by (simp add: booked_job_def set_deadline_def book_result_uuid Let_def)

lemma revive_if_transient_uuid [simp]: "uuid (revive_if_transient j) = uuid j"
  by (simp add: revive_if_transient_def)

lemma uuids_cong: "s_jobs p = s_jobs q \<Longrightarrow> uuids p = uuids q"
  by (simp add: uuids_def)

lemma uq_ok_cong:
  "s_jobs p = s_jobs q \<Longrightarrow> length (s_added_seq p) = length (s_added_seq q) \<Longrightarrow> uq_ok p = uq_ok q"
  by (simp add: uq_ok_def uuids_def)

text \<open>Rewriting the jobs one by one, their names kept.\<close>

lemma uq_ok_map:
  assumes "uq_ok q" and "\<And>j. uuid (f j) = uuid j" and "\<And>j. j \<in> set (s_jobs q) \<Longrightarrow> job_ok (f j)"
    and "s_jobs p = map f (s_jobs q)" and "length (s_added_seq p) = length (s_added_seq q)"
  shows "uq_ok p"
proof -
  have "uuids p = uuids q" using assms(2,4) by (simp add: uuids_def comp_def)
  with assms show ?thesis by (auto simp: uq_ok_def)
qed

lemma update_as_map:
  assumes "distinct (map f xs)" and "i < length xs"
  shows "xs[i := g (xs ! i)] = map (\<lambda>x. if f x = f (xs ! i) then g x else x) xs"
proof (rule nth_equalityI)
  fix k assume "k < length (xs[i := g (xs ! i)])"
  then have k: "k < length xs" by simp
  have "f (xs ! k) = f (xs ! i) \<longleftrightarrow> k = i"
    using nth_eq_iff_index_eq [OF assms(1), of k i] k assms(2) by simp
  with k show "xs[i := g (xs ! i)] ! k = map (\<lambda>x. if f x = f (xs ! i) then g x else x) xs ! k"
    by (simp add: nth_list_update)
qed simp

lemma set_update_other:
  assumes "distinct (map f xs)" and "k < length xs" and "f y = f (xs ! k)" and "x \<in> set (xs[k := y])"
  shows "x = y \<or> x \<in> set xs \<and> f x \<noteq> f y"
proof -
  obtain m where m: "m < length xs" "x = xs[k := y] ! m"
    using assms(4) by (auto simp: in_set_conv_nth)
  show ?thesis
  proof (cases "m = k")
    case True
    with m assms(2) show ?thesis by simp
  next
    case False
    with nth_eq_iff_index_eq [OF assms(1), of m k] m assms(2,3) show ?thesis by simp
  qed
qed

lemma update_job_as_map:
  assumes "distinct (uuids q)" and "i < length (s_jobs q)"
  shows "(s_jobs q)[i := g (s_jobs q ! i)] = map (\<lambda>j. if uuid j = uuid (s_jobs q ! i) then g j else j) (s_jobs q)"
  using update_as_map [of uuid "s_jobs q" i g] assms by (simp add: uuids_def)

subsection \<open>News of the server\<close>

lemma note_server_jobs:
  "s_jobs (note_server_locked res q) = s_jobs q \<or>
   s_jobs (note_server_locked res q) = map revive_if_transient (s_jobs q)"
  by (simp add: note_server_locked_def revive_transient_locked_def Let_def)

lemma note_server_fields [simp]:
  "s_added_seq (note_server_locked res q) = s_added_seq q"
  "s_forget_active (note_server_locked res q) = s_forget_active q"
  "s_active (note_server_locked res q) = s_active q"
  "uuids (note_server_locked res q) = uuids q"
  "length (s_jobs (note_server_locked res q)) = length (s_jobs q)"
  by (simp_all add: note_server_locked_def revive_transient_locked_def Let_def uuids_def comp_def)

lemma revive_if_transient_ok: "job_ok j \<Longrightarrow> job_ok (revive_if_transient j)"
  by (simp add: revive_if_transient_def revive_ok)

lemma note_server_ok: "uq_ok q \<Longrightarrow> uq_ok (note_server_locked res q)"
  using note_server_jobs [of res q] uq_ok_cong [of "note_server_locked res q" q]
    uq_ok_map [of q revive_if_transient "note_server_locked res q"]
  by (auto simp: uq_ok_def revive_if_transient_ok)

section \<open>Results reach their job\<close>

text \<open>
  C9: the result of a step is booked on the job it belongs to, wherever the list has moved that job
  while the step was on the network: if its capture is still in the window and was not deleted,
  exactly the entry of that capture changes, to what booking the result makes of its live record,
  and every other entry is what it was (after the news that the server answered).
\<close>

theorem result_reaches_its_job:
  assumes "uq_ok q" and "uuid snapshot \<in> set (uuids q)" and "\<not> s_forget_active q"
  shows "s_jobs (snd (step_returned idx step snapshot res rnd now q)) =
    map (\<lambda>j. if uuid j = uuid snapshot then snd (booked_job step res rnd now j) else j)
      (s_jobs (note_server_locked res q))"
proof -
  let ?q = "note_server_locked res q"
  obtain i where i: "relocate_job idx (uuid snapshot) ?q = Some i"
    using assms(2) relocate_None [of idx "uuid snapshot" ?q] by auto
  note at = relocate_Some [OF i]
  have "s_jobs (snd (step_returned idx step snapshot res rnd now q)) =
      (s_jobs ?q)[i := snd (booked_job step res rnd now (s_jobs ?q ! i))]"
    using i assms(3) by (simp add: step_returned_def Let_def keep_error_def)
  also have "\<dots> = map (\<lambda>j. if uuid j = uuid snapshot then snd (booked_job step res rnd now j) else j) (s_jobs ?q)"
    using update_job_as_map [of ?q i "\<lambda>j. snd (booked_job step res rnd now j)"] at assms(1)
    by (simp add: uq_ok_def)
  finally show ?thesis .
qed

theorem result_reaches_its_job_witness:
  "let j = snd (rq_job_init_slots (Some ''u'') (Some ''r'') (Some [1]) 1 False);
       q = uq_boot\<lparr>s_jobs := [j], s_added_seq := [1]\<rparr>;
       res = \<lparr>status = 201, res_capture_id = ''c'', res_detail = [], res_code = [], card_yielded = False\<rparr>
   in s_jobs (snd (step_returned 7 (rq_next_step j 0) j res 0 0 q)) =
      map (\<lambda>k. if uuid k = uuid j then snd (booked_job (rq_next_step j 0) res 0 0 k) else k)
        (s_jobs (note_server_locked res q))"
proof -
  let ?j = "snd (rq_job_init_slots (Some ''u'') (Some ''r'') (Some [1]) 1 False)"
  let ?q = "uq_boot\<lparr>s_jobs := [?j], s_added_seq := [1]\<rparr>"
  have "job_ok ?j" by (rule init_slots_ok) simp
  then have "uq_ok ?q" by (simp add: uq_ok_def uuids_def UPLOAD_QUEUE_MAX_def)
  moreover have "uuid ?j \<in> set (uuids ?q)" "\<not> s_forget_active ?q" by (simp_all add: uuids_def uq_boot_def)
  ultimately show ?thesis unfolding Let_def by (rule result_reaches_its_job)
qed

section \<open>Everything that can happen to the queue\<close>

text \<open>Where the worker is between two locked stretches.\<close>

datatype phase =
    At_Rest
  | In_Flight nat rq_step rq_job
  | To_Drop nat rq_job bool
  | To_Persist nat rq_job bool

text \<open>A card whose records are well formed, carry the name of their directory, and are not settled.\<close>

definition sane_scan :: "scan_env \<Rightarrow> bool" where
  "sane_scan env \<longleftrightarrow> (\<forall>u a j s. inspect env u = (a, j, s) \<and> a \<noteq> RQ_REC_IGNORE \<and> a \<noteq> RQ_REC_UNREADABLE \<longrightarrow>
     uuid j = u \<and> job_ok j \<and> job_state j \<noteq> RQ_COMPLETE)"

text \<open>
  The stretches of the worker, in its order, interleaved in every way with what the other tasks do: a
  capture is enqueued or deleted, the network returns, the user retries, someone asks for the status.
  A pass over the card runs between two steps.
\<close>

inductive uq_reach :: "uq \<Rightarrow> phase \<Rightarrow> bool" where
  boot: "uq_reach uq_boot At_Rest"
| idle: "uq_reach q At_Rest \<Longrightarrow> take_job now q = (None, q') \<Longrightarrow> uq_reach q' At_Rest"
| taken: "uq_reach q At_Rest \<Longrightarrow> take_job now q = (Some (i, s, j), q') \<Longrightarrow> uq_reach q' (In_Flight i s j)"
| lost: "uq_reach q (In_Flight i s j) \<Longrightarrow> step_returned i s j res rnd now q = (None, q') \<Longrightarrow> uq_reach q' At_Rest"
| returned: "uq_reach q (In_Flight i s j) \<Longrightarrow> step_returned i s j res rnd now q = (Some (k, j', d), q') \<Longrightarrow>
    uq_reach q' (To_Drop k j' d)"
| dropped: "uq_reach q (To_Drop k j d) \<Longrightarrow> uq_reach (drop_settled k j now q) (To_Persist k j d)"
| unwritten: "uq_reach q (To_Persist k j True) \<Longrightarrow> uq_reach (persist_failed k j busy now q) At_Rest"
| written: "uq_reach q (To_Persist k j d) \<Longrightarrow> uq_reach (trim_after_step q) At_Rest"
| probed: "uq_reach q At_Rest \<Longrightarrow> uq_reach (snd (maybe_probe_parked now q)) At_Rest"
| scanned: "uq_reach q At_Rest \<Longrightarrow> sane_scan env \<Longrightarrow> uq_reach (snd (queue_scan env q)) At_Rest"
| enqueued: "uq_reach q ph \<Longrightarrow> length fs = nat n \<Longrightarrow>
    uq_reach (snd (upload_queue_enqueue_slots got saved u r (Some fs) n t q)) ph"
| forgotten: "uq_reach q ph \<Longrightarrow> uq_reach (upload_queue_forget u q) ph"
| restored: "uq_reach q ph \<Longrightarrow> uq_reach (upload_queue_network_restored q) ph"
| retried: "uq_reach q ph \<Longrightarrow> uq_reach (snd (upload_queue_retry_all q)) ph"
| asked: "uq_reach q ph \<Longrightarrow> uq_reach (snd (upload_queue_status cap maint q)) ph"

text \<open>
  How a job of the window relates to where the worker is: a complete job is there only while the
  worker is about to drop it, and a job whose unsettled result is being written has not been parked
  meanwhile.
\<close>

definition fits :: "phase \<Rightarrow> rq_job \<Rightarrow> bool" where
  "fits ph j \<longleftrightarrow>
    (case ph of
       To_Drop k s d \<Rightarrow>
         (job_state j = RQ_COMPLETE \<longrightarrow> uuid s = uuid j \<and> job_state s = RQ_COMPLETE) \<and>
         (job_state j = RQ_FAILED \<and> uuid s = uuid j \<longrightarrow> job_state s \<in> {RQ_FAILED, RQ_COMPLETE})
     | To_Persist k s d \<Rightarrow>
         job_state j \<noteq> RQ_COMPLETE \<and>
         (job_state j = RQ_FAILED \<and> uuid s = uuid j \<longrightarrow> job_state s \<in> {RQ_FAILED, RQ_COMPLETE})
     | _ \<Rightarrow> job_state j \<noteq> RQ_COMPLETE)"

definition uq_inv :: "phase \<Rightarrow> uq \<Rightarrow> bool" where
  "uq_inv ph q \<longleftrightarrow> uq_ok q \<and> (\<forall>j \<in> set (s_jobs q). fits ph j)"

lemma fits_calm:
  "fits ph j \<Longrightarrow> uuid k = uuid j \<Longrightarrow> job_state k = job_state j \<or> job_state k \<notin> {RQ_COMPLETE, RQ_FAILED} \<Longrightarrow>
    fits ph k"
  by (auto simp: fits_def split: phase.splits)

lemma fits_fresh: "job_state j \<notin> {RQ_COMPLETE, RQ_FAILED} \<Longrightarrow> fits ph j"
  by (simp add: fits_def split: phase.split)

lemma uq_inv_same:
  "uq_inv ph q \<Longrightarrow> s_jobs p = s_jobs q \<Longrightarrow> length (s_added_seq p) = length (s_added_seq q) \<Longrightarrow> uq_inv ph p"
  using uq_ok_cong [of p q] by (simp add: uq_inv_def)

lemma uq_inv_map:
  assumes "uq_inv ph q" and "\<And>j. uuid (f j) = uuid j" and "\<And>j. job_ok j \<Longrightarrow> job_ok (f j)"
    and "\<And>j. job_state (f j) = job_state j \<or> job_state (f j) \<notin> {RQ_COMPLETE, RQ_FAILED}"
    and "s_jobs p = map f (s_jobs q)" and "length (s_added_seq p) = length (s_added_seq q)"
  shows "uq_inv ph p"
proof -
  have "uq_ok p"
    using assms(1) by (intro uq_ok_map [OF _ assms(2) _ assms(5,6)]) (auto simp: uq_inv_def uq_ok_def assms(3))
  moreover have "fits ph (f j)" if "j \<in> set (s_jobs q)" for j
    using assms(1) that fits_calm [OF _ assms(2,4)] by (simp add: uq_inv_def)
  ultimately show ?thesis by (simp add: uq_inv_def assms(5))
qed

lemma uq_inv_update:
  assumes "uq_inv ph q" and "i < length (s_jobs q)" and "uuid k = uuid (s_jobs q ! i)" and "job_ok k"
    and "fits ph k" and "s_jobs p = (s_jobs q)[i := k]" and "length (s_added_seq p) = length (s_added_seq q)"
  shows "uq_inv ph p"
proof -
  have "uuids p = uuids q"
    using assms(2,3) by (simp add: uuids_def assms(6) map_update list_update_same_conv)
  moreover have "set (s_jobs p) \<subseteq> insert k (set (s_jobs q))"
    unfolding assms(6) by (rule set_update_subset_insert)
  ultimately show ?thesis
    using assms(1,4,5,6,7) by (auto simp: uq_inv_def uq_ok_def)
qed

lemma list_drop_subset: "set (s_jobs (list_drop i q)) \<subseteq> set (s_jobs q)"
proof (cases "i < length (s_jobs q)")
  case True
  then show ?thesis using list_drop_mset [OF True] by (metis in_diffD set_mset_mset subsetI)
qed (simp add: list_drop_def)

lemma list_drop_inv: "uq_inv ph q \<Longrightarrow> uq_inv ph (list_drop i q)"
  using list_drop_ok [of q i] list_drop_subset [of i q] by (auto simp: uq_inv_def)

lemma list_add_inv:
  "uq_inv ph q \<Longrightarrow> job_ok j \<Longrightarrow> uuid j \<notin> set (uuids q) \<Longrightarrow> fits ph j \<Longrightarrow> uq_inv ph (snd (list_add j q))"
  using list_add_ok [of q j] by (auto simp: uq_inv_def list_add_def)

lemma revive_state: "job_state (rq_job_revive j) = RQ_RETRY_WAIT"
  by (simp add: rq_job_revive_def)

lemma revive_if_transient_state:
  "job_state (revive_if_transient j) = (if rq_park_is_transient j then RQ_RETRY_WAIT else job_state j)"
  by (simp add: revive_if_transient_def revive_state)

lemma note_server_inv:
  assumes "uq_inv ph q" shows "uq_inv ph (note_server_locked res q)"
  using note_server_jobs [of res q]
proof
  assume "s_jobs (note_server_locked res q) = s_jobs q"
  with assms show ?thesis by (rule uq_inv_same) simp
next
  assume "s_jobs (note_server_locked res q) = map revive_if_transient (s_jobs q)"
  then show ?thesis
    by (rule uq_inv_map [OF assms, rotated 3])
      (simp_all add: revive_if_transient_ok revive_if_transient_state)
qed

subsection \<open>The worker's stretches\<close>

lemma take_job_inv: "uq_inv At_Rest q \<Longrightarrow> take_job now q = (r, q') \<Longrightarrow> uq_inv At_Rest q'"
  by (erule uq_inv_same) (auto simp: take_job_def split: option.splits prod.splits)

lemma in_flight_inv: "uq_inv (In_Flight i s j) q = uq_inv At_Rest q"
  by (simp add: uq_inv_def fits_def)

lemma booked_job_ok: "job_ok j \<Longrightarrow> job_ok (snd (booked_job s res rnd now j))"
  by (simp add: booked_job_def set_deadline_def book_result_ok deadline_ok Let_def)

lemma step_lost_inv:
  assumes "uq_inv At_Rest q" and "step_returned i s j res rnd now q = (None, q')"
  shows "uq_inv At_Rest q'"
proof -
  let ?n = "note_server_locked res q"
  note n = note_server_inv [OF assms(1), of res]
  show ?thesis
  proof (cases "relocate_job i (uuid j) ?n")
    case None
    with assms(2) have "q' = ?n\<lparr>s_forget_active := False, s_active := None\<rparr>"
      by (auto simp: step_returned_def Let_def)
    then show ?thesis by (intro uq_inv_same [OF n]) simp_all
  next
    case (Some k)
    with assms(2) have q': "q' = (list_drop k (?n\<lparr>s_forget_active := False\<rparr>))\<lparr>s_active := None\<rparr>"
      by (auto simp: step_returned_def Let_def split: if_splits)
    have "uq_inv At_Rest (?n\<lparr>s_forget_active := False\<rparr>)" by (rule uq_inv_same [OF n]) simp_all
    from list_drop_inv [OF this] show ?thesis unfolding q' by (rule uq_inv_same) simp_all
  qed
qed

lemma step_booked_inv:
  assumes "uq_inv At_Rest q" and "step_returned i s j res rnd now q = (Some (k, j', d), q')"
  shows "uq_inv (To_Drop k j' d) q'"
proof -
  let ?n = "note_server_locked res q"
  note n = note_server_inv [OF assms(1), of res]
  have k: "relocate_job i (uuid j) ?n = Some k" and j': "j' = snd (booked_job s res rnd now (s_jobs ?n ! k))"
    and q': "s_jobs q' = (s_jobs ?n)[k := j']" "s_added_seq q' = s_added_seq ?n"
    using assms(2) by (auto simp: step_returned_def Let_def keep_error_def split: option.splits if_splits)
  note at = relocate_Some [OF k]
  have rest: "job_state x \<noteq> RQ_COMPLETE" if "x \<in> set (s_jobs ?n)" for x
    using n that by (auto simp: uq_inv_def fits_def)
  have other: "uq_inv (To_Drop k j' d) (?n\<lparr>s_jobs := (s_jobs ?n)[k := j']\<rparr>)"
  proof -
    have ok: "job_ok j'" and nm: "uuid j' = uuid (s_jobs ?n ! k)"
      using n at by (simp_all add: j' booked_job_ok uq_inv_def uq_ok_def)
    have un: "uuids (?n\<lparr>s_jobs := (s_jobs ?n)[k := j']\<rparr>) = uuids ?n"
      using at nm by (simp add: uuids_def map_update list_update_same_conv)
    have dist: "distinct (map uuid (s_jobs ?n))" using n by (simp add: uq_inv_def uq_ok_def uuids_def)
    have "fits (To_Drop k j' d) x" if "x \<in> set ((s_jobs ?n)[k := j'])" for x
      using set_update_other [OF dist _ nm that] at rest by (auto simp: fits_def)
    moreover have "uq_ok (?n\<lparr>s_jobs := (s_jobs ?n)[k := j']\<rparr>)"
      using n ok un set_update_subset_insert [of "s_jobs ?n" k j'] by (auto simp: uq_inv_def uq_ok_def)
    ultimately show ?thesis by (simp add: uq_inv_def)
  qed
  show ?thesis by (rule uq_inv_same [OF other]) (simp_all add: q')
qed

lemma drop_settled_inv:
  assumes "uq_inv (To_Drop k j d) q"
  shows "uq_inv (To_Persist k j d) (drop_settled k j now q)"
proof (cases "job_state j = RQ_COMPLETE")
  case False
  then show ?thesis using assms by (auto simp: drop_settled_def uq_inv_def fits_def)
next
  case True
  have later: "uq_inv (To_Persist k j d) p" if "uq_ok p" "set (s_jobs p) \<subseteq> set (s_jobs q)" "uuid j \<notin> set (uuids p)" for p
  proof -
    have "fits (To_Persist k j d) x" if x: "x \<in> set (s_jobs p)" for x
    proof -
      have "fits (To_Drop k j d) x" using assms that \<open>set (s_jobs p) \<subseteq> set (s_jobs q)\<close> by (auto simp: uq_inv_def)
      moreover have "uuid x \<in> set (uuids p)" using x by (simp add: uuids_def)
      then have "uuid x \<noteq> uuid j" using \<open>uuid j \<notin> set (uuids p)\<close> by auto
      ultimately show ?thesis by (auto simp: fits_def)
    qed
    with that(1) show ?thesis by (simp add: uq_inv_def)
  qed
  have ok: "uq_ok q" using assms by (simp add: uq_inv_def)
  show ?thesis
  proof (cases "relocate_job k (uuid j) q")
    case None
    then show ?thesis using True later [OF ok] relocate_None [of k "uuid j" q] by (simp add: drop_settled_def)
  next
    case (Some i)
    have at: "i < length (s_jobs q)" "uuid (s_jobs q ! i) = uuid j" using relocate_Some [OF Some] by auto
    have "uuid j \<notin> set (uuids (list_drop i q))"
      using list_drop_uuids(1) [of q i] at ok by (simp add: uq_ok_def)
    from later [OF list_drop_ok [OF ok] list_drop_subset this]
    have inv: "uq_inv (To_Persist k j d) (list_drop i q)" .
    have "drop_settled k j now q = (list_drop i q)\<lparr>s_uploaded := s_uploaded q + 1, s_last_upload_ms := now,
        s_burst_done := s_burst_done q + 1, s_rescan := True\<rparr>"
      using Some True by (simp add: drop_settled_def)
    then show ?thesis using uq_inv_same [OF inv] by simp
  qed
qed

lemma persist_failed_inv:
  assumes "uq_inv (To_Persist k j True) q" shows "uq_inv At_Rest (persist_failed k j busy now q)"
proof -
  have rest: "uq_inv At_Rest q" using assms by (auto simp: uq_inv_def fits_def)
  show ?thesis
  proof (cases "relocate_job k (uuid j) q = None \<or> job_state j = RQ_FAILED \<or> job_state j = RQ_COMPLETE")
    case True
    then have "s_jobs (persist_failed k j busy now q) = s_jobs q"
      by (auto simp: persist_failed_def keep_error_def Let_def split: option.split)
    moreover have "s_added_seq (persist_failed k j busy now q) = s_added_seq q"
      by (simp add: persist_failed_def keep_error_def Let_def split: option.split)
    ultimately show ?thesis by (intro uq_inv_same [OF rest]) simp_all
  next
    case False
    then obtain i where i: "relocate_job k (uuid j) q = Some i" by auto
    note at = relocate_Some [OF i]
    let ?j = "(s_jobs q ! i)\<lparr>job_state := RQ_RETRY_WAIT,
      next_attempt_ms := now + (if busy then CARD_WAIT_MS else uint RQ_BACKOFF_CAP_MS)\<rparr>"
    have "s_jobs q ! i \<in> set (s_jobs q)" using at by simp
    then have "job_ok (s_jobs q ! i)" and "job_state (s_jobs q ! i) \<noteq> RQ_FAILED"
      using assms at False by (auto simp: uq_inv_def uq_ok_def fits_def)
    then have "job_ok ?j" by (simp add: job_inv_defs cameras_def positions_def)
    moreover have "s_jobs (persist_failed k j busy now q) = (s_jobs q)[i := ?j]"
      "s_added_seq (persist_failed k j busy now q) = s_added_seq q"
      using i False by (simp_all add: persist_failed_def keep_error_def Let_def)
    ultimately show ?thesis
      using at by (intro uq_inv_update [OF rest, of i ?j]) (auto intro: fits_fresh)
  qed
qed

lemma trim_loop_inv: "uq_inv ph q \<Longrightarrow> uq_inv ph (snd (trim_loop n q))"
proof (induction n arbitrary: q)
  case 0
  then show ?case by simp
next
  case (Suc n)
  have "uq_inv ph ((list_drop v q)\<lparr>s_parked_off_list := s_parked_off_list q + 1\<rparr>)" for v
    by (rule uq_inv_same [OF list_drop_inv [OF Suc.prems]]) simp_all
  then show ?case using Suc by (simp add: Let_def split: option.split)
qed

lemma trim_after_step_inv:
  assumes "uq_inv (To_Persist k j d) q" shows "uq_inv At_Rest (trim_after_step q)"
proof -
  have "uq_inv At_Rest q" using assms by (auto simp: uq_inv_def fits_def)
  then have "uq_inv At_Rest (snd (trim_parked q))" unfolding trim_parked_def by (rule trim_loop_inv)
  then show ?thesis by (rule uq_inv_same) (simp_all add: trim_after_step_def Let_def)
qed

lemma probe_inv:
  assumes "uq_inv At_Rest q" shows "uq_inv At_Rest (snd (maybe_probe_parked now q))"
proof (cases "first_at rq_park_is_transient (s_jobs q)")
  case None
  then show ?thesis
    by (intro uq_inv_same [OF assms]) (simp_all add: maybe_probe_parked_def)
next
  case (Some i)
  note at = first_at_SomeD [OF Some]
  show ?thesis
  proof (cases "s_last_probe_ms q \<noteq> 0 \<and> now - s_last_probe_ms q < PARKED_PROBE_MS")
    case True
    then show ?thesis using assms by (simp add: maybe_probe_parked_def)
  next
    case False
    then have "s_jobs (snd (maybe_probe_parked now q)) = (s_jobs q)[i := rq_job_revive (s_jobs q ! i)]"
      "s_added_seq (snd (maybe_probe_parked now q)) = s_added_seq q"
      using Some by (auto simp: maybe_probe_parked_def)
    moreover have "job_ok (s_jobs q ! i)" using assms at by (simp add: uq_inv_def uq_ok_def)
    ultimately show ?thesis
      using at by (intro uq_inv_update [OF assms, of i "rq_job_revive (s_jobs q ! i)"])
        (auto simp: revive_ok revive_state intro: fits_fresh)
  qed
qed

subsection \<open>The pass\<close>

lemma scan_entry_inv:
  assumes "uq_inv At_Rest q" and "sane_scan env" and "u \<notin> set (uuids q)"
  shows "uq_inv At_Rest (snd (snd (scan_entry env u cnt q)))"
proof -
  obtain a j s where ins: "inspect env u = (a, j, s)" by (cases "inspect env u") auto
  show ?thesis
  proof (cases "a = RQ_REC_IGNORE \<or> a = RQ_REC_UNREADABLE")
    case True
    with ins assms(1) show ?thesis by (simp add: scan_entry_def)
  next
    case False
    then have j: "uuid j = u" "job_ok j" "job_state j \<noteq> RQ_COMPLETE"
      using assms(2) ins by (auto simp: sane_scan_def)
    let ?j = "if job_state j = RQ_FAILED \<and> rq_park_is_transient j \<and> s_revive_parked q then rq_job_revive j else j"
    have "uuid ?j \<notin> set (uuids q)" "job_ok ?j" "fits At_Rest ?j"
      using j assms(3) by (auto simp: revive_ok revive_state fits_def)
    then have add: "uq_inv At_Rest (snd (list_add ?j q))" using list_add_inv [OF assms(1)] by blast
    have "snd (snd (scan_entry env u cnt q)) \<in> {q, snd (list_add ?j q)}"
      using ins False by (auto simp: scan_entry_def Let_def split: prod.split bool.split)
    with add assms(1) show ?thesis by auto
  qed
qed

text \<open>One directory of the walk: skipped, the end of this pass, or examined.\<close>

lemma scan_loop_cases:
  obtains (ignored) "readdir_loop env skip (e # es) seen cnt q = readdir_loop env skip es seen cnt q"
      "\<not> pure_is_capture_dirname (Some e)"
  | (skipped) "readdir_loop env skip (e # es) seen cnt q = readdir_loop env skip es (seen + 1) cnt q"
      "pure_is_capture_dirname (Some e)" "seen < skip"
  | (stopped) "readdir_loop env skip (e # es) seen cnt q = (False, cnt, q)"
      "pure_is_capture_dirname (Some e)" "\<not> seen < skip"
  | (known) "readdir_loop env skip (e # es) seen cnt q =
      readdir_loop env skip es (seen + 1) (cnt\<lparr>looked_at := looked_at cnt + 1\<rparr>) q"
      "pure_is_capture_dirname (Some e)" "\<not> seen < skip"
  | (full) c q1 where "readdir_loop env skip (e # es) seen cnt q = (False, c, q1)"
      "pure_is_capture_dirname (Some e)" "\<not> seen < skip" "take 36 e \<notin> set (uuids q)"
      "scan_entry env (take 36 e) (cnt\<lparr>looked_at := looked_at cnt + 1\<rparr>) q = (True, c, q1)"
  | (examined) c q1 where "readdir_loop env skip (e # es) seen cnt q = readdir_loop env skip es (seen + 1) c q1"
      "pure_is_capture_dirname (Some e)" "\<not> seen < skip" "take 36 e \<notin> set (uuids q)"
      "scan_entry env (take 36 e) (cnt\<lparr>looked_at := looked_at cnt + 1\<rparr>) q = (False, c, q1)"
proof (cases "pure_is_capture_dirname (Some e) \<and> \<not> seen < skip \<and>
    \<not> (looked_at cnt \<ge> SCAN_MAX_DIRS \<or> yields env (looked_at cnt)) \<and> find_job (take 36 e) q = None")
  case False
  then consider "\<not> pure_is_capture_dirname (Some e)" | "pure_is_capture_dirname (Some e)" "seen < skip"
    | "pure_is_capture_dirname (Some e)" "\<not> seen < skip"
      "looked_at cnt \<ge> SCAN_MAX_DIRS \<or> yields env (looked_at cnt)"
    | "pure_is_capture_dirname (Some e)" "\<not> seen < skip"
      "\<not> (looked_at cnt \<ge> SCAN_MAX_DIRS \<or> yields env (looked_at cnt))" "find_job (take 36 e) q \<noteq> None"
    by metis
  then show ?thesis
  proof cases
    case 1
    then show ?thesis by (intro ignored) simp_all
  next
    case 2
    then show ?thesis by (intro skipped) simp_all
  next
    case 3
    then show ?thesis by (intro stopped) auto
  next
    case 4
    then show ?thesis by (intro known) (simp_all add: Let_def)
  qed
next
  case True
  then have new: "take 36 e \<notin> set (uuids q)" by (simp add: find_job_None)
  obtain b c q1 where e: "scan_entry env (take 36 e) (cnt\<lparr>looked_at := looked_at cnt + 1\<rparr>) q = (b, c, q1)"
    by (cases "scan_entry env (take 36 e) (cnt\<lparr>looked_at := looked_at cnt + 1\<rparr>) q") auto
  show ?thesis
    using True e new full [of c q1] examined [of c q1] by (cases b) (simp_all add: Let_def)
qed

lemma scan_loop_inv:
  "uq_inv At_Rest q \<Longrightarrow> sane_scan env \<Longrightarrow> uq_inv At_Rest (snd (snd (readdir_loop env skip es seen cnt q)))"
proof (induction es arbitrary: seen cnt q)
  case Nil
  then show ?case by simp
next
  case (Cons e es)
  note ent = scan_entry_inv [OF Cons.prems, of "take 36 e" "cnt\<lparr>looked_at := looked_at cnt + 1\<rparr>"]
  show ?case
    by (cases rule: scan_loop_cases [of env skip e es seen cnt q])
      (use Cons ent in \<open>simp_all del: readdir_loop.simps\<close>)
qed

lemma scan_finish_inv: "uq_inv ph q \<Longrightarrow> uq_inv ph (scan_finish b cnt q)"
  by (erule uq_inv_same) (simp_all add: scan_finish_def Let_def)

lemma queue_scan_inv:
  assumes "uq_inv At_Rest q" and "sane_scan env" shows "uq_inv At_Rest (snd (queue_scan env q))"
proof -
  let ?q = "if s_parked_off_list q = 0 then q\<lparr>s_revive_parked := False\<rparr> else q"
  have q: "uq_inv At_Rest ?q" by (rule uq_inv_same [OF assms(1)]) simp_all
  show ?thesis
  proof (cases "card_ok env \<and> entries env \<noteq> None")
    case False
    then show ?thesis
      by (intro uq_inv_same [OF q]) (auto simp: queue_scan_def Let_def split: option.splits)
  next
    case True
    then obtain es where es: "entries env = Some es" by auto
    let ?skip = "unat (rq_scan_skip (s_scan ?q))" and ?s = "?q\<lparr>s_cap_hit := False, s_rescan := False\<rparr>"
    have "uq_inv At_Rest ?s" by (rule uq_inv_same [OF q]) simp_all
    note l = scan_loop_inv [OF this assms(2), of ?skip es 0 no_counts]
    obtain b c q1 where r: "readdir_loop env ?skip es 0 no_counts ?s = (b, c, q1)"
      by (cases "readdir_loop env ?skip es 0 no_counts ?s") auto
    have "queue_scan env q = (True, scan_finish b c q1)"
      using True es r unfolding queue_scan_def Let_def by simp
    then show ?thesis using l r scan_finish_inv by simp
  qed
qed

subsection \<open>The public operations\<close>

lemma init_slots_fresh: "job_state (snd (rq_job_init_slots u r fs n t)) = RQ_QUEUED"
  by (simp add: rq_job_init_slots_def init_common_def Let_def)

lemma enqueue_admit_inv:
  assumes "uq_inv ph q" and "job_ok j" and "job_state j = RQ_QUEUED"
  shows "uq_inv ph (snd (enqueue_admit j q))"
proof (cases "find_job (uuid j) q = None")
  case False
  then show ?thesis by (intro uq_inv_same [OF assms(1)]) (auto simp: enqueue_admit_def Let_def)
next
  case True
  then have "uq_inv ph (snd (list_add j q))"
    using assms by (intro list_add_inv) (simp_all add: find_job_None fits_fresh)
  then show ?thesis
    by (rule uq_inv_same) (use True in \<open>simp_all add: enqueue_admit_def Let_def split: prod.split bool.split\<close>)
qed

lemma enqueue_inv:
  assumes "uq_inv ph q" and "length fs = nat n"
  shows "uq_inv ph (snd (upload_queue_enqueue_slots got saved u r (Some fs) n t q))"
  using assms enqueue_admit_inv [OF assms(1) init_slots_ok [OF assms(2)] init_slots_fresh, of u r t]
  by (auto simp: upload_queue_enqueue_slots_def split: prod.splits bool.splits)

lemma forget_inv: "uq_inv ph q \<Longrightarrow> uq_inv ph (upload_queue_forget u q)"
proof -
  assume inv: "uq_inv ph q"
  let ?i = "find_job u q"
  consider "s_jobs (upload_queue_forget u q) = s_jobs q" "s_added_seq (upload_queue_forget u q) = s_added_seq q"
    | "s_jobs (upload_queue_forget u q) = s_jobs (list_drop (the ?i) q)"
      "s_added_seq (upload_queue_forget u q) = s_added_seq (list_drop (the ?i) q)"
    by (cases "rq_forget_action (?i \<noteq> None) (?i \<noteq> None \<and> ?i = s_active q)")
      (auto simp: upload_queue_forget_def Let_def)
  then show ?thesis
    by cases (auto intro: uq_inv_same [OF inv] uq_inv_same [OF list_drop_inv [OF inv]])
qed

lemma revive_locked_inv: "uq_inv ph q \<Longrightarrow> uq_inv ph (revive_transient_locked q)"
  by (erule uq_inv_map [of _ _ revive_if_transient])
    (simp_all add: revive_if_transient_ok revive_if_transient_state revive_transient_locked_def Let_def)

lemma restored_inv:
  assumes "uq_inv ph q" shows "uq_inv ph (upload_queue_network_restored q)"
  unfolding upload_queue_network_restored_def
  by (rule revive_locked_inv, rule uq_inv_map [OF assms, of "\<lambda>j. if job_state j \<noteq> RQ_RETRY_WAIT then j else rq_job_network_restored j"])
    (simp_all add: restored_ok, simp add: rq_job_network_restored_def)

lemma retry_inv:
  assumes "uq_inv ph q" shows "uq_inv ph (snd (upload_queue_retry_all q))"
  by (rule uq_inv_map [OF assms, of "\<lambda>j. if job_state j = RQ_RETRY_WAIT \<or> job_state j = RQ_FAILED then rq_job_revive j else j"])
    (simp_all add: revive_ok revive_state upload_queue_retry_all_def Let_def)

lemma status_inv: "uq_inv ph q \<Longrightarrow> uq_inv ph (snd (upload_queue_status cap maint q))"
  by (erule uq_inv_same) (simp_all add: upload_queue_status_def Let_def)

lemma boot_inv: "uq_inv At_Rest uq_boot"
  by (simp add: uq_inv_def uq_ok_def uq_boot_def uuids_def)

lemma uq_reach_inv: "uq_reach q ph \<Longrightarrow> uq_inv ph q"
proof (induction rule: uq_reach.induct)
  case (taken q now i s j q')
  then show ?case using take_job_inv by (simp add: in_flight_inv)
qed (auto simp: boot_inv in_flight_inv intro: take_job_inv step_lost_inv step_booked_inv drop_settled_inv
      persist_failed_inv trim_after_step_inv probe_inv queue_scan_inv enqueue_inv forget_inv restored_inv
      retry_inv status_inv)



end
