(* ===== verification/Upload_Cycle.thy ===== *)
theory Upload_Cycle
  imports Upload_Worker
begin

text \<open>
  What the passes of the upload queue over the card add up to, and three interleavings in which the
  queue does something else than its comments say (\<^verbatim>\<open>firmware/p4/main/upload_queue.c\<close>): the walk does
  not come back to the directory it had no room for, a job can be admitted twice, and a deletion can
  hit the wrong job when the list has moved under the worker.
\<close>

section \<open>The directories a pass examines\<close>

fun scan_visits :: "scan_env \<Rightarrow> nat \<Rightarrow> string list \<Rightarrow> nat \<Rightarrow> scan_counts \<Rightarrow> uq \<Rightarrow> string list" where
  "scan_visits env skip [] seen cnt q = []"
| "scan_visits env skip (e # es) seen cnt q =
    (if \<not> pure_is_capture_dirname (Some e) then scan_visits env skip es seen cnt q
     else if seen < skip then scan_visits env skip es (seen + 1) cnt q
     else if looked_at cnt \<ge> SCAN_MAX_DIRS \<or> yields env (looked_at cnt) then []
     else let cnt1 = cnt\<lparr>looked_at := looked_at cnt + 1\<rparr>
     in if find_job (take 36 e) q \<noteq> None then e # scan_visits env skip es (seen + 1) cnt1 q
        else case scan_entry env (take 36 e) cnt1 q of
          (True, cnt2, q1) \<Rightarrow> [e]
        | (False, cnt2, q1) \<Rightarrow> e # scan_visits env skip es (seen + 1) cnt2 q1)"

definition pass_start :: "uq \<Rightarrow> uq" where
  "pass_start q = (if s_parked_off_list q = 0 then q\<lparr>s_revive_parked := False\<rparr> else q)\<lparr>s_cap_hit := False, s_rescan := False\<rparr>"

definition pass_result :: "scan_env \<Rightarrow> uq \<Rightarrow> bool \<times> scan_counts \<times> uq" where
  "pass_result env q = readdir_loop env (unat (cursor (s_scan q))) (the (entries env)) 0 no_counts (pass_start q)"

definition pass_visits :: "scan_env \<Rightarrow> uq \<Rightarrow> string list" where
  "pass_visits env q = scan_visits env (unat (cursor (s_scan q))) (the (entries env)) 0 no_counts (pass_start q)"

definition pass_ended :: "scan_env \<Rightarrow> uq \<Rightarrow> bool" where
  "pass_ended env q = fst (pass_result env q)"

lemma scan_entry_looked_at: "scan_entry env u cnt q = (b, c, q1) \<Longrightarrow> looked_at c = looked_at cnt"
  by (auto simp: scan_entry_def Let_def split: prod.splits if_splits bool.splits)

lemma scan_entry_scan: "scan_entry env u cnt q = (b, c, q1) \<Longrightarrow> s_scan q1 = s_scan q"
  by (auto simp: scan_entry_def list_add_def Let_def split: prod.splits if_splits bool.splits)

text \<open>The same case distinction, for the walk and its record together.\<close>

lemma scan_walk:
  "readdir_loop env skip es seen cnt q = (b, c, q1) \<Longrightarrow>
    (let vs = scan_visits env skip es seen cnt q; ds = drop (skip - seen) (capture_dirs es)
     in vs = take (length vs) ds \<and> looked_at c = looked_at cnt + length vs \<and> (b \<longrightarrow> vs = ds) \<and>
        s_scan q1 = s_scan q)"
proof (induction es arbitrary: seen cnt q)
  case Nil
  then show ?case by (auto simp: capture_dirs_def)
next
  case (Cons e es)
  consider "\<not> pure_is_capture_dirname (Some e)" | "pure_is_capture_dirname (Some e)" "seen < skip"
    | "pure_is_capture_dirname (Some e)" "\<not> seen < skip" "looked_at cnt \<ge> SCAN_MAX_DIRS \<or> yields env (looked_at cnt)"
    | "pure_is_capture_dirname (Some e)" "\<not> seen < skip"
      "\<not> (looked_at cnt \<ge> SCAN_MAX_DIRS \<or> yields env (looked_at cnt))"
    by metis
  then show ?case
  proof cases
    case 1
    then show ?thesis using Cons.IH [of seen cnt q] Cons.prems by (simp add: capture_dirs_def)
  next
    case 2
    then have "skip - seen = Suc (skip - (seen + 1))" by simp
    with 2 show ?thesis using Cons.IH [of "seen + 1" cnt q] Cons.prems by (simp add: capture_dirs_def)
  next
    case 3
    then show ?thesis using Cons.prems by (auto split: if_splits)
  next
    case 4
    let ?cnt = "cnt\<lparr>looked_at := looked_at cnt + 1\<rparr>"
    have ds: "drop (skip - seen) (capture_dirs (e # es)) = e # drop (skip - (seen + 1)) (capture_dirs es)"
      using 4 by (simp add: capture_dirs_def)
    show ?thesis
    proof (cases "find_job (take 36 e) q = None")
      case False
      then show ?thesis using 4 Cons.IH [of "seen + 1" ?cnt q] Cons.prems ds by (simp add: Let_def)
    next
      case True
      obtain b2 c2 q2 where e: "scan_entry env (take 36 e) ?cnt q = (b2, c2, q2)"
        by (cases "scan_entry env (take 36 e) ?cnt q") auto
      note la = scan_entry_looked_at [OF e] scan_entry_scan [OF e]
      show ?thesis
      proof (cases b2)
        case b2: True
        then show ?thesis using 4 True Cons.prems ds e la by (simp add: Let_def)
      next
        case b2: False
        then show ?thesis
          using 4 True Cons.IH [of "seen + 1" c2 q2] Cons.prems ds e la by (simp add: Let_def)
      qed
    qed
  qed
qed

lemma pass_of_queue_scan:
  assumes "card_ok env" and "entries env = Some es" and "pass_result env q = (b, c, q1)"
  shows "queue_scan env q = (True, scan_finish b c q1)"
  using assms
  by (cases "s_parked_off_list q = 0")
    (simp_all add: queue_scan_def pass_result_def pass_start_def rq_scan_skip_def Let_def)

lemma pass_segment:
  assumes "card_ok env" and "entries env = Some es" and "length (capture_dirs es) < 2 ^ 32"
    and "unat (cursor (s_scan q)) \<le> length (capture_dirs es)"
  shows "pass_ended env q \<Longrightarrow> pass_visits env q = drop (unat (cursor (s_scan q))) (capture_dirs es)"
    and "\<not> pass_ended env q \<Longrightarrow>
      pass_visits env q = take (length (pass_visits env q)) (drop (unat (cursor (s_scan q))) (capture_dirs es)) \<and>
      unat (cursor (s_scan (snd (queue_scan env q)))) = unat (cursor (s_scan q)) + length (pass_visits env q)"
proof -
  let ?c = "unat (cursor (s_scan q))" and ?ds = "capture_dirs es" and ?vs = "pass_visits env q"
  obtain b c q1 where r: "pass_result env q = (b, c, q1)" by (cases "pass_result env q") auto
  have w: "?vs = take (length ?vs) (drop ?c ?ds)" "looked_at c = length ?vs" "b \<Longrightarrow> ?vs = drop ?c ?ds"
    "s_scan q1 = s_scan q"
    using scan_walk [OF r [unfolded pass_result_def]] assms(2)
    by (simp_all add: pass_visits_def Let_def no_counts_def pass_start_def)
  then show "pass_ended env q \<Longrightarrow> ?vs = drop ?c ?ds" by (simp add: pass_ended_def r)
  assume "\<not> pass_ended env q"
  then have b: "\<not> b" by (simp add: pass_ended_def r)
  have "length ?vs \<le> length ?ds - ?c" using w(1) by (metis length_drop length_take min.cobounded1)
  then have fit: "?c + length ?vs < 2 ^ 32" using assms(3,4) by linarith
  have "cursor (s_scan (scan_finish b c q1)) = cursor (s_scan q) + of_nat (length ?vs)"
    using b w(2,4) by (simp add: scan_finish_def rq_scan_pass_done_def Let_def)
  then have "unat (cursor (s_scan (snd (queue_scan env q)))) = ?c + length ?vs"
    using fit pass_of_queue_scan [OF assms(1,2) r] by (simp add: unat_word_ariths(1) unat_of_nat)
  with w(1) show "?vs = take (length ?vs) (drop ?c ?ds) \<and>
      unat (cursor (s_scan (snd (queue_scan env q)))) = ?c + length ?vs" by blast
qed

text \<open>
  The passes of one cycle over a card whose entries hold still: each starts at the cursor the one
  before left, and only the last reaches the end. The states in between are whatever the queue has
  become.
\<close>

fun cycle_from :: "string list \<Rightarrow> u32 \<Rightarrow> (scan_env \<times> uq) list \<Rightarrow> bool" where
  "cycle_from es c [] = False"
| "cycle_from es c ((env, q) # ps) =
    (card_ok env \<and> entries env = Some es \<and> cursor (s_scan q) = c \<and>
     (if ps = [] then pass_ended env q
      else \<not> pass_ended env q \<and> cycle_from es (cursor (s_scan (snd (queue_scan env q)))) ps))"

lemma cycle_covers_rest:
  "cycle_from es c ps \<Longrightarrow> length (capture_dirs es) < 2 ^ 32 \<Longrightarrow> unat c \<le> length (capture_dirs es) \<Longrightarrow>
    concat (map (\<lambda>(env, q). pass_visits env q) ps) = drop (unat c) (capture_dirs es)"
proof (induction ps arbitrary: c)
  case (Cons p ps)
  obtain env q where p: "p = (env, q)" by (cases p) auto
  have ok: "card_ok env" "entries env = Some es" "cursor (s_scan q) = c" using Cons.prems(1) p by auto
  have le: "unat (cursor (s_scan q)) \<le> length (capture_dirs es)" using Cons.prems(3) ok(3) by simp
  note seg = pass_segment [OF ok(1,2) Cons.prems(2) le]
  show ?case
  proof (cases "ps = []")
    case True
    then show ?thesis using Cons.prems(1) p seg(1) ok(3) by simp
  next
    case False
    let ?vs = "pass_visits env q" and ?c = "cursor (s_scan (snd (queue_scan env q)))"
    have s: "?vs = take (length ?vs) (drop (unat c) (capture_dirs es))" "unat ?c = unat c + length ?vs"
      using seg(2) Cons.prems(1) p False ok(3) by auto
    then have "length ?vs \<le> length (capture_dirs es) - unat c"
      by (metis length_drop length_take min.cobounded1)
    then have "unat ?c \<le> length (capture_dirs es)" using s(2) Cons.prems(3) by simp
    then have "concat (map (\<lambda>(env, q). pass_visits env q) ps) = drop (unat ?c) (capture_dirs es)"
      using Cons.IH [of ?c] Cons.prems(1,2) p False by simp
    then show ?thesis
      using s append_take_drop_id [of "length ?vs" "drop (unat c) (capture_dirs es)"] p
      by (simp add: add.commute)
  qed
qed simp



section \<open>Three interleavings\<close>

text \<open>
  A directory the full window had no room for is passed over, not resumed on: the cursor the pass
  leaves points behind it, so the capture waits for the next cycle even if a slot frees at once.
\<close>

theorem refused_directory_is_passed_over:
  assumes "card_ok env" and "entries env = Some [d]" and "pure_is_capture_dirname (Some d)"
    and "\<not> yields env 0" and "cursor (s_scan q) = 0" and "length (s_jobs q) = UPLOAD_QUEUE_MAX"
    and "find_job d q = None" and "inspect env d = (RQ_REC_RESUME, j, False)" and "job_state j = RQ_QUEUED"
  shows "cursor (s_scan (snd (queue_scan env q))) = 1 \<and>
    seen_cycle (s_scan (snd (queue_scan env q))) = seen_cycle (s_scan q) + 1"
proof -
  have "length d = 36" using assms(3) by (auto simp: pure_is_capture_dirname_def split: if_splits)
  then have d: "take 36 d = d" by simp
  have start: "s_jobs (pass_start q) = s_jobs q" "s_scan (pass_start q) = s_scan q"
    by (simp_all add: pass_start_def)
  then have "find_job d (pass_start q) = None" using assms(7) by (simp add: find_job_def)
  then have "pass_result env q = (False, \<lparr>looked_at = 1, parked_off = 0, unadmitted = 1\<rparr>,
      (pass_start q)\<lparr>s_cap_hit := True\<rparr>)"
    using assms d start
    by (simp add: pass_result_def no_counts_def SCAN_MAX_DIRS_def Let_def scan_entry_def list_add_def)
  from pass_of_queue_scan [OF assms(1,2) this] show ?thesis
    using assms(5) start by (simp add: scan_finish_def rq_scan_pass_done_def Let_def)
qed

theorem refused_directory_is_passed_over_witness:
  "let d = ''0123abcd-0123-0123-0123-0123456789ab''; j = init_common (Some d) (Some ''r'') False;
       env = \<lparr>card_ok = True, entries = Some [d], yields = (\<lambda>_. False),
         inspect = (\<lambda>u. (RQ_REC_RESUME, j, False)), saves = (\<lambda>_. True)\<rparr>;
       q = uq_boot\<lparr>s_jobs := replicate UPLOAD_QUEUE_MAX (init_common (Some ''x'') (Some ''r'') False)\<rparr>
   in cursor (s_scan (snd (queue_scan env q))) = 1 \<and>
      seen_cycle (s_scan (snd (queue_scan env q))) = seen_cycle (s_scan q) + 1"
  unfolding Let_def
  by (rule refused_directory_is_passed_over
      [where d = "''0123abcd-0123-0123-0123-0123456789ab''"
        and j = "init_common (Some ''0123abcd-0123-0123-0123-0123456789ab'') (Some ''r'') False"])
    (simp_all add: uq_boot_def rq_scan_init_def init_common_def find_job_def first_at_None
      strcopy_fits RQ_UUID_LEN_def, simp add: pure_is_capture_dirname_def dir_char_ok_def upt_rec)

text \<open>
  C40: a capture can be in the window twice. The walk looks for the capture in the list, gives the lock
  up while it reads the record, and admits it without looking again; a host's enqueue of the same
  capture in between admits it too.
\<close>

theorem late_admission_duplicates:
  assumes "uuid j \<notin> set (uuids q)" and "length (s_jobs q) + 2 \<le> UPLOAD_QUEUE_MAX"
    and "job_state j = RQ_QUEUED" and "inspect env (uuid j) = (RQ_REC_RESUME, j, False)"
  shows "find_job (uuid j) q = None \<and>
    uuids (snd (snd (scan_entry env (uuid j) cnt (snd (enqueue_admit j q))))) = uuids q @ [uuid j, uuid j]"
proof -
  have f: "find_job (uuid j) q = None" using assms(1) by (simp add: find_job_None)
  then have "s_jobs (snd (enqueue_admit j q)) = s_jobs q @ [j]"
    using assms(2) by (simp add: enqueue_admit_def list_add_def Let_def)
  with f show ?thesis
    using assms by (simp add: scan_entry_def list_add_def uuids_def Let_def)
qed

theorem late_admission_duplicates_witness:
  "let j = init_common (Some ''a'') (Some ''r'') False;
       env = \<lparr>card_ok = True, entries = None, yields = (\<lambda>_. False),
         inspect = (\<lambda>u. (RQ_REC_RESUME, j, False)), saves = (\<lambda>_. True)\<rparr>
   in find_job (uuid j) uq_boot = None \<and>
      uuids (snd (snd (scan_entry env (uuid j) no_counts (snd (enqueue_admit j uq_boot))))) =
      uuids uq_boot @ [uuid j, uuid j]"
  unfolding Let_def
  by (rule late_admission_duplicates)
    (simp_all add: uuids_def uq_boot_def UPLOAD_QUEUE_MAX_def init_common_def)

text \<open>
  C37: deleting a photograph can drop another one's job. The index of the job being worked on is not
  moved along when a deletion fills its hole with that job; if a new capture then takes the stale
  index and is deleted while the step is still out, the returning step drops the job it worked on,
  with its result, and the deleted capture's job stays.
\<close>

theorem delete_can_drop_the_wrong_job:
  assumes "distinct [uuid a, uuid b, uuid c]" and "s_jobs q = [b, a]" and "s_added_seq q = [x, y]"
    and "s_active q = Some 1" and "\<not> s_forget_active q"
  shows "uuids (snd (step_returned 1 s a res rnd now
      (upload_queue_forget (uuid c) (snd (enqueue_admit c (upload_queue_forget (uuid b) q)))))) = [uuid c]"
proof -
  define p1 where "p1 = upload_queue_forget (uuid b) q"
  have "find_job (uuid b) q = Some 0" using assms(2) by (simp add: find_job_def)
  then have p1: "s_jobs p1 = [a]" "s_added_seq p1 = [y]" "s_active p1 = Some 1" "\<not> s_forget_active p1"
    using assms by (simp_all add: p1_def upload_queue_forget_def rq_forget_action_def list_drop_def fill_hole_def)
  define p2 where "p2 = snd (enqueue_admit c p1)"
  have "find_job (uuid c) p1 = None" using p1(1) assms(1) by (simp add: find_job_def)
  then have p2: "s_jobs p2 = [a, c]" "s_active p2 = Some 1"
    using p1 by (simp_all add: p2_def enqueue_admit_def list_add_def UPLOAD_QUEUE_MAX_def)
  define p3 where "p3 = upload_queue_forget (uuid c) p2"
  have "find_job (uuid c) p2 = Some 1" using p2(1) assms(1) by (simp add: find_job_def)
  then have p3: "s_jobs p3 = [a, c]" "s_forget_active p3"
    using p2 by (simp_all add: p3_def upload_queue_forget_def rq_forget_action_def)
  let ?n = "note_server_locked res p3"
  have un: "uuids ?n = [uuid a, uuid c]" unfolding note_server_fields(4) using p3(1) by (simp add: uuids_def)
  then obtain a' c' where n: "s_jobs ?n = [a', c']" "uuid a' = uuid a" "uuid c' = uuid c"
    by (auto simp: uuids_def map_eq_Cons_conv)
  have "relocate_job 1 (uuid a) ?n = Some 0"
    using n assms(1) by (auto simp: relocate_job_def still_ours_def find_job_def)
  then have "uuids (snd (step_returned 1 s a res rnd now p3)) = [uuid c]"
    using p3(2) n by (simp add: step_returned_def list_drop_def fill_hole_def uuids_def Let_def)
  then show ?thesis by (simp add: p3_def p2_def p1_def)
qed

theorem delete_can_drop_the_wrong_job_witness:
  "let a = init_common (Some ''a'') (Some ''r'') False; b = init_common (Some ''b'') (Some ''r'') False;
       c = init_common (Some ''c'') (Some ''r'') False;
       q = uq_boot\<lparr>s_jobs := [b, a], s_added_seq := [1, 2], s_active := Some 1\<rparr>;
       res = \<lparr>status = 200, res_capture_id = [], res_detail = [], res_code = [], card_yielded = False\<rparr>
   in uuids (snd (step_returned 1 (rq_next_step a 0) a res 0 0
        (upload_queue_forget (uuid c) (snd (enqueue_admit c (upload_queue_forget (uuid b) q)))))) = [uuid c]"
  unfolding Let_def
  by (rule delete_can_drop_the_wrong_job)
    (simp_all add: uq_boot_def init_common_def strcopy_fits RQ_UUID_LEN_def)

end
