(* ===== verification/Kino_Decimal.thy ===== *)
theory Kino_Decimal
  imports Kino_Prelude
begin

text \<open>
  Decimal text as the C library prints it: \<open>dec\<close> is what \<^verbatim>\<open>%u\<close>, \<^verbatim>\<open>%llu\<close> and the non-negative cases of \<^verbatim>\<open>%d\<close>
  write, \<open>pad0 w\<close> the zero padding of \<^verbatim>\<open>%0<w>u\<close>, and \<open>dec_value\<close> the number a run of digits stands for.
\<close>

definition digit_char :: "nat \<Rightarrow> char" where
  "digit_char d = char_of (48 + d)"

definition char_digit :: "char \<Rightarrow> nat" where
  "char_digit c = of_char c - 48"

fun dec :: "nat \<Rightarrow> string" where
  "dec n = (if n < 10 then [digit_char n] else dec (n div 10) @ [digit_char (n mod 10)])"

declare dec.simps [simp del]

definition pad0 :: "nat \<Rightarrow> string \<Rightarrow> string" where
  "pad0 w s = replicate (w - length s) (CHR ''0'') @ s"

definition dec_value :: "string \<Rightarrow> nat" where
  "dec_value s = foldl (\<lambda>a c. a * 10 + char_digit c) 0 s"

lemma char_digit_digit_char [simp]: "d < 10 \<Longrightarrow> char_digit (digit_char d) = d"
  by (simp add: char_digit_def digit_char_def)

lemma c_digit_digit_char [simp]: "d < 10 \<Longrightarrow> c_digit (digit_char d)"
  by (simp add: c_digit_def digit_char_def less_eq_char_def)

lemma digit_char_0 [simp]: "digit_char 0 = CHR ''0''"
  by code_simp

lemma dec_value_append_digit: "dec_value (s @ [c]) = dec_value s * 10 + char_digit c"
  by (simp add: dec_value_def)

lemma dec_value_dec [simp]: "dec_value (dec n) = n"
proof (induction n rule: dec.induct)
  case (1 n)
  show ?case
  proof (cases "n < 10")
    case True
    then show ?thesis by (simp add: dec.simps [of n] dec_value_def)
  next
    case False
    then show ?thesis using 1 by (simp add: dec.simps [of n] dec_value_append_digit)
  qed
qed

lemma dec_inject [simp]: "dec m = dec n \<longleftrightarrow> m = n"
  by (metis dec_value_dec)

lemma dec_digits: "\<forall>c \<in> set (dec n). c_digit c"
proof (induction n rule: dec.induct)
  case (1 n)
  then show ?case by (cases "n < 10") (auto simp: dec.simps [of n])
qed

lemma dec_not_Nil [simp]: "dec n \<noteq> []"
  by (simp add: dec.simps [of n])

lemma length_dec_le: "0 < k \<Longrightarrow> length (dec n) \<le> k \<longleftrightarrow> n < 10 ^ k"
proof (induction n arbitrary: k rule: dec.induct)
  case (1 n)
  show ?case
  proof (cases "n < 10")
    case True
    have "(10::nat) ^ 1 \<le> 10 ^ k" using 1 by (intro power_increasing) auto
    then show ?thesis using True 1 by (simp add: dec.simps [of n])
  next
    case False
    show ?thesis
    proof (cases "k = 1")
      case True
      then show ?thesis using False by (simp add: dec.simps [of n])
    next
      case k: False
      have "length (dec (n div 10)) \<le> k - 1 \<longleftrightarrow> n div 10 < 10 ^ (k - 1)"
        using 1 False k by simp
      moreover have "n div 10 < 10 ^ (k - 1) \<longleftrightarrow> n < 10 ^ k"
      proof -
        have "(10::nat) ^ k = 10 ^ (k - 1) * 10"
          using 1 by (metis Suc_pred' power_Suc2)
        then show ?thesis by (simp add: div_less_iff_less_mult)
      qed
      moreover have "length (dec n) \<le> k \<longleftrightarrow> length (dec (n div 10)) \<le> k - 1"
        using 1(2) False by (simp add: dec.simps [of n]) linarith
      ultimately show ?thesis by simp
    qed
  qed
qed

lemma dec_value_zeros: "dec_value (replicate k (CHR ''0'') @ s) = dec_value s"
proof (induction k)
  case (Suc k)
  then show ?case by (simp add: dec_value_def char_digit_def)
qed simp

lemma dec_value_pad0 [simp]: "dec_value (pad0 w (dec n)) = n"
  by (simp add: pad0_def dec_value_zeros)

lemma pad0_inject: "pad0 w (dec m) = pad0 w (dec n) \<longleftrightarrow> m = n"
  by (metis dec_value_pad0)

lemma length_pad0: "0 < w \<Longrightarrow> n < 10 ^ w \<Longrightarrow> length (pad0 w (dec n)) = w"
  using length_dec_le [of w n] by (simp add: pad0_def)

end
