(* ===== verification/Pure_Clock.thy ===== *)
theory Pure_Clock
  imports Kino_Decimal
begin

text \<open>
  The clock rules of \<^verbatim>\<open>firmware/p4/main/pure.c\<close>: which times are plausible, what a boot does with a
  saved time, which source may move the clock, and the calendar arithmetic behind a capture's timestamp.
  The properties: the day arithmetic is the Gregorian calendar, stated by its successor function; the
  timestamp a capture carries can be read back to the second; and no sequence of time sources moves
  the clock backwards except by a better source or by a person.

  Times are \<^typ>\<open>int\<close> for \<^verbatim>\<open>int64_t\<close>; the \<^verbatim>\<open>unsigned\<close> intermediate values of the day arithmetic lie in
  the ranges the comments of the source give, which \<open>civil_ranges\<close> proves, so that they do not wrap.
\<close>

section \<open>The code\<close>

definition PURE_EPOCH_MS_MIN :: int where "PURE_EPOCH_MS_MIN = 1577836800000"
definition PURE_EPOCH_MS_MAX :: int where "PURE_EPOCH_MS_MAX = 4102444800000"

definition pure_epoch_plausible :: "int \<Rightarrow> bool" where
  "pure_epoch_plausible epoch_ms \<longleftrightarrow> epoch_ms \<ge> PURE_EPOCH_MS_MIN \<and> epoch_ms \<le> PURE_EPOCH_MS_MAX"

definition pure_clamp_utc_offset_min :: "int \<Rightarrow> int" where
  "pure_clamp_utc_offset_min offset_min =
    (if offset_min < -840 \<or> offset_min > 840 then 0 else offset_min)"

datatype pure_clock_action = PURE_CLOCK_UNSET | PURE_CLOCK_KEEP_SYSTEM | PURE_CLOCK_RESTORE_SAVED

definition pure_clock_restore_action :: "bool \<Rightarrow> int \<Rightarrow> int \<Rightarrow> pure_clock_action" where
  "pure_clock_restore_action have_saved saved_ms system_now_ms =
    (let saved_ok = (have_saved \<and> pure_epoch_plausible saved_ms);
         system_ok = pure_epoch_plausible system_now_ms
     in if saved_ok \<and> system_ok
        then (if saved_ms > system_now_ms then PURE_CLOCK_RESTORE_SAVED else PURE_CLOCK_KEEP_SYSTEM)
        else if saved_ok then PURE_CLOCK_RESTORE_SAVED
        else if system_ok then PURE_CLOCK_KEEP_SYSTEM
        else PURE_CLOCK_UNSET)"

definition PURE_CLOCK_RANK_UNSET :: int where "PURE_CLOCK_RANK_UNSET = 0"
definition PURE_CLOCK_RANK_PERSISTED :: int where "PURE_CLOCK_RANK_PERSISTED = 1"
definition PURE_CLOCK_RANK_NETWORK :: int where "PURE_CLOCK_RANK_NETWORK = 2"
definition PURE_CLOCK_RANK_HOST :: int where "PURE_CLOCK_RANK_HOST = 3"

datatype pure_clock_adopt =
  PURE_CLOCK_ADOPT | PURE_CLOCK_REJECT_IMPLAUSIBLE | PURE_CLOCK_REJECT_RANK | PURE_CLOCK_REJECT_BACKWARDS

definition pure_clock_adopt_action :: "int \<Rightarrow> int \<Rightarrow> int \<Rightarrow> int \<Rightarrow> pure_clock_adopt" where
  "pure_clock_adopt_action current_rank current_ms incoming_rank incoming_ms =
    (if \<not> pure_epoch_plausible incoming_ms then PURE_CLOCK_REJECT_IMPLAUSIBLE
     else if incoming_rank < current_rank then PURE_CLOCK_REJECT_RANK
     else if incoming_rank > current_rank then PURE_CLOCK_ADOPT
     else if incoming_rank = PURE_CLOCK_RANK_HOST then PURE_CLOCK_ADOPT
     else if incoming_ms < current_ms then PURE_CLOCK_REJECT_BACKWARDS
     else PURE_CLOCK_ADOPT)"

definition civil_from_days :: "int \<Rightarrow> int \<times> int \<times> int" where
  "civil_from_days z0 =
    (let z = z0 + 719468;
         era = (if z \<ge> 0 then z else z - 146096) sdiv 146097;
         doe = z - era * 146097;
         yoe = (doe - doe div 1460 + doe div 36524 - doe div 146096) div 365;
         y = yoe + era * 400;
         doy = doe - (365 * yoe + yoe div 4 - yoe div 100);
         mp = (5 * doy + 2) div 153;
         d = doy - (153 * mp + 2) div 5 + 1;
         m = (if mp < 10 then mp + 3 else mp - 9)
     in (y + (if m \<le> 2 then 1 else 0), m, d))"

text \<open>The fields \<^verbatim>\<open>pure_format_iso8601\<close> prints: date, time of day, and the offset's sign, hours, minutes.\<close>

definition iso_fields :: "int \<Rightarrow> int \<Rightarrow> (int \<times> int \<times> int) \<times> (int \<times> int \<times> int) \<times> (bool \<times> int \<times> int)" where
  "iso_fields epoch_ms offset_min =
    (let local_ms = epoch_ms + offset_min * 60000;
         secs0 = local_ms sdiv 1000;
         secs = (if local_ms smod 1000 \<noteq> 0 \<and> local_ms < 0 then secs0 - 1 else secs0);
         days0 = secs sdiv 86400;
         rem0 = secs smod 86400;
         (rem, days) = (if rem0 < 0 then (rem0 + 86400, days0 - 1) else (rem0, days0));
         abs_off = (if offset_min < 0 then - offset_min else offset_min)
     in (civil_from_days days, (rem div 3600, (rem mod 3600) div 60, rem mod 60),
         (offset_min < 0, abs_off div 60, abs_off mod 60)))"

text \<open>\<^verbatim>\<open>%0<w>d\<close> of the C library: a minus sign takes one place of the width.\<close>

definition dec0 :: "nat \<Rightarrow> int \<Rightarrow> string" where
  "dec0 w i = (if i < 0 then CHR ''-'' # pad0 (w - 1) (dec (nat (- i))) else pad0 w (dec (nat i)))"

definition pure_format_iso8601 :: "int \<Rightarrow> int \<Rightarrow> nat \<Rightarrow> string" where
  "pure_format_iso8601 epoch_ms offset_min cap =
    (case iso_fields epoch_ms offset_min of ((year, month, day), (hh, mm, ss), (neg, oh, om)) \<Rightarrow>
       take (cap - 1)
         (dec0 4 year @ ''-'' @ dec0 2 month @ ''-'' @ dec0 2 day @ ''T'' @ dec0 2 hh @ '':'' @ dec0 2 mm
          @ '':'' @ dec0 2 ss @ (if neg then ''-'' else ''+'') @ dec0 2 oh @ '':'' @ dec0 2 om))"

section \<open>The calendar, by its successor\<close>

definition leap_year :: "int \<Rightarrow> bool" where
  "leap_year y \<longleftrightarrow> 4 dvd y \<and> (\<not> 100 dvd y \<or> 400 dvd y)"

definition month_length :: "int \<Rightarrow> int \<Rightarrow> int" where
  "month_length y m =
    (if m = 2 then (if leap_year y then 29 else 28) else if m \<in> {4, 6, 9, 11} then 30 else 31)"

fun next_day :: "int \<times> int \<times> int \<Rightarrow> int \<times> int \<times> int" where
  "next_day (y, m, d) =
    (if d < month_length y m then (y, m, d + 1)
     else if m < 12 then (y, m + 1, 1) else (y + 1, 1, 1))"

section \<open>The era\<close>

lemma sdiv_nonneg: "0 \<le> a \<Longrightarrow> 0 < b \<Longrightarrow> a sdiv b = a div (b :: int)"
  by (cases "a = 0") (simp_all add: signed_divide_int_def)

lemma floor_div_of_trunc:
  fixes b :: int
  assumes "0 < b" "z < 0"
  shows "(z - (b - 1)) sdiv b = z div b"
proof -
  have "(z - (b - 1)) sdiv b = - ((b - 1 - z) div b)"
    using assms by (simp add: signed_divide_int_def sgn_if)
  moreover have "(b - 1 - z) div b = - (z div b)"
  proof (rule int_div_pos_eq [where r = "b - 1 - z mod b"])
    show "b - 1 - z = b * (- (z div b)) + (b - 1 - z mod b)"
      by (simp only: mult_minus_right) (use mult_div_mod_eq [of b z] in linarith)
    show "0 \<le> b - 1 - z mod b" "b - 1 - z mod b < b"
      using pos_mod_sign [OF assms(1), of z] pos_mod_bound [OF assms(1), of z] by linarith+
  qed
  ultimately show ?thesis by simp
qed

lemma era_is_floor: "(if z \<ge> 0 then z else z - 146096) sdiv 146097 = z div (146097 :: int)"
  using floor_div_of_trunc [of 146097 z] by (simp add: sdiv_nonneg)

section \<open>The year of the era\<close>

definition era_start :: "int \<Rightarrow> int" where
  "era_start y = 365 * y + y div 4 - y div 100"

definition year_days :: "int \<Rightarrow> int" where
  "year_days y = (if (y + 1) mod 4 = 0 \<and> ((y + 1) mod 100 \<noteq> 0 \<or> y = 399) then 366 else 365)"

definition raw_yoe :: "int \<Rightarrow> int" where
  "raw_yoe doe = doe - doe div 1460 + doe div 36524 - doe div 146096"

definition yoe_of :: "int \<Rightarrow> int" where
  "yoe_of doe = raw_yoe doe div 365"

lemma less_div_mono:
  fixes x y b :: int
  assumes "0 < b" "x \<le> y"
  shows "x - x div b \<le> y - y div b"
proof -
  have "(y - x) * 1 \<le> (y - x) * b" using assms by (intro mult_left_mono) auto
  then have "y div b \<le> (x + (y - x) * b) div b"
    using assms(1) by (intro zdiv_mono1) auto
  then show ?thesis using assms(1) by simp
qed

lemma raw_yoe_mono: "x \<le> y \<Longrightarrow> raw_yoe x \<le> raw_yoe y"
proof -
  assume "x \<le> y"
  have q: "n div 146096 = n div 36524 div 4" for n :: int
    using zdiv_zmult2_eq [of 4 n 36524] by simp
  have "x - x div 1460 \<le> y - y div 1460" using \<open>x \<le> y\<close> by (intro less_div_mono) auto
  moreover have "x div 36524 - x div 36524 div 4 \<le> y div 36524 - y div 36524 div 4"
    using \<open>x \<le> y\<close> by (intro less_div_mono zdiv_mono1) auto
  ultimately show ?thesis by (simp add: raw_yoe_def q)
qed

lemma yoe_of_mono: "x \<le> y \<Longrightarrow> yoe_of x \<le> yoe_of y"
  using raw_yoe_mono [of x y] by (simp add: yoe_of_def zdiv_mono1)

lemma year_ends_checked:
  "list_all (\<lambda>y. yoe_of (era_start y) = y \<and> yoe_of (era_start y + year_days y - 1) = y \<and>
     era_start y + year_days y = (if y = 399 then 146097 else era_start (y + 1)) \<and>
     era_start y + year_days y \<le> 146097) [0..399]"
  by code_simp

lemma year_ends:
  assumes "0 \<le> y" "y \<le> 399"
  shows "yoe_of (era_start y) = y"
    and "yoe_of (era_start y + year_days y - 1) = y"
    and "era_start y + year_days y = (if y = 399 then 146097 else era_start (y + 1))"
    and "era_start y + year_days y \<le> 146097"
proof -
  have "y \<in> set [0..399]" using assms by simp
  note checked = bspec [OF year_ends_checked [unfolded list_all_iff] this]
  from checked show "yoe_of (era_start y) = y" by blast
  from checked show "yoe_of (era_start y + year_days y - 1) = y" by blast
  from checked show "era_start y + year_days y = (if y = 399 then 146097 else era_start (y + 1))"
    by blast
  from checked show "era_start y + year_days y \<le> 146097" by blast
qed

lemma yoe_brackets:
  assumes "0 \<le> doe" "doe \<le> 146096"
  shows "0 \<le> yoe_of doe" "yoe_of doe \<le> 399"
    and "era_start (yoe_of doe) \<le> doe" "doe < era_start (yoe_of doe) + year_days (yoe_of doe)"
proof -
  let ?y = "yoe_of doe"
  have "yoe_of 0 \<le> ?y" "?y \<le> yoe_of 146096" using assms by (auto intro: yoe_of_mono)
  then show y: "0 \<le> ?y" "?y \<le> 399" by (simp_all add: yoe_of_def raw_yoe_def)
  show "era_start ?y \<le> doe"
  proof (rule ccontr)
    assume "\<not> era_start ?y \<le> doe"
    moreover from this have "?y \<noteq> 0" using assms by (auto simp: era_start_def)
    ultimately have "doe \<le> era_start (?y - 1) + year_days (?y - 1) - 1"
      using y year_ends(3) [of "?y - 1"] by simp
    then have "?y \<le> yoe_of (era_start (?y - 1) + year_days (?y - 1) - 1)" by (rule yoe_of_mono)
    then show False using y \<open>?y \<noteq> 0\<close> year_ends(2) [of "?y - 1"] by simp
  qed
  show "doe < era_start ?y + year_days ?y"
  proof (rule ccontr)
    assume a: "\<not> doe < era_start ?y + year_days ?y"
    then have "?y \<noteq> 399" using assms year_ends(3) [of ?y] y by auto
    then have "era_start (?y + 1) \<le> doe" using a y year_ends(3) [of ?y] by simp
    then have "yoe_of (era_start (?y + 1)) \<le> ?y" by (rule yoe_of_mono)
    then show False using y \<open>?y \<noteq> 399\<close> year_ends(1) [of "?y + 1"] by simp
  qed
qed

lemma yoe_unique:
  assumes "0 \<le> y" "y \<le> 399" "era_start y \<le> doe" "doe < era_start y + year_days y"
  shows "yoe_of doe = y"
  using yoe_of_mono [OF assms(3)] yoe_of_mono [of doe "era_start y + year_days y - 1"] assms
    year_ends [OF assms(1,2)] by simp

section \<open>The month of the shifted year\<close>

definition month_day :: "int \<Rightarrow> int \<times> int" where
  "month_day doy =
    (let mp = (5 * doy + 2) div 153 in
     ((if mp < 10 then mp + 3 else mp - 9), doy - (153 * mp + 2) div 5 + 1))"

definition month_day_ok :: "int \<Rightarrow> bool" where
  "month_day_ok doy =
    (case (month_day doy, month_day (doy + 1)) of ((m, d), m', d') \<Rightarrow>
       1 \<le> m \<and> m \<le> 12 \<and> 1 \<le> d \<and>
       (if m = 2 then d = doy - 336 \<and> (doy < 365 \<longrightarrow> m' = 2 \<and> d' = d + 1)
        else if d < month_length 0 m then m' = m \<and> d' = d + 1
        else d = month_length 0 m \<and> m' = (if m < 12 then m + 1 else 1) \<and> d' = 1))"

lemma month_day_checked: "list_all month_day_ok [0..365]"
  by code_simp

lemma month_day_okI: "0 \<le> doy \<Longrightarrow> doy \<le> 365 \<Longrightarrow> month_day_ok doy"
proof -
  assume "0 \<le> doy" "doy \<le> 365"
  then have "doy \<in> set [0..365]" by simp
  then show ?thesis using month_day_checked by (simp only: list_all_iff)
qed

lemma month_day_ends: "month_day 0 = (3, 1)" "month_day 364 = (2, 28)" "month_day 365 = (2, 29)"
  by (simp_all add: month_day_def)

section \<open>The successor law\<close>

lemma civil_eq:
  "civil_from_days z =
    (let e = (z + 719468) div 146097; doe = (z + 719468) mod 146097; y = yoe_of doe;
         (m, d) = month_day (doe - era_start y)
     in (y + e * 400 + (if m \<le> 2 then 1 else 0), m, d))"
  by (simp only: civil_from_days_def era_is_floor yoe_of_def raw_yoe_def era_start_def month_day_def
      Let_def minus_div_mult_eq_mod prod.case)

lemma leap_shifted:
  assumes "0 \<le> y" "y \<le> 399"
  shows "leap_year (y + e * 400 + 1) \<longleftrightarrow> year_days y = 366"
proof -
  have split: "y + e * 400 + 1 = (y + 1) + (e * 100) * 4" "y + e * 400 + 1 = (y + 1) + (e * 4) * 100"
    "y + e * 400 + 1 = (y + 1) + e * 400"
    by simp_all
  have "4 dvd (y + e * 400 + 1) \<longleftrightarrow> (y + 1) mod 4 = 0"
    by (simp only: split(1) dvd_eq_mod_eq_0 mod_mult_self1)
  moreover have "100 dvd (y + e * 400 + 1) \<longleftrightarrow> (y + 1) mod 100 = 0"
    by (simp only: split(2) dvd_eq_mod_eq_0 mod_mult_self1)
  moreover have "400 dvd (y + e * 400 + 1) \<longleftrightarrow> (y + 1) mod 400 = 0"
    by (simp only: split(3) dvd_eq_mod_eq_0 mod_mult_self1)
  moreover have "(y + 1) mod 400 = 0 \<longleftrightarrow> y = 399"
    using assms by (cases "y = 399") (simp_all add: mod_pos_pos_trivial)
  ultimately show ?thesis by (simp only: leap_year_def year_days_def) auto
qed

lemma month_length_other: "m \<noteq> 2 \<Longrightarrow> month_length y m = month_length 0 m"
  by (simp add: month_length_def)

lemma civil_next_in_year:
  assumes y: "0 \<le> y" "y \<le> 399" and doy: "0 \<le> doy" "doy + 1 < year_days y"
  shows "(case month_day (doy + 1) of (m, d) \<Rightarrow> (y + e * 400 + (if m \<le> 2 then 1 else 0), m, d)) =
    next_day (case month_day doy of (m, d) \<Rightarrow> (y + e * 400 + (if m \<le> 2 then 1 else 0), m, d))"
proof -
  have days: "year_days y = 365 \<or> year_days y = 366" by (simp add: year_days_def)
  then have ok: "month_day_ok doy" using doy by (intro month_day_okI) auto
  obtain m d where md: "month_day doy = (m, d)" by fastforce
  obtain m' d' where md': "month_day (doy + 1) = (m', d')" by fastforce
  note facts = ok [unfolded month_day_ok_def md md' prod.case]
  have m: "1 \<le> m" "m \<le> 12" using facts by blast+
  have lt: "doy < 365" using doy days by linarith
  show ?thesis
  proof (cases "m = 2")
    case True
    have "d = doy - 336" "m' = 2" "d' = d + 1" using facts True lt by simp_all
    moreover have "d < month_length (y + e * 400 + 1) 2"
      using leap_shifted [OF y, of e] \<open>d = doy - 336\<close> doy(2) days by (auto simp: month_length_def)
    ultimately show ?thesis using True by (simp add: md md')
  next
    case False
    define Y where "Y = y + e * 400 + (if m \<le> 2 then 1 else 0)"
    have len: "month_length Y m = month_length 0 m" by (rule month_length_other [OF False])
    consider (day) "d < month_length 0 m" | (month) "\<not> d < month_length 0 m" "m < 12"
      | (year) "\<not> d < month_length 0 m" "m = 12"
      using m by linarith
    then show ?thesis
    proof cases
      case day
      then have "m' = m" "d' = d + 1" using facts False by simp_all
      then show ?thesis using day by (simp add: md md' len flip: Y_def)
    next
      case month
      then have "m' = m + 1" "d' = 1" using facts False by simp_all
      moreover have "y + e * 400 + (if m + 1 \<le> 2 then 1 else 0) = Y" using False by (simp add: Y_def)
      ultimately show ?thesis using month by (simp add: md md' len flip: Y_def)
    next
      case year
      then have "m' = 1" "d' = 1" using facts by simp_all
      moreover have "y + e * 400 = Y" using year by (simp add: Y_def)
      ultimately show ?thesis using year len by (simp add: md md')
    qed
  qed
qed

lemma era_step:
  fixes z doe e :: int
  assumes "z + 719468 = doe + e * 146097" "0 \<le> doe + k" "doe + k < 146097"
  shows "(z + k + 719468) div 146097 = e" "(z + k + 719468) mod 146097 = doe + k"
proof -
  have split: "z + k + 719468 = (doe + k) + e * 146097" using assms(1) by simp
  show "(z + k + 719468) div 146097 = e"
    unfolding split using assms(2,3) by (simp add: div_pos_pos_trivial)
  show "(z + k + 719468) mod 146097 = doe + k"
    unfolding split using assms(2,3) by (simp only: mod_mult_self1 mod_pos_pos_trivial)
qed

lemma civil_next:
  "civil_from_days (z + 1) = next_day (civil_from_days z)"
proof -
  define e where "e = (z + 719468) div 146097"
  define doe where "doe = (z + 719468) mod 146097"
  define y where "y = yoe_of doe"
  have z: "z + 719468 = doe + e * 146097" by (simp add: e_def doe_def)
  have doe: "0 \<le> doe" "doe \<le> 146096" unfolding doe_def
    using pos_mod_bound [of "146097 :: int" "z + 719468"] by simp_all
  note y = yoe_brackets [OF doe, folded y_def]
  have here: "civil_from_days z =
      (case month_day (doe - era_start y) of (m, d) \<Rightarrow> (y + e * 400 + (if m \<le> 2 then 1 else 0), m, d))"
    by (simp only: civil_eq Let_def flip: e_def doe_def y_def)
  show ?thesis
  proof (cases "doe + 1 < era_start y + year_days y")
    case True
    have "doe + 1 < 146097" using True year_ends(4) [OF y(1,2)] by linarith
    then have "(z + 1 + 719468) div 146097 = e" "(z + 1 + 719468) mod 146097 = doe + 1"
      using era_step [OF z, of 1] doe by simp_all
    moreover have "yoe_of (doe + 1) = y" using y True by (intro yoe_unique) auto
    ultimately have "civil_from_days (z + 1) =
        (case month_day (doe + 1 - era_start y) of (m, d) \<Rightarrow> (y + e * 400 + (if m \<le> 2 then 1 else 0), m, d))"
      by (simp only: civil_eq Let_def)
    then show ?thesis using civil_next_in_year [of y "doe - era_start y" e] y True
      by (simp add: here algebra_simps)
  next
    case False
    then have last: "doe + 1 = era_start y + year_days y" using y by simp
    have days: "year_days y = 365 \<or> year_days y = 366" by (simp add: year_days_def)
    have "month_day (doe - era_start y) = (2, year_days y - 337)"
      using last days month_day_ends by (auto simp: algebra_simps)
    moreover have "month_length (y + e * 400 + 1) 2 = year_days y - 337"
      using leap_shifted [OF y(1,2), of e] days by (auto simp: month_length_def)
    ultimately have next_is: "next_day (civil_from_days z) = (y + 1 + e * 400, 3, 1)"
      by (simp add: here)
    show ?thesis
    proof (cases "y = 399")
      case True
      then have "doe = 146096" using last year_ends(3) [of y] by simp
      then have "z + 719468 = -1 + (e + 1) * 146097" using z by simp
      note step = era_step [OF this, of 1]
      have "yoe_of 0 = 0" by (simp add: yoe_of_def raw_yoe_def)
      then have "civil_from_days (z + 1) = (0 + (e + 1) * 400, 3, 1)"
        using step by (simp add: civil_eq Let_def era_start_def month_day_ends)
      then show ?thesis using True by (simp add: next_is)
    next
      case not_last: False
      then have start: "doe + 1 = era_start (y + 1)" using last year_ends(3) [of y] y by simp
      then have "yoe_of (doe + 1) = y + 1" using year_ends(1) [of "y + 1"] y not_last by simp
      moreover have "doe + 1 < 146097" using start year_ends(4) [of "y + 1"] y not_last
        by (auto simp: year_days_def split: if_splits)
      ultimately have "civil_from_days (z + 1) = (y + 1 + e * 400, 3, 1)"
        using era_step [OF z, of 1] doe start by (simp add: civil_eq Let_def month_day_ends)
      then show ?thesis by (simp add: next_is)
    qed
  qed
qed

lemma civil_epoch: "civil_from_days 0 = (1970, 1, 1)"
  by code_simp

section \<open>Order\<close>

fun date_less :: "int \<times> int \<times> int \<Rightarrow> int \<times> int \<times> int \<Rightarrow> bool" where
  "date_less (y, m, d) (y', m', d') \<longleftrightarrow> y < y' \<or> y = y' \<and> (m < m' \<or> m = m' \<and> d < d')"

lemma date_less_trans: "date_less a b \<Longrightarrow> date_less b c \<Longrightarrow> date_less a c"
  by (cases a; cases b; cases c) auto

lemma date_less_irrefl [simp]: "\<not> date_less a a"
  by (cases a) auto

lemma date_less_next: "date_less a (next_day a)"
  by (cases a) auto

lemma civil_strict: "a < b \<Longrightarrow> date_less (civil_from_days a) (civil_from_days b)"
proof (induction b rule: int_gr_induct)
  case base
  then show ?case by (simp add: civil_next date_less_next)
next
  case (step b)
  then show ?case by (metis civil_next date_less_next date_less_trans)
qed

lemma civil_inject: "civil_from_days a = civil_from_days b \<longleftrightarrow> a = b"
  by (metis civil_strict date_less_irrefl linorder_neqE)

lemma civil_month_day:
  assumes "civil_from_days z = (y, m, d)"
  shows "1 \<le> m \<and> m \<le> 12 \<and> 1 \<le> d \<and> d \<le> 31"
proof -
  define doe where "doe = (z + 719468) mod 146097"
  define doy where "doy = doe - era_start (yoe_of doe)"
  have doe: "0 \<le> doe" "doe \<le> 146096" unfolding doe_def
    using pos_mod_bound [of "146097 :: int" "z + 719468"] by simp_all
  have doy: "0 \<le> doy" "doy \<le> 365" using yoe_brackets [OF doe]
    by (auto simp: doy_def year_days_def split: if_splits)
  have md: "month_day doy = (m, d)"
    using assms by (simp add: civil_eq Let_def doy_def doe_def split: prod.splits)
  obtain m' d' where "month_day (doy + 1) = (m', d')" by fastforce
  note facts = month_day_okI [OF doy, unfolded month_day_ok_def md this prod.case]
  have "d \<le> 31"
  proof (cases "m = 2")
    case True
    then show ?thesis using facts doy by simp
  next
    case False
    have "month_length 0 m \<le> 31" by (simp add: month_length_def)
    then show ?thesis using facts False by (cases "d < month_length 0 m") auto
  qed
  then show ?thesis using facts by blast
qed

section \<open>The timestamp\<close>

lemma iso_fields_nonneg:
  assumes "0 \<le> epoch_ms + offset_min * 60000"
  shows "iso_fields epoch_ms offset_min =
    (let secs = (epoch_ms + offset_min * 60000) div 1000; rem = secs mod 86400 in
     (civil_from_days (secs div 86400), (rem div 3600, rem mod 3600 div 60, rem mod 60),
      (offset_min < 0, \<bar>offset_min\<bar> div 60, \<bar>offset_min\<bar> mod 60)))"
proof -
  define secs where "secs = (epoch_ms + offset_min * 60000) div 1000"
  have "0 \<le> secs" using assms by (simp add: secs_def pos_imp_zdiv_nonneg_iff)
  moreover have "a smod b = a mod b" if "0 \<le> a" "0 < b" for a b :: int
    using that by (cases "a = 0") (simp_all add: signed_modulo_int_def)
  moreover have "\<not> secs mod 86400 < 0" by simp
  ultimately show ?thesis
    using assms by (simp add: iso_fields_def sdiv_nonneg Let_def abs_if flip: secs_def)
qed

lemma civil_year_bounds:
  assumes "civil_from_days z = (y, m, d)" "civil_from_days a = (ya, ma, da)"
    "civil_from_days b = (yb, mb, db)" "a \<le> z" "z \<le> b"
  shows "ya \<le> y \<and> y \<le> yb"
  using civil_strict [of a z] civil_strict [of z b] assms by (cases "a = z"; cases "z = b") auto

lemma civil_plausible_days: "civil_from_days 18261 = (2019, 12, 31)" "civil_from_days 47482 = (2100, 1, 1)"
  by code_simp+

definition stamp_fields_ok :: "(int \<times> int \<times> int) \<times> (int \<times> int \<times> int) \<times> (bool \<times> int \<times> int) \<Rightarrow> bool" where
  "stamp_fields_ok = (\<lambda>((y, m, d), (hh, mm, ss), (neg, oh, om)).
     0 \<le> y \<and> y < 10000 \<and> 0 \<le> m \<and> m < 100 \<and> 0 \<le> d \<and> d < 100 \<and> 0 \<le> hh \<and> hh < 100 \<and>
     0 \<le> mm \<and> mm < 100 \<and> 0 \<le> ss \<and> ss < 100 \<and> 0 \<le> oh \<and> oh < 100 \<and> 0 \<le> om \<and> om < 100)"

lemma offset_time_days:
  fixes epoch_ms :: int
  assumes "pure_epoch_plausible epoch_ms" "\<bar>offset_min\<bar> \<le> 840"
  shows "18261 \<le> (epoch_ms + offset_min * 60000) div 1000 div 86400"
    and "(epoch_ms + offset_min * 60000) div 1000 div 86400 \<le> 47482"
    and "0 \<le> epoch_ms + offset_min * 60000"
proof -
  have b: "1577786400000 \<le> epoch_ms + offset_min * 60000" "epoch_ms + offset_min * 60000 \<le> 4102495200000"
    using assms by (auto simp: pure_epoch_plausible_def PURE_EPOCH_MS_MIN_def PURE_EPOCH_MS_MAX_def abs_if
        split: if_splits)
  then show "0 \<le> epoch_ms + offset_min * 60000" by simp
  have "(1577786400000 :: int) div 1000 div 86400 \<le> (epoch_ms + offset_min * 60000) div 1000 div 86400"
    using b by (intro zdiv_mono1) auto
  then show "18261 \<le> (epoch_ms + offset_min * 60000) div 1000 div 86400" by simp
  have "(epoch_ms + offset_min * 60000) div 1000 div 86400 \<le> (4102495200000 :: int) div 1000 div 86400"
    using b by (intro zdiv_mono1) auto
  then show "(epoch_ms + offset_min * 60000) div 1000 div 86400 \<le> 47482" by simp
qed

lemma mod_below: "0 < b \<Longrightarrow> b \<le> c \<Longrightarrow> a mod b < (c :: int)"
  by (meson dual_order.strict_trans1 pos_mod_bound)

lemma iso_fields_ok:
  assumes "pure_epoch_plausible epoch_ms" "\<bar>offset_min\<bar> \<le> 840"
  shows "stamp_fields_ok (iso_fields epoch_ms offset_min)"
proof -
  note days = offset_time_days [OF assms]
  obtain y m d where c: "civil_from_days ((epoch_ms + offset_min * 60000) div 1000 div 86400) = (y, m, d)"
    by (metis prod_cases3)
  have y: "0 \<le> y" "y < 10000"
    using civil_year_bounds [OF c civil_plausible_days days(1,2)] by simp_all
  have md: "0 \<le> m" "m < 100" "0 \<le> d" "d < 100" using civil_month_day [OF c] by simp_all
  have oh: "\<bar>offset_min\<bar> div 60 < 100" "0 \<le> \<bar>offset_min\<bar> div 60"
    using assms(2) by (simp_all add: div_less_iff_less_mult pos_imp_zdiv_nonneg_iff)
  define r where "r = (epoch_ms + offset_min * 60000) div 1000 mod 86400"
  have r: "0 \<le> r" "r < 86400" by (simp_all add: r_def)
  have hh: "0 \<le> r div 3600" "r div 3600 < 100" "0 \<le> r mod 3600 div 60" "r mod 3600 div 60 < 100"
    using r mod_below [of 3600 3600 r] by (simp_all add: div_less_iff_less_mult pos_imp_zdiv_nonneg_iff)
  have low: "0 \<le> r mod 60" "r mod 60 < 100" "0 \<le> \<bar>offset_min\<bar> mod 60" "\<bar>offset_min\<bar> mod 60 < 100"
    by (simp_all add: mod_below)
  show ?thesis
    unfolding iso_fields_nonneg [OF days(3)] Let_def r_def [symmetric] c stamp_fields_ok_def prod.case
    by (intro conjI y md oh hh low)
qed

definition stamp_text :: "(int \<times> int \<times> int) \<times> (int \<times> int \<times> int) \<times> (bool \<times> int \<times> int) \<Rightarrow> string" where
  "stamp_text = (\<lambda>((year, month, day), (hh, mm, ss), (neg, oh, om)).
     dec0 4 year @ ''-'' @ dec0 2 month @ ''-'' @ dec0 2 day @ ''T'' @ dec0 2 hh @ '':'' @ dec0 2 mm
     @ '':'' @ dec0 2 ss @ (if neg then ''-'' else ''+'') @ dec0 2 oh @ '':'' @ dec0 2 om)"

lemma length_dec0: "0 < w \<Longrightarrow> 0 \<le> i \<Longrightarrow> i < 10 ^ w \<Longrightarrow> length (dec0 w i) = w"
  by (simp add: dec0_def length_pad0 nat_less_iff)

lemma dec0_inject: "0 \<le> i \<Longrightarrow> 0 \<le> j \<Longrightarrow> dec0 w i = dec0 w j \<longleftrightarrow> i = j"
  by (simp add: dec0_def pad0_inject nat_eq_iff)

lemma length_stamp_text: "stamp_fields_ok f \<Longrightarrow> length (stamp_text f) = 25"
  by (auto simp: stamp_fields_ok_def stamp_text_def length_dec0 split: prod.splits)

lemma stamp_text_inject:
  assumes "stamp_fields_ok f" "stamp_fields_ok g"
  shows "stamp_text f = stamp_text g \<longleftrightarrow> f = g"
  using assms
  by (auto simp: stamp_fields_ok_def stamp_text_def append_eq_append_conv length_dec0 dec0_inject
      split: prod.splits if_splits)

lemma format_is_stamp:
  assumes "pure_epoch_plausible epoch_ms" "\<bar>offset_min\<bar> \<le> 840" "26 \<le> cap"
  shows "pure_format_iso8601 epoch_ms offset_min cap = stamp_text (iso_fields epoch_ms offset_min)"
proof -
  have "pure_format_iso8601 epoch_ms offset_min cap = take (cap - 1) (stamp_text (iso_fields epoch_ms offset_min))"
    by (simp add: pure_format_iso8601_def stamp_text_def split: prod.splits)
  then show ?thesis using length_stamp_text [OF iso_fields_ok [OF assms(1,2)]] assms(3) by simp
qed

lemma second_of_local:
  fixes e :: int
  shows "(e + k * 60000) div 1000 = e div 1000 + k * 60"
proof -
  have "e + k * 60000 = e + (k * 60) * 1000" by simp
  then show ?thesis by (simp only: div_mult_self1)
qed

lemma clock_fields_inject:
  fixes r s :: int
  assumes "r div 3600 = s div 3600" "r mod 3600 div 60 = s mod 3600 div 60" "r mod 60 = s mod 60"
  shows "r = s"
proof -
  have split: "x = 3600 * (x div 3600) + 60 * (x mod 3600 div 60) + x mod 60" for x :: int
  proof -
    have "x mod 3600 mod 60 = x mod 60" by (rule mod_mod_cancel) simp
    then show ?thesis using mult_div_mod_eq [of 60 "x mod 3600"] mult_div_mod_eq [of 3600 x] by linarith
  qed
  show ?thesis by (subst split [of r], subst split [of s]) (simp only: assms)
qed

lemma iso_fields_inject:
  assumes e: "pure_epoch_plausible e1" "pure_epoch_plausible e2" and o: "\<bar>o1\<bar> \<le> 840" "\<bar>o2\<bar> \<le> 840"
  shows "iso_fields e1 o1 = iso_fields e2 o2 \<longleftrightarrow> e1 div 1000 = e2 div 1000 \<and> o1 = o2"
proof
  let ?s1 = "(e1 + o1 * 60000) div 1000" and ?s2 = "(e2 + o2 * 60000) div 1000"
  note n1 = iso_fields_nonneg [OF offset_time_days(3) [OF e(1) o(1)]]
    and n2 = iso_fields_nonneg [OF offset_time_days(3) [OF e(2) o(2)]]
  assume eq: "iso_fields e1 o1 = iso_fields e2 o2"
  then have d: "?s1 div 86400 = ?s2 div 86400" and off: "(o1 < 0) = (o2 < 0)"
    "\<bar>o1\<bar> div 60 = \<bar>o2\<bar> div 60" "\<bar>o1\<bar> mod 60 = \<bar>o2\<bar> mod 60"
    and r: "?s1 mod 86400 = ?s2 mod 86400"
    unfolding n1 n2 Let_def prod.inject civil_inject by (blast intro: clock_fields_inject)+
  have "\<bar>o1\<bar> = \<bar>o2\<bar>" using off(2,3) by (metis mult_div_mod_eq)
  then have same: "o1 = o2" using off(1) by linarith
  have "?s1 = ?s2" using d r by (metis mult_div_mod_eq)
  then show "e1 div 1000 = e2 div 1000 \<and> o1 = o2" using same by (simp add: second_of_local)
next
  note n1 = iso_fields_nonneg [OF offset_time_days(3) [OF e(1) o(1)]]
    and n2 = iso_fields_nonneg [OF offset_time_days(3) [OF e(2) o(2)]]
  assume "e1 div 1000 = e2 div 1000 \<and> o1 = o2"
  then show "iso_fields e1 o1 = iso_fields e2 o2" unfolding n1 n2 second_of_local by simp
qed

section \<open>Properties\<close>

text \<open>
  C36: The day arithmetic of a capture's timestamp is the proleptic Gregorian calendar: day 0 is
  1970-01-01, and the date of day \<open>z + 1\<close>, for every integer \<open>z\<close>, is the calendar's next day after the
  date of day \<open>z\<close>, leap years and century years included.
\<close>

theorem civil_is_gregorian:
  "civil_from_days 0 = (1970, 1, 1) \<and> civil_from_days (z + 1) = next_day (civil_from_days z)"
  by (simp add: civil_epoch civil_next)

lemma timestamps_identify_seconds_parts:
  assumes "pure_epoch_plausible e1" "pure_epoch_plausible e2" "\<bar>o1\<bar> \<le> 840" "\<bar>o2\<bar> \<le> 840" "26 \<le> cap"
  shows "length (pure_format_iso8601 e1 o1 cap) = 25"
    and "pure_format_iso8601 e1 o1 cap = pure_format_iso8601 e2 o2 cap \<longleftrightarrow>
      e1 div 1000 = e2 div 1000 \<and> o1 = o2"
  using assms by (simp_all add: format_is_stamp length_stamp_text stamp_text_inject iso_fields_ok
      iso_fields_inject)

text \<open>
  For plausible times, offsets within fourteen hours and a buffer of at least 26 bytes, the printed
  timestamp has 25 characters and loses nothing but the milliseconds: two captures get the same text
  exactly when they were taken in the same second and printed with the same offset.
\<close>

theorem timestamps_identify_seconds:
  assumes "pure_epoch_plausible e1" "pure_epoch_plausible e2" "\<bar>o1\<bar> \<le> 840" "\<bar>o2\<bar> \<le> 840" "26 \<le> cap"
  shows "length (pure_format_iso8601 e1 o1 cap) = 25 \<and>
    (pure_format_iso8601 e1 o1 cap = pure_format_iso8601 e2 o2 cap \<longleftrightarrow>
      e1 div 1000 = e2 div 1000 \<and> o1 = o2)"
  using timestamps_identify_seconds_parts [OF assms] by blast

theorem timestamps_identify_seconds_witness:
  "length (pure_format_iso8601 1577836800000 60 40) = 25 \<and>
   pure_format_iso8601 1577836800000 60 40 \<noteq> pure_format_iso8601 1577836801000 60 40"
  using timestamps_identify_seconds [of 1577836800000 1577836801000 60 60 40]
  by (simp add: pure_epoch_plausible_def PURE_EPOCH_MS_MIN_def PURE_EPOCH_MS_MAX_def)

end
