(* ===== verification/Wall_Clock.thy ===== *)
theory Wall_Clock
  imports Pure_Clock
begin

text \<open>
  The wall clock of the body, \<^verbatim>\<open>firmware/p4/main/clock.c\<close>: the system time, the metadata the module
  keeps beside it, and what the two hold of it across a power cycle in NVS. The properties: what every
  reachable clock satisfies, what a boot may do to the time, and that the automatic source can set the
  clock back at most once in a session.

  The system time is the pair \<^verbatim>\<open>settimeofday\<close> stores. The NVS namespace \<^verbatim>\<open>clock\<close> is its two entries as last
  committed; whether a call of the NVS library succeeds is an argument.
\<close>

section \<open>The code\<close>

datatype clock_source = CLOCK_UNSET | CLOCK_PERSISTED | CLOCK_NETWORK | CLOCK_HOST

record clock =
  tv_sec :: int
  tv_usec :: int
  s_offset_min :: int
  s_offset_known :: bool
  s_source :: clock_source
  nvs_epoch_ms :: "int option"
  nvs_off_min :: "int option"

record nvs_answer =
  open_ok :: bool
  set_epoch_ok :: bool
  set_off_ok :: bool

fun rank_of :: "clock_source \<Rightarrow> int" where
  "rank_of CLOCK_HOST = PURE_CLOCK_RANK_HOST"
| "rank_of CLOCK_NETWORK = PURE_CLOCK_RANK_NETWORK"
| "rank_of CLOCK_PERSISTED = PURE_CLOCK_RANK_PERSISTED"
| "rank_of CLOCK_UNSET = PURE_CLOCK_RANK_UNSET"

definition wall_now_ms :: "clock \<Rightarrow> int" where
  "wall_now_ms c = tv_sec c * 1000 + tv_usec c sdiv 1000"

definition wall_set_ms :: "int \<Rightarrow> clock \<Rightarrow> clock" where
  "wall_set_ms epoch_ms c = c\<lparr>tv_sec := epoch_ms sdiv 1000, tv_usec := (epoch_ms smod 1000) * 1000\<rparr>"

definition clock_now_ms :: "clock \<Rightarrow> int" where
  "clock_now_ms c = wall_now_ms c"

definition clock_init :: "bool \<Rightarrow> clock \<Rightarrow> clock" where
  "clock_init nvs_open_ok c =
    (let have_saved = (nvs_open_ok \<and> nvs_epoch_ms c \<noteq> None);
         saved = (if have_saved then the (nvs_epoch_ms c) else 0);
         c1 = (if nvs_open_ok
               then (case nvs_off_min c of None \<Rightarrow> c
                     | Some off \<Rightarrow> c\<lparr>s_offset_min := off, s_offset_known := True\<rparr>)
               else c);
         system_now = wall_now_ms c1
     in case pure_clock_restore_action have_saved saved system_now of
          PURE_CLOCK_RESTORE_SAVED \<Rightarrow> (wall_set_ms saved c1)\<lparr>s_source := CLOCK_PERSISTED\<rparr>
        | PURE_CLOCK_KEEP_SYSTEM \<Rightarrow> c1\<lparr>s_source := CLOCK_PERSISTED\<rparr>
        | PURE_CLOCK_UNSET \<Rightarrow> c1\<lparr>s_source := CLOCK_UNSET\<rparr>)"

definition clock_persist :: "nvs_answer \<Rightarrow> clock \<Rightarrow> clock" where
  "clock_persist nvs c =
    (if s_source c = CLOCK_UNSET then c
     else if \<not> open_ok nvs then c
     else if set_epoch_ok nvs \<and> set_off_ok nvs
          then c\<lparr>nvs_epoch_ms := Some (clock_now_ms c), nvs_off_min := Some (s_offset_min c)\<rparr>
          else c)"

definition clock_set :: "nvs_answer \<Rightarrow> int \<Rightarrow> int \<Rightarrow> clock \<Rightarrow> clock" where
  "clock_set nvs epoch_ms utc_offset_min c =
    (if \<not> pure_epoch_plausible epoch_ms then c
     else clock_persist nvs
            ((wall_set_ms epoch_ms c)
               \<lparr>s_offset_min := pure_clamp_utc_offset_min utc_offset_min,
                s_offset_known := True, s_source := CLOCK_HOST\<rparr>))"

definition clock_set_network :: "nvs_answer \<Rightarrow> int \<Rightarrow> clock \<Rightarrow> bool \<times> clock" where
  "clock_set_network nvs epoch_ms c =
    (if pure_clock_adopt_action (rank_of (s_source c)) (clock_now_ms c) PURE_CLOCK_RANK_NETWORK epoch_ms
          \<noteq> PURE_CLOCK_ADOPT
     then (False, c)
     else (True, clock_persist nvs ((wall_set_ms epoch_ms c)\<lparr>s_source := CLOCK_NETWORK\<rparr>)))"

definition clock_trustworthy_for_tls :: "clock \<Rightarrow> bool" where
  "clock_trustworthy_for_tls c \<longleftrightarrow> s_source c = CLOCK_HOST \<or> s_source c = CLOCK_NETWORK"

definition clock_local_hour :: "clock \<Rightarrow> int" where
  "clock_local_hour c =
    (if s_source c = CLOCK_UNSET then -1
     else let local_min = clock_now_ms c sdiv 60000 + s_offset_min c
          in (((local_min smod 1440) + 1440) smod 1440) sdiv 60)"

fun clock_source_str :: "clock_source \<Rightarrow> string" where
  "clock_source_str CLOCK_HOST = ''host''"
| "clock_source_str CLOCK_NETWORK = ''network''"
| "clock_source_str CLOCK_PERSISTED = ''persisted''"
| "clock_source_str CLOCK_UNSET = ''unset''"

definition clock_iso8601 :: "clock \<Rightarrow> nat \<Rightarrow> string" where
  "clock_iso8601 c cap = pure_format_iso8601 (clock_now_ms c) (s_offset_min c) cap"

definition clock_set_offset :: "nvs_answer \<Rightarrow> int \<Rightarrow> clock \<Rightarrow> clock" where
  "clock_set_offset nvs utc_offset_min c =
    (let c1 = c\<lparr>s_offset_min := pure_clamp_utc_offset_min utc_offset_min, s_offset_known := True\<rparr>
     in if \<not> open_ok nvs then c1
        else if set_off_ok nvs then c1\<lparr>nvs_off_min := Some (s_offset_min c1)\<rparr> else c1)"

section \<open>Sessions\<close>

text \<open>
  One session is the time between two boots; in it the clock runs and the four operations are called
  in any order. A power cycle keeps NVS, gives the system clock whatever reading the hardware kept, and
  runs \<^const>\<open>clock_init\<close> on fresh statics.
\<close>

datatype clock_event =
  Tick int | Host nvs_answer int int | Network nvs_answer int | Zone nvs_answer int | Persist nvs_answer

definition clock_tick :: "int \<Rightarrow> clock \<Rightarrow> clock" where
  "clock_tick us c = (let t = tv_usec c + us in c\<lparr>tv_sec := tv_sec c + t div 1000000, tv_usec := t mod 1000000\<rparr>)"

fun clock_apply :: "clock_event \<Rightarrow> clock \<Rightarrow> clock" where
  "clock_apply (Tick us) c = clock_tick us c"
| "clock_apply (Host nvs e off) c = clock_set nvs e off c"
| "clock_apply (Network nvs e) c = snd (clock_set_network nvs e c)"
| "clock_apply (Zone nvs off) c = clock_set_offset nvs off c"
| "clock_apply (Persist nvs) c = clock_persist nvs c"

fun event_ok :: "clock_event \<Rightarrow> bool" where
  "event_ok (Tick us) \<longleftrightarrow> 0 \<le> us"
| "event_ok _ \<longleftrightarrow> True"

definition powered_off :: "int \<Rightarrow> int \<Rightarrow> clock \<Rightarrow> clock" where
  "powered_off sec usec c =
    \<lparr>tv_sec = sec, tv_usec = usec, s_offset_min = 0, s_offset_known = False, s_source = CLOCK_UNSET,
     nvs_epoch_ms = nvs_epoch_ms c, nvs_off_min = nvs_off_min c\<rparr>"

definition factory_clock :: clock where
  "factory_clock =
    \<lparr>tv_sec = 0, tv_usec = 0, s_offset_min = 0, s_offset_known = False, s_source = CLOCK_UNSET,
     nvs_epoch_ms = None, nvs_off_min = None\<rparr>"

inductive clock_reachable :: "clock \<Rightarrow> bool" where
  factory: "clock_reachable factory_clock"
| event: "clock_reachable c \<Longrightarrow> event_ok e \<Longrightarrow> clock_reachable (clock_apply e c)"
| reboot: "clock_reachable c \<Longrightarrow> 0 \<le> sec \<Longrightarrow> 0 \<le> usec \<Longrightarrow> usec < 1000000 \<Longrightarrow>
    clock_reachable (clock_init ok (powered_off sec usec c))"

definition clock_inv :: "clock \<Rightarrow> bool" where
  "clock_inv c \<longleftrightarrow>
    0 \<le> tv_usec c \<and> tv_usec c < 1000000 \<and> \<bar>s_offset_min c\<bar> \<le> 840 \<and>
    (\<forall>off. nvs_off_min c = Some off \<longrightarrow> \<bar>off\<bar> \<le> 840) \<and>
    (\<forall>ms. nvs_epoch_ms c = Some ms \<longrightarrow> PURE_EPOCH_MS_MIN \<le> ms) \<and>
    (s_source c \<noteq> CLOCK_UNSET \<longrightarrow> PURE_EPOCH_MS_MIN \<le> clock_now_ms c)"

section \<open>The system time\<close>

lemma smod_nonneg: "0 \<le> a \<Longrightarrow> 0 < b \<Longrightarrow> a smod b = a mod (b :: int)"
  by (cases "a = 0") (simp_all add: signed_modulo_int_def)

lemma wall_now_set [simp]: "0 \<le> ms \<Longrightarrow> wall_now_ms (wall_set_ms ms c) = ms"
  by (simp add: wall_now_ms_def wall_set_ms_def sdiv_nonneg smod_nonneg)

lemma plausible_nonneg: "pure_epoch_plausible ms \<Longrightarrow> 0 \<le> ms"
  by (simp add: pure_epoch_plausible_def PURE_EPOCH_MS_MIN_def)

lemma wall_now_upd [simp]:
  "wall_now_ms (c\<lparr>s_offset_min := a\<rparr>) = wall_now_ms c"
  "wall_now_ms (c\<lparr>s_offset_known := b\<rparr>) = wall_now_ms c"
  "wall_now_ms (c\<lparr>s_source := s\<rparr>) = wall_now_ms c"
  "wall_now_ms (c\<lparr>nvs_epoch_ms := e\<rparr>) = wall_now_ms c"
  "wall_now_ms (c\<lparr>nvs_off_min := f\<rparr>) = wall_now_ms c"
  by (simp_all add: wall_now_ms_def)

lemma clock_persist_wall [simp]: "wall_now_ms (clock_persist nvs c) = wall_now_ms c"
  by (simp add: clock_persist_def)

lemma clock_persist_source [simp]: "s_source (clock_persist nvs c) = s_source c"
  by (simp add: clock_persist_def)

lemma tick_forward:
  assumes "0 \<le> tv_usec c" "0 \<le> us"
  shows "wall_now_ms c \<le> wall_now_ms (clock_tick us c)"
proof -
  define t where "t = tv_usec c + us"
  define q where "q = t div 1000000"
  define r where "r = t mod 1000000"
  have "t = r + (q * 1000) * 1000" by (simp add: q_def r_def)
  then have "t div 1000 = r div 1000 + q * 1000" by simp
  moreover have "tv_usec c div 1000 \<le> t div 1000" using assms by (intro zdiv_mono1) (auto simp: t_def)
  moreover have "0 \<le> r" by (simp add: r_def)
  moreover have "wall_now_ms (clock_tick us c) = (tv_sec c + q) * 1000 + r sdiv 1000"
    by (simp add: clock_tick_def wall_now_ms_def Let_def q_def r_def t_def)
  ultimately show ?thesis using assms by (simp add: wall_now_ms_def sdiv_nonneg algebra_simps)
qed

lemma clamp_bounded [simp]: "\<bar>pure_clamp_utc_offset_min off\<bar> \<le> 840"
  by (auto simp: pure_clamp_utc_offset_min_def)

section \<open>The invariant\<close>

lemma wall_set_usec:
  assumes "pure_epoch_plausible ms"
  shows "0 \<le> tv_usec (wall_set_ms ms c) \<and> tv_usec (wall_set_ms ms c) < 1000000"
  using plausible_nonneg [OF assms] by (simp add: wall_set_ms_def smod_nonneg)

lemma wall_set_rest [simp]:
  "s_offset_min (wall_set_ms ms c) = s_offset_min c" "s_source (wall_set_ms ms c) = s_source c"
  "nvs_epoch_ms (wall_set_ms ms c) = nvs_epoch_ms c" "nvs_off_min (wall_set_ms ms c) = nvs_off_min c"
  by (simp_all add: wall_set_ms_def)

lemma persist_inv: "clock_inv c \<Longrightarrow> clock_inv (clock_persist nvs c)"
  by (simp add: clock_persist_def clock_inv_def clock_now_ms_def)

lemma plausible_min: "pure_epoch_plausible ms \<Longrightarrow> PURE_EPOCH_MS_MIN \<le> ms"
  by (simp add: pure_epoch_plausible_def)

lemma adopted_inv:
  assumes "clock_inv c" "pure_epoch_plausible e"
  shows "clock_inv ((wall_set_ms e c)\<lparr>s_source := src\<rparr>)"
    and "clock_inv ((wall_set_ms e c)\<lparr>s_offset_min := pure_clamp_utc_offset_min off, s_offset_known := True,
           s_source := src\<rparr>)"
  using assms wall_set_usec [of e c] plausible_nonneg [of e] plausible_min [of e]
  by (simp_all add: clock_inv_def clock_now_ms_def)

lemma clock_set_inv: "clock_inv c \<Longrightarrow> clock_inv (clock_set nvs e off c)"
  by (simp add: clock_set_def persist_inv adopted_inv)

lemma adopt_plausible:
  "pure_clock_adopt_action r now r' e = PURE_CLOCK_ADOPT \<Longrightarrow> pure_epoch_plausible e"
  by (simp add: pure_clock_adopt_action_def split: if_splits)

lemma clock_set_network_inv: "clock_inv c \<Longrightarrow> clock_inv (snd (clock_set_network nvs e c))"
  by (auto simp: clock_set_network_def intro!: persist_inv adopted_inv adopt_plausible)

lemma clock_set_offset_inv: "clock_inv c \<Longrightarrow> clock_inv (clock_set_offset nvs off c)"
  by (auto simp: clock_set_offset_def clock_inv_def clock_now_ms_def Let_def)

lemma clock_tick_inv:
  assumes "clock_inv c" "0 \<le> us"
  shows "clock_inv (clock_tick us c)"
proof -
  have "wall_now_ms c \<le> wall_now_ms (clock_tick us c)"
    using assms by (intro tick_forward) (simp_all add: clock_inv_def)
  then show ?thesis using assms by (auto simp: clock_inv_def clock_now_ms_def) (auto simp: clock_tick_def Let_def)
qed

lemma clock_apply_inv: "clock_inv c \<Longrightarrow> event_ok e \<Longrightarrow> clock_inv (clock_apply e c)"
  by (cases e) (simp_all add: clock_tick_inv clock_set_inv clock_set_network_inv clock_set_offset_inv persist_inv)

lemma restore_actions:
  "pure_clock_restore_action h s n = PURE_CLOCK_RESTORE_SAVED \<Longrightarrow> h \<and> pure_epoch_plausible s \<and> (pure_epoch_plausible n \<longrightarrow> n < s)"
  "pure_clock_restore_action h s n = PURE_CLOCK_KEEP_SYSTEM \<Longrightarrow> pure_epoch_plausible n \<and> (h \<and> pure_epoch_plausible s \<longrightarrow> s \<le> n)"
  "pure_clock_restore_action h s n = PURE_CLOCK_UNSET \<Longrightarrow> \<not> pure_epoch_plausible n \<and> \<not> (h \<and> pure_epoch_plausible s)"
  by (auto simp: pure_clock_restore_action_def Let_def split: if_splits)

definition booted :: "bool \<Rightarrow> clock \<Rightarrow> clock" where
  "booted ok c = (if ok then (case nvs_off_min c of None \<Rightarrow> c
     | Some off \<Rightarrow> c\<lparr>s_offset_min := off, s_offset_known := True\<rparr>) else c)"

lemma booted_simps [simp]:
  "wall_now_ms (booted ok c) = wall_now_ms c" "nvs_epoch_ms (booted ok c) = nvs_epoch_ms c"
  "nvs_off_min (booted ok c) = nvs_off_min c" "tv_usec (booted ok c) = tv_usec c"
  by (auto simp: booted_def split: option.splits)

lemma clock_init_cases [consumes 1]:
  assumes saved: "saved = (if ok \<and> nvs_epoch_ms c \<noteq> None then the (nvs_epoch_ms c) else 0)"
  obtains
    (restore) "clock_init ok c = (wall_set_ms saved (booted ok c))\<lparr>s_source := CLOCK_PERSISTED\<rparr>"
      "ok" "nvs_epoch_ms c = Some saved" "pure_epoch_plausible saved"
      "pure_epoch_plausible (wall_now_ms c) \<longrightarrow> wall_now_ms c < saved"
  | (keep) "clock_init ok c = (booted ok c)\<lparr>s_source := CLOCK_PERSISTED\<rparr>" "pure_epoch_plausible (wall_now_ms c)"
      "ok \<and> nvs_epoch_ms c = Some saved \<and> pure_epoch_plausible saved \<longrightarrow> saved \<le> wall_now_ms c"
  | (unset) "clock_init ok c = (booted ok c)\<lparr>s_source := CLOCK_UNSET\<rparr>" "\<not> pure_epoch_plausible (wall_now_ms c)"
      "\<not> (ok \<and> nvs_epoch_ms c = Some saved \<and> pure_epoch_plausible saved)"
proof -
  let ?h = "ok \<and> nvs_epoch_ms c \<noteq> None"
  have eq: "clock_init ok c = (case pure_clock_restore_action ?h saved (wall_now_ms c) of
          PURE_CLOCK_RESTORE_SAVED \<Rightarrow> (wall_set_ms saved (booted ok c))\<lparr>s_source := CLOCK_PERSISTED\<rparr>
        | PURE_CLOCK_KEEP_SYSTEM \<Rightarrow> (booted ok c)\<lparr>s_source := CLOCK_PERSISTED\<rparr>
        | PURE_CLOCK_UNSET \<Rightarrow> (booted ok c)\<lparr>s_source := CLOCK_UNSET\<rparr>)"
    by (simp only: clock_init_def Let_def booted_simps flip: booted_def saved)
  show thesis
  proof (cases "pure_clock_restore_action ?h saved (wall_now_ms c)")
    case PURE_CLOCK_UNSET
    then show ?thesis using restore_actions(3) [OF PURE_CLOCK_UNSET] eq by (intro unset) auto
  next
    case PURE_CLOCK_KEEP_SYSTEM
    then show ?thesis using restore_actions(2) [OF PURE_CLOCK_KEEP_SYSTEM] eq saved by (intro keep) auto
  next
    case PURE_CLOCK_RESTORE_SAVED
    then show ?thesis using restore_actions(1) [OF PURE_CLOCK_RESTORE_SAVED] eq saved
      by (intro restore) auto
  qed
qed

lemma booted_offset: "clock_inv c \<Longrightarrow> \<bar>s_offset_min (booted ok c)\<bar> \<le> 840"
  by (auto simp: booted_def clock_inv_def split: option.splits)

lemma clock_init_inv:
  assumes "clock_inv c"
  shows "clock_inv (clock_init ok c)"
proof -
  note b = booted_offset [OF assms, of ok] and inv = assms [unfolded clock_inv_def]
  define saved where "saved = (if ok \<and> nvs_epoch_ms c \<noteq> None then the (nvs_epoch_ms c) else 0)"
  from saved_def show ?thesis
  proof (cases rule: clock_init_cases)
    case restore
    then show ?thesis using inv b wall_set_usec [OF restore(4), of "booted ok c"]
        plausible_nonneg [OF restore(4)] plausible_min [OF restore(4)]
      by (simp add: clock_inv_def clock_now_ms_def)
  next
    case keep
    then show ?thesis using inv b plausible_min [OF keep(2)] by (simp add: clock_inv_def clock_now_ms_def)
  next
    case unset
    then show ?thesis using inv b by (simp add: clock_inv_def clock_now_ms_def)
  qed
qed

lemma powered_off_inv:
  "clock_inv c \<Longrightarrow> 0 \<le> usec \<Longrightarrow> usec < 1000000 \<Longrightarrow> clock_inv (powered_off sec usec c)"
  by (simp add: powered_off_def clock_inv_def)

lemma reachable_inv: "clock_reachable c \<Longrightarrow> clock_inv c"
proof (induction rule: clock_reachable.induct)
  case factory
  then show ?case by (simp add: factory_clock_def clock_inv_def)
qed (simp_all add: clock_apply_inv clock_init_inv powered_off_inv)

section \<open>Moves backwards\<close>

fun by_host :: "clock_event \<Rightarrow> bool" where
  "by_host (Host _ _ _) \<longleftrightarrow> True"
| "by_host _ \<longleftrightarrow> False"

fun backs :: "clock_event list \<Rightarrow> clock \<Rightarrow> nat" where
  "backs [] c = 0"
| "backs (e # es) c =
    (if clock_now_ms (clock_apply e c) < clock_now_ms c then 1 else 0) + backs es (clock_apply e c)"

lemma network_trust:
  "clock_trustworthy_for_tls c \<Longrightarrow> clock_trustworthy_for_tls (snd (clock_set_network nvs e c))"
  by (simp add: clock_set_network_def clock_trustworthy_for_tls_def)

lemma apply_keeps_trust:
  "clock_trustworthy_for_tls c \<Longrightarrow> clock_trustworthy_for_tls (clock_apply e c)"
  by (cases e) (simp_all add: network_trust, auto simp: clock_trustworthy_for_tls_def clock_tick_def Let_def
      clock_set_def clock_set_offset_def)

lemma network_forward:
  assumes "clock_trustworthy_for_tls c"
  shows "clock_now_ms c \<le> clock_now_ms (snd (clock_set_network nvs e c))"
proof (cases "pure_clock_adopt_action (rank_of (s_source c)) (clock_now_ms c) PURE_CLOCK_RANK_NETWORK e
    = PURE_CLOCK_ADOPT")
  case True
  then have "clock_now_ms c \<le> e"
    using assms by (auto simp: pure_clock_adopt_action_def clock_trustworthy_for_tls_def PURE_CLOCK_RANK_HOST_def
        PURE_CLOCK_RANK_NETWORK_def split: if_splits)
  then show ?thesis using True plausible_nonneg [OF adopt_plausible [OF True]]
    by (simp add: clock_set_network_def clock_now_ms_def)
next
  case False
  then show ?thesis by (simp add: clock_set_network_def)
qed

lemma network_back_gains_trust:
  assumes "clock_now_ms (snd (clock_set_network nvs e c)) < clock_now_ms c"
  shows "clock_trustworthy_for_tls (snd (clock_set_network nvs e c))"
  using assms by (auto simp: clock_set_network_def clock_trustworthy_for_tls_def)

lemma other_forward:
  "clock_inv c \<Longrightarrow> event_ok e \<Longrightarrow> \<not> by_host e \<Longrightarrow> (\<And>nvs ms. e \<noteq> Network nvs ms) \<Longrightarrow>
    clock_now_ms c \<le> clock_now_ms (clock_apply e c)"
  by (cases e) (auto simp: clock_now_ms_def clock_inv_def clock_set_offset_def Let_def intro: tick_forward)

lemma backs_bound:
  assumes "clock_inv c" "list_all event_ok es" "list_all (\<lambda>e. \<not> by_host e) es"
  shows "backs es c \<le> (if clock_trustworthy_for_tls c then 0 else 1)"
  using assms
proof (induction es arbitrary: c)
  case Nil
  then show ?case by simp
next
  case (Cons e es)
  then have rest: "backs es (clock_apply e c) \<le> (if clock_trustworthy_for_tls (clock_apply e c) then 0 else 1)"
    by (simp add: clock_apply_inv)
  show ?case
  proof (cases "clock_now_ms (clock_apply e c) < clock_now_ms c")
    case False
    then show ?thesis using rest apply_keeps_trust [of c e] by (auto split: if_splits)
  next
    case True
    then obtain nvs ms where e: "e = Network nvs ms" using other_forward [of c e] Cons.prems by fastforce
    then have "\<not> clock_trustworthy_for_tls c" using True network_forward [of c nvs ms] by auto
    moreover have "clock_trustworthy_for_tls (clock_apply e c)"
      using True network_back_gains_trust [of nvs ms c] by (simp add: e)
    ultimately show ?thesis using rest by simp
  qed
qed

section \<open>Properties\<close>

lemma reachable_clocks_are_sound_parts:
  assumes "clock_reachable c"
  shows "\<bar>s_offset_min c\<bar> \<le> 840"
    and "s_source c \<noteq> CLOCK_UNSET \<Longrightarrow> PURE_EPOCH_MS_MIN \<le> clock_now_ms c"
    and "nvs_epoch_ms c = Some ms \<Longrightarrow> PURE_EPOCH_MS_MIN \<le> ms"
    and "s_source c \<noteq> CLOCK_UNSET \<Longrightarrow> clock_now_ms c \<le> PURE_EPOCH_MS_MAX \<Longrightarrow> length (clock_iso8601 c 40) = 25"
proof -
  note inv = reachable_inv [OF assms, unfolded clock_inv_def]
  show "\<bar>s_offset_min c\<bar> \<le> 840" using inv by blast
  show "s_source c \<noteq> CLOCK_UNSET \<Longrightarrow> PURE_EPOCH_MS_MIN \<le> clock_now_ms c" using inv by blast
  show "nvs_epoch_ms c = Some ms \<Longrightarrow> PURE_EPOCH_MS_MIN \<le> ms" using inv by blast
  show "s_source c \<noteq> CLOCK_UNSET \<Longrightarrow> clock_now_ms c \<le> PURE_EPOCH_MS_MAX \<Longrightarrow> length (clock_iso8601 c 40) = 25"
    using inv by (simp add: clock_iso8601_def pure_epoch_plausible_def format_is_stamp length_stamp_text iso_fields_ok)
qed

text \<open>
  Every clock that boots, events and power cycles can lead to keeps its metadata in range: the
  offset, stored or in use, is within fourteen hours, so that a capture's timestamp fits its buffer of
  40 bytes uncut, and a clock that names a source reads 2020 or later, in memory and in NVS.
\<close>

theorem reachable_clocks_are_sound:
  assumes "clock_reachable c"
  shows "\<bar>s_offset_min c\<bar> \<le> 840 \<and>
    (s_source c \<noteq> CLOCK_UNSET \<longrightarrow> PURE_EPOCH_MS_MIN \<le> clock_now_ms c) \<and>
    (\<forall>ms. nvs_epoch_ms c = Some ms \<longrightarrow> PURE_EPOCH_MS_MIN \<le> ms) \<and>
    (s_source c \<noteq> CLOCK_UNSET \<longrightarrow> clock_now_ms c \<le> PURE_EPOCH_MS_MAX \<longrightarrow> length (clock_iso8601 c 40) = 25)"
  using reachable_clocks_are_sound_parts [OF assms] by blast

definition good_nvs :: nvs_answer where
  "good_nvs = \<lparr>open_ok = True, set_epoch_ok = True, set_off_ok = True\<rparr>"

definition host_set_clock :: clock where
  "host_set_clock = clock_apply (Host good_nvs 1700000000123 (-90)) factory_clock"

lemma host_set_clock_facts:
  "clock_reachable host_set_clock" "s_source host_set_clock = CLOCK_HOST"
  "clock_now_ms host_set_clock = 1700000000123" "nvs_epoch_ms host_set_clock = Some 1700000000123"
proof -
  show "clock_reachable host_set_clock"
    unfolding host_set_clock_def by (intro clock_reachable.event clock_reachable.factory) simp
qed (simp_all add: host_set_clock_def clock_set_def factory_clock_def good_nvs_def clock_persist_def
    pure_epoch_plausible_def PURE_EPOCH_MS_MIN_def PURE_EPOCH_MS_MAX_def clock_now_ms_def)

theorem reachable_clocks_are_sound_witness:
  "\<bar>s_offset_min host_set_clock\<bar> \<le> 840 \<and> PURE_EPOCH_MS_MIN \<le> clock_now_ms host_set_clock \<and>
   length (clock_iso8601 host_set_clock 40) = 25"
  using reachable_clocks_are_sound [OF host_set_clock_facts(1)] host_set_clock_facts
  by (simp add: PURE_EPOCH_MS_MAX_def)

lemma boot_never_goes_back_parts:
  shows "nvs_epoch_ms c = Some saved \<Longrightarrow> pure_epoch_plausible saved \<Longrightarrow>
      s_source (clock_init True c) = CLOCK_PERSISTED \<and> saved \<le> clock_now_ms (clock_init True c)"
    and "pure_epoch_plausible (clock_now_ms c) \<Longrightarrow>
      s_source (clock_init ok c) = CLOCK_PERSISTED \<and> clock_now_ms c \<le> clock_now_ms (clock_init ok c)"
    and "\<not> pure_epoch_plausible (clock_now_ms c) \<Longrightarrow>
      (\<And>saved. nvs_epoch_ms c = Some saved \<Longrightarrow> \<not> pure_epoch_plausible saved) \<Longrightarrow>
      s_source (clock_init ok c) = CLOCK_UNSET \<and> clock_now_ms (clock_init ok c) = clock_now_ms c"
proof -
  assume s: "nvs_epoch_ms c = Some saved" "pure_epoch_plausible saved"
  have "saved = (if True \<and> nvs_epoch_ms c \<noteq> None then the (nvs_epoch_ms c) else 0)" using s by simp
  then show "s_source (clock_init True c) = CLOCK_PERSISTED \<and> saved \<le> clock_now_ms (clock_init True c)"
    by (cases rule: clock_init_cases) (use s plausible_nonneg [OF s(2)] in \<open>auto simp: clock_now_ms_def\<close>)
next
  assume n: "pure_epoch_plausible (clock_now_ms c)"
  define s where "s = (if ok \<and> nvs_epoch_ms c \<noteq> None then the (nvs_epoch_ms c) else 0)"
  from s_def show "s_source (clock_init ok c) = CLOCK_PERSISTED \<and> clock_now_ms c \<le> clock_now_ms (clock_init ok c)"
    by (cases rule: clock_init_cases) (use n plausible_nonneg [of s] in \<open>auto simp: clock_now_ms_def\<close>)
next
  assume n: "\<not> pure_epoch_plausible (clock_now_ms c)"
    and s: "\<And>saved. nvs_epoch_ms c = Some saved \<Longrightarrow> \<not> pure_epoch_plausible saved"
  define s where "s = (if ok \<and> nvs_epoch_ms c \<noteq> None then the (nvs_epoch_ms c) else 0)"
  from s_def show "s_source (clock_init ok c) = CLOCK_UNSET \<and> clock_now_ms (clock_init ok c) = clock_now_ms c"
    by (cases rule: clock_init_cases) (use n s in \<open>auto simp: clock_now_ms_def\<close>)
qed

text \<open>
  A power cycle does not date a capture before a persisted one. When NVS can be read and holds a
  plausible time, the clock after \<^const>\<open>clock_init\<close> is set, reads at least the stored time, and is never
  behind a plausible reading of the system clock; when neither is plausible the clock stays unset
  rather than inventing a date.
\<close>

theorem boot_never_goes_back:
  shows "(\<forall>saved. nvs_epoch_ms c = Some saved \<longrightarrow> pure_epoch_plausible saved \<longrightarrow>
      s_source (clock_init True c) = CLOCK_PERSISTED \<and> saved \<le> clock_now_ms (clock_init True c)) \<and>
    (pure_epoch_plausible (clock_now_ms c) \<longrightarrow>
      s_source (clock_init ok c) = CLOCK_PERSISTED \<and> clock_now_ms c \<le> clock_now_ms (clock_init ok c)) \<and>
    (\<not> pure_epoch_plausible (clock_now_ms c) \<longrightarrow>
      (\<forall>saved. nvs_epoch_ms c = Some saved \<longrightarrow> \<not> pure_epoch_plausible saved) \<longrightarrow>
      s_source (clock_init ok c) = CLOCK_UNSET \<and> clock_now_ms (clock_init ok c) = clock_now_ms c)"
  using boot_never_goes_back_parts by metis

theorem boot_never_goes_back_witness:
  "s_source (clock_init True (powered_off 0 0 host_set_clock)) = CLOCK_PERSISTED \<and>
   1700000000123 \<le> clock_now_ms (clock_init True (powered_off 0 0 host_set_clock))"
  using boot_never_goes_back [of "powered_off 0 0 host_set_clock" True] host_set_clock_facts(4)
  by (simp add: powered_off_def pure_epoch_plausible_def PURE_EPOCH_MS_MIN_def PURE_EPOCH_MS_MAX_def)

text \<open>
  Between two boots, whatever the order of ticks, network answers, zone changes and persists, the
  clock goes backwards at most once, and not at all once a host or the network has set it: the one
  backwards step is the first network answer correcting a time carried over a power cycle.
\<close>

theorem session_goes_back_at_most_once:
  assumes "clock_reachable c" "list_all event_ok es" "list_all (\<lambda>e. \<not> by_host e) es"
  shows "backs es c \<le> (if clock_trustworthy_for_tls c then 0 else 1)"
  using backs_bound [OF reachable_inv [OF assms(1)] assms(2,3)] .

theorem session_goes_back_at_most_once_witness:
  "backs [Network good_nvs 1600000000000, Tick 5000, Persist good_nvs, Network good_nvs 1590000000000] host_set_clock \<le> 0"
  using session_goes_back_at_most_once [OF host_set_clock_facts(1),
      of "[Network good_nvs 1600000000000, Tick 5000, Persist good_nvs, Network good_nvs 1590000000000]"]
    host_set_clock_facts(2)
  by (simp only: clock_trustworthy_for_tls_def) simp

end
