(* ===== verification/Pure_Text.thy ===== *)
theory Pure_Text
  imports Kino_Decimal
begin

text \<open>
  The text checks of \<^verbatim>\<open>firmware/p4/main/pure.c\<close> on what a host or a person typed: a network's name and
  passphrase, the address of the photo service, and the nesting depth of a JSON document before it is
  given to the recursive parser. The properties: an accepted address is exactly a scheme, a host and an
  optional port, and the depth check computes the depth of the document's tree.
\<close>

section \<open>The code\<close>

definition PURE_SSID_MAX :: nat where "PURE_SSID_MAX = 32"
definition PURE_WPA_PASSPHRASE_MIN :: nat where "PURE_WPA_PASSPHRASE_MIN = 8"
definition PURE_WPA_PASSPHRASE_MAX :: nat where "PURE_WPA_PASSPHRASE_MAX = 63"
definition PURE_API_BASE_MAX :: nat where "PURE_API_BASE_MAX = 96"

definition pure_wifi_ssid_valid :: "string option \<Rightarrow> bool" where
  "pure_wifi_ssid_valid ssid =
    (case ssid of None \<Rightarrow> False
     | Some s \<Rightarrow>
         if length s = 0 \<or> length s > PURE_SSID_MAX then False
         else list_all (\<lambda>c. \<not> (of_char c < (0x20 :: nat) \<or> of_char c = (0x7f :: nat))) s)"

definition pure_wifi_passphrase_ok :: "string option \<Rightarrow> bool \<Rightarrow> bool \<Rightarrow> bool" where
  "pure_wifi_passphrase_ok passphrase is_open keeps_stored =
    (let n = (case passphrase of None \<Rightarrow> 0 | Some p \<Rightarrow> length p) in
     if is_open then n = 0
     else if n = 0 then keeps_stored
     else n \<ge> PURE_WPA_PASSPHRASE_MIN \<and> n \<le> PURE_WPA_PASSPHRASE_MAX)"

definition url_host :: "string \<Rightarrow> string option" where
  "url_host url =
    (if take 8 url = ''https://'' then Some (drop 8 url)
     else if take 7 url = ''http://'' then Some (drop 7 url)
     else None)"

fun url_chars_ok :: "nat \<Rightarrow> string \<Rightarrow> bool" where
  "url_chars_ok n [] = True"
| "url_chars_ok n (c # cs) =
    (if n + 1 > PURE_API_BASE_MAX then False
     else if of_char c \<le> (0x20 :: nat) \<or> of_char c \<ge> (0x7f :: nat) then False
     else if c = CHR ''@'' \<or> c = CHR ''?'' \<or> c = CHR ''#'' then False
     else url_chars_ok (n + 1) cs)"

definition url_port_ok :: "string \<Rightarrow> bool" where
  "url_port_ok host =
    (case first_at (\<lambda>c. c = CHR '':'') host of None \<Rightarrow> True
     | Some colon \<Rightarrow>
         if colon = 0 \<or> drop (colon + 1) host = [] then False
         else list_all c_digit (drop (colon + 1) host))"

definition pure_api_base_ok :: "string option \<Rightarrow> bool" where
  "pure_api_base_ok url =
    (case url of None \<Rightarrow> False
     | Some u \<Rightarrow>
         (case url_host u of None \<Rightarrow> False
          | Some host \<Rightarrow>
              if host = [] then False
              else if \<not> url_chars_ok 0 u then False
              else if list_ex (\<lambda>c. c = CHR ''/'') host then False
              else url_port_ok host))"

definition PURE_JSON_MAX_DEPTH :: int where "PURE_JSON_MAX_DEPTH = 12"

text \<open>
  The scan of a buffer of \<open>len\<close> bytes: the escaped character behind a backslash is skipped unread, also
  when it is a NUL, and a NUL ends the scan anywhere else.
\<close>

fun json_depth_scan :: "int \<Rightarrow> bool \<Rightarrow> int \<Rightarrow> string \<Rightarrow> bool" where
  "json_depth_scan max_depth in_string depth [] = True"
| "json_depth_scan max_depth in_string depth (c # cs) =
    (if c = CHR 0x00 then True
     else if in_string
     then (if c = CHR 0x5C
           then (case cs of [] \<Rightarrow> True | _ # cs' \<Rightarrow> json_depth_scan max_depth True depth cs')
           else if c = CHR 0x22 then json_depth_scan max_depth False depth cs
           else json_depth_scan max_depth True depth cs)
     else if c = CHR 0x22 then json_depth_scan max_depth True depth cs
     else if c = CHR ''{'' \<or> c = CHR ''[''
     then (if depth + 1 > max_depth then False else json_depth_scan max_depth False (depth + 1) cs)
     else if c = CHR ''}'' \<or> c = CHR '']''
     then json_depth_scan max_depth False (if depth > 0 then depth - 1 else depth) cs
     else json_depth_scan max_depth False depth cs)"

definition pure_json_depth_ok_n :: "string option \<Rightarrow> nat \<Rightarrow> int \<Rightarrow> bool" where
  "pure_json_depth_ok_n text_opt len max_depth =
    (case text_opt of None \<Rightarrow> False
     | Some s \<Rightarrow> if max_depth < 0 then False else json_depth_scan max_depth False 0 (take len s))"

definition pure_json_depth_ok :: "string option \<Rightarrow> int \<Rightarrow> bool" where
  "pure_json_depth_ok text_opt max_depth =
    (case text_opt of None \<Rightarrow> False | Some s \<Rightarrow> pure_json_depth_ok_n text_opt (length s) max_depth)"

section \<open>Addresses\<close>

definition host_char :: "char \<Rightarrow> bool" where
  "host_char c \<longleftrightarrow> (0x20 :: nat) < of_char c \<and> of_char c < (0x7f :: nat) \<and>
    c \<notin> {CHR ''@'', CHR ''?'', CHR ''#'', CHR ''/'', CHR '':''}"

text \<open>The addresses the check is meant to accept: scheme, host, optional decimal port.\<close>

definition host_port :: "string \<Rightarrow> bool" where
  "host_port rest \<longleftrightarrow>
    (\<exists>host. host \<noteq> [] \<and> list_all host_char host \<and>
      (rest = host \<or> (\<exists>port. port \<noteq> [] \<and> list_all c_digit port \<and> rest = host @ '':'' @ port)))"

definition service_address :: "string \<Rightarrow> bool" where
  "service_address url \<longleftrightarrow>
    length url \<le> PURE_API_BASE_MAX \<and>
    (\<exists>rest. (url = ''https://'' @ rest \<or> url = ''http://'' @ rest) \<and> host_port rest)"

definition url_char :: "char \<Rightarrow> bool" where
  "url_char c \<longleftrightarrow> (0x20 :: nat) < of_char c \<and> of_char c < (0x7f :: nat) \<and> c \<notin> {CHR ''@'', CHR ''?'', CHR ''#''}"

lemma url_chars_ok_iff: "url_chars_ok n s \<longleftrightarrow> (s = [] \<or> n + length s \<le> PURE_API_BASE_MAX) \<and> list_all url_char s"
  by (induction s arbitrary: n) (auto simp: url_char_def not_le)

lemma digit_is_host_char: "c_digit c \<Longrightarrow> host_char c"
  by (auto simp: c_digit_def host_char_def less_eq_char_def)

lemma host_char_split: "host_char c \<longleftrightarrow> url_char c \<and> c \<noteq> CHR ''/'' \<and> c \<noteq> CHR '':''"
  by (auto simp: host_char_def url_char_def)

lemma address_chars:
  "host_char c \<Longrightarrow> url_char c \<and> c \<noteq> CHR ''/''" "c_digit c \<Longrightarrow> url_char c \<and> c \<noteq> CHR ''/''"
  "url_char (CHR '':'')"
  using digit_is_host_char [of c] by (simp_all add: host_char_split) (simp_all add: url_char_def)

lemma host_port_chars:
  assumes "host_port rest"
  shows "list_all (\<lambda>c. url_char c \<and> c \<noteq> CHR ''/'') rest \<and> rest \<noteq> []"
proof -
  obtain host where host: "host \<noteq> []" "list_all host_char host"
    and shape: "rest = host \<or> (\<exists>port. port \<noteq> [] \<and> list_all c_digit port \<and> rest = host @ '':'' @ port)"
    using assms unfolding host_port_def by blast
  have h: "list_all (\<lambda>c. url_char c \<and> c \<noteq> CHR ''/'') host"
    using host(2) by (rule list.pred_mono_strong) (rule address_chars(1))
  from shape show ?thesis
  proof
    assume "\<exists>port. port \<noteq> [] \<and> list_all c_digit port \<and> rest = host @ '':'' @ port"
    then obtain port where port: "list_all c_digit port" "rest = host @ '':'' @ port" by blast
    have "list_all (\<lambda>c. url_char c \<and> c \<noteq> CHR ''/'') port"
      using port(1) by (rule list.pred_mono_strong) (rule address_chars(2))
    then show ?thesis using h by (simp add: port(2) address_chars(3))
  qed (use h host(1) in simp)
qed

lemma url_port_ok_iff:
  assumes "list_all (\<lambda>c. url_char c \<and> c \<noteq> CHR ''/'') rest" "rest \<noteq> []"
  shows "url_port_ok rest \<longleftrightarrow> host_port rest"
proof (cases "first_at (\<lambda>c. c = CHR '':'') rest")
  case None
  then have "\<forall>c \<in> set rest. c \<noteq> CHR '':''" by (simp add: first_at_None)
  then have "list_all host_char rest" using assms(1) by (auto simp: list_all_iff host_char_split)
  then show ?thesis using None assms(2) by (auto simp: url_port_ok_def host_port_def)
next
  case (Some i)
  note at = first_at_SomeD [OF Some]
  have split: "rest = take i rest @ '':'' @ drop (i + 1) rest"
    using at by (metis Cons_eq_appendI Suc_eq_plus1 append_Nil id_take_nth_drop)
  have host: "list_all host_char (take i rest)"
    using assms(1) at by (auto simp: list_all_length host_char_split)
  show ?thesis
  proof
    assume ok: "url_port_ok rest"
    then have "i \<noteq> 0" "drop (i + 1) rest \<noteq> []" "list_all c_digit (drop (i + 1) rest)"
      by (auto simp: url_port_ok_def Some split: if_splits)
    then show "host_port rest" unfolding host_port_def
      using host split at assms(2) by (metis take_eq_Nil)
  next
    assume "host_port rest"
    then obtain h where h: "h \<noteq> []" "list_all host_char h"
      "rest = h \<or> (\<exists>port. port \<noteq> [] \<and> list_all c_digit port \<and> rest = h @ '':'' @ port)"
      unfolding host_port_def by blast
    have "rest \<noteq> h" using h(2) at by (auto simp: list_all_length host_char_split)
    then obtain port where port: "port \<noteq> []" "list_all c_digit port" "rest = h @ '':'' @ port"
      using h(3) by blast
    have "first_at (\<lambda>c. c = CHR '':'') rest = Some (length h)"
      using h(2) port(3)
      by (intro first_at_eqI) (auto simp: nth_append list_all_length host_char_split)
    then show "url_port_ok rest" using h(1) port by (simp add: url_port_ok_def)
  qed
qed

lemma accepted_after_scheme:
  assumes "url = scheme @ rest" "url_host url = Some rest" "list_all url_char scheme"
  shows "pure_api_base_ok (Some url) \<longleftrightarrow> length url \<le> PURE_API_BASE_MAX \<and> host_port rest"
proof (cases "list_all (\<lambda>c. url_char c \<and> c \<noteq> CHR ''/'') rest \<and> rest \<noteq> []")
  case True
  then show ?thesis using url_port_ok_iff [of rest] assms
    by (auto simp: pure_api_base_ok_def url_chars_ok_iff list_all_iff list_ex_iff)
next
  case False
  then have "\<not> host_port rest" using host_port_chars by blast
  then show ?thesis using False assms
    by (auto simp: pure_api_base_ok_def url_chars_ok_iff list_all_iff list_ex_iff)
qed

lemma url_host_cases:
  "url_host (''https://'' @ r) = Some r" "url_host (''http://'' @ r) = Some r"
  "url_host url = Some r \<Longrightarrow> url = ''https://'' @ r \<or> url = ''http://'' @ r"
proof -
  show "url_host (''https://'' @ r) = Some r" "url_host (''http://'' @ r) = Some r"
    by (simp_all add: url_host_def)
  assume "url_host url = Some r"
  then have "take 8 url = ''https://'' \<and> r = drop 8 url \<or> take 7 url = ''http://'' \<and> r = drop 7 url"
    by (simp add: url_host_def split: if_splits)
  then show "url = ''https://'' @ r \<or> url = ''http://'' @ r"
    using append_take_drop_id [of 8 url] append_take_drop_id [of 7 url] by metis
qed

lemma accepted_is_address:
  "pure_api_base_ok (Some url) \<longleftrightarrow> service_address url"
proof (cases "url_host url")
  case None
  then have "\<nexists>rest. url = ''https://'' @ rest \<or> url = ''http://'' @ rest"
    using url_host_cases(1,2) by force
  then show ?thesis using None by (simp add: pure_api_base_ok_def service_address_def)
next
  case (Some rest)
  have ok: "list_all url_char ''https://''" "list_all url_char ''http://''" by code_simp+
  have "pure_api_base_ok (Some url) \<longleftrightarrow> length url \<le> PURE_API_BASE_MAX \<and> host_port rest"
    using url_host_cases(3) [OF Some] accepted_after_scheme [OF _ Some] ok by blast
  moreover have "r = rest" if "url = ''https://'' @ r \<or> url = ''http://'' @ r" for r
    using that Some url_host_cases(1,2) by (metis option.inject)
  ultimately show ?thesis using url_host_cases(3) [OF Some] unfolding service_address_def by blast
qed

section \<open>Documents\<close>

text \<open>
  A JSON document as a tree; strings carry their text between the quotes as written, escapes included,
  and atoms are the words and numbers.
\<close>

datatype json = JAtom string | JString string | JArray "json list" | JObject "(string \<times> json) list"

fun string_body :: "string \<Rightarrow> bool" where
  "string_body [] = True"
| "string_body (c # cs) =
    (if c = CHR 0x5C then (case cs of [] \<Rightarrow> False | e # cs' \<Rightarrow> e \<noteq> CHR 0x00 \<and> string_body cs')
     else c \<noteq> CHR 0x22 \<and> c \<noteq> CHR 0x00 \<and> string_body cs)"

definition plain_char :: "char \<Rightarrow> bool" where
  "plain_char c \<longleftrightarrow> c \<notin> {CHR 0x00, CHR 0x22, CHR ''{'', CHR ''}'', CHR ''['', CHR '']''}"

fun json_ok :: "json \<Rightarrow> bool" where
  "json_ok (JAtom a) \<longleftrightarrow> list_all plain_char a"
| "json_ok (JString s) \<longleftrightarrow> string_body s"
| "json_ok (JArray xs) \<longleftrightarrow> (\<forall>x \<in> set xs. json_ok x)"
| "json_ok (JObject ms) \<longleftrightarrow> (\<forall>m \<in> set ms. string_body (fst m) \<and> json_ok (snd m))"

fun json_depth :: "json \<Rightarrow> nat" where
  "json_depth (JAtom a) = 0"
| "json_depth (JString s) = 0"
| "json_depth (JArray xs) = Suc (foldr max (map json_depth xs) 0)"
| "json_depth (JObject ms) = Suc (foldr max (map (\<lambda>m. json_depth (snd m)) ms) 0)"

text \<open>The document's text, with the blank text \<open>ws\<close> between any two tokens.\<close>

fun joined :: "string \<Rightarrow> string list \<Rightarrow> string" where
  "joined sep [] = []"
| "joined sep [t] = t"
| "joined sep (t # u # ts) = t @ sep @ joined sep (u # ts)"

fun json_text :: "string \<Rightarrow> json \<Rightarrow> string" where
  "json_text ws (JAtom a) = a"
| "json_text ws (JString s) = CHR 0x22 # s @ [CHR 0x22]"
| "json_text ws (JArray xs) =
    CHR ''['' # (ws @ joined (ws @ '','' @ ws) (map (\<lambda>x. json_text ws x) xs) @ ws) @ '']''"
| "json_text ws (JObject ms) =
    CHR ''{'' # (ws @ joined (ws @ '','' @ ws)
      (map (\<lambda>m. (CHR 0x22 # fst m @ [CHR 0x22]) @ (ws @ '':'' @ ws) @ json_text ws (snd m)) ms) @ ws) @ ''}''"

text \<open>A text that the scan takes from any depth, and to which depth below it it goes.\<close>

definition scans :: "string \<Rightarrow> nat \<Rightarrow> bool" where
  "scans t k \<longleftrightarrow> (\<forall>m d rest. 0 \<le> d \<longrightarrow> d \<le> m \<longrightarrow>
     json_depth_scan m False d (t @ rest) = (d + int k \<le> m \<and> json_depth_scan m False d rest))"

lemma scansD:
  "scans t k \<Longrightarrow> 0 \<le> d \<Longrightarrow> d \<le> m \<Longrightarrow>
    json_depth_scan m False d (t @ rest) = (d + int k \<le> m \<and> json_depth_scan m False d rest)"
  by (simp add: scans_def)

lemma scans_append: "scans t k \<Longrightarrow> scans u l \<Longrightarrow> scans (t @ u) (max k l)"
  unfolding scans_def by auto

lemma scans_plain: "list_all plain_char t \<Longrightarrow> scans t 0"
  unfolding scans_def by (induction t) (auto simp: plain_char_def)

lemma scan_body:
  "string_body s \<Longrightarrow> json_depth_scan m True d (s @ CHR 0x22 # rest) = json_depth_scan m False d rest"
  by (induction s rule: string_body.induct) (auto split: list.splits if_splits)

lemma scans_string: "string_body s \<Longrightarrow> scans (CHR 0x22 # s @ [CHR 0x22]) 0"
  unfolding scans_def by (auto simp: scan_body)

lemma scans_bracket:
  assumes "scans t k" "(p, q) = (CHR ''['', CHR '']'') \<or> (p, q) = (CHR ''{'', CHR ''}'')"
  shows "scans (p # t @ [q]) (Suc k)"
  using assms unfolding scans_def by auto

lemma scans_joined:
  assumes "scans sep 0" "list_all2 scans ts ks"
  shows "scans (joined sep ts) (foldr max ks 0)"
  using assms
proof (induction sep ts arbitrary: ks rule: joined.induct)
  case (1 sep)
  then show ?case by (simp add: scans_plain)
next
  case (2 sep t)
  then show ?case by (auto simp: list_all2_Cons1)
next
  case (3 sep t u ts)
  obtain k ks' where ks: "ks = k # ks'" "scans t k" "list_all2 scans (u # ts) ks'"
    using 3(3) by (auto simp: list_all2_Cons1)
  have "scans (t @ sep @ joined sep (u # ts)) (max k (max 0 (foldr max ks' 0)))"
    using 3 ks by (intro scans_append) auto
  moreover have "max k (max 0 (foldr max ks' 0)) = foldr max ks 0"
    by (simp add: ks(1))
  ultimately show ?case by simp
qed

lemma scans_text:
  assumes "list_all plain_char ws" "json_ok j"
  shows "scans (json_text ws j) (json_depth j)"
  using assms(2)
proof (induction j)
  case (JAtom a)
  then show ?case by (simp add: scans_plain)
next
  case (JString s)
  then show ?case by (simp add: scans_string)
next
  case (JArray xs)
  have sep: "scans (ws @ '','' @ ws) 0" using assms(1) by (intro scans_plain) (simp add: plain_char_def)
  have "list_all2 scans (map (\<lambda>x. json_text ws x) xs) (map json_depth xs)"
    using JArray by (simp add: list_all2_map1 list_all2_map2 list_all2_same)
  from scans_append [OF scans_plain [OF assms(1)] scans_append [OF scans_joined [OF sep this] scans_plain [OF assms(1)]]]
  have "scans (ws @ joined (ws @ '','' @ ws) (map (\<lambda>x. json_text ws x) xs) @ ws) (foldr max (map json_depth xs) 0)"
    by simp
  from scans_bracket [OF this, of "CHR ''[''" "CHR '']''"] show ?case by simp
next
  case (JObject ms)
  have sep: "scans (ws @ '','' @ ws) 0" "scans (ws @ '':'' @ ws) 0"
    using assms(1) by (auto intro!: scans_plain simp: plain_char_def)
  have item: "scans ((CHR 0x22 # fst m @ [CHR 0x22]) @ (ws @ '':'' @ ws) @ json_text ws (snd m)) (json_depth (snd m))"
    if "m \<in> set ms" for m
    using scans_append [OF scans_string [of "fst m"] scans_append [OF sep(2), of "json_text ws (snd m)"]]
      JObject that by (cases m) fastforce
  have "list_all2 scans
      (map (\<lambda>m. (CHR 0x22 # fst m @ [CHR 0x22]) @ (ws @ '':'' @ ws) @ json_text ws (snd m)) ms)
      (map (\<lambda>m. json_depth (snd m)) ms)"
    unfolding list_all2_map1 list_all2_map2 list_all2_same using item by blast
  from scans_append [OF scans_plain [OF assms(1)] scans_append [OF scans_joined [OF sep(1) this] scans_plain [OF assms(1)]]]
  have "scans (ws @ joined (ws @ '','' @ ws)
      (map (\<lambda>m. (CHR 0x22 # fst m @ [CHR 0x22]) @ (ws @ '':'' @ ws) @ json_text ws (snd m)) ms) @ ws)
      (foldr max (map (\<lambda>m. json_depth (snd m)) ms) 0)"
    by simp
  from scans_bracket [OF this, of "CHR ''{''" "CHR ''}''"] show ?case by simp
qed

section \<open>Properties\<close>

text \<open>
  The service address the camera will send its token to is accepted exactly when it has the shape
  \<^verbatim>\<open>http(s)://host[:port]\<close> in at most 96 characters, with a non-empty printable host free of user info,
  path, query and fragment, and a decimal port.
\<close>

theorem api_base_is_service_address:
  "pure_api_base_ok (Some url) \<longleftrightarrow> service_address url"
  by (rule accepted_is_address)

text \<open>
  The depth check before the recursive JSON parser decides the depth of the document: for every
  well-formed document, whatever its strings contain and whatever blanks stand between the tokens, its text passes
  exactly when its tree is nested at most \<open>max_depth\<close> deep.
\<close>

theorem json_depth_check_is_exact:
  assumes "list_all plain_char ws" "json_ok j" "0 \<le> max_depth"
  shows "pure_json_depth_ok (Some (json_text ws j)) max_depth \<longleftrightarrow> int (json_depth j) \<le> max_depth"
  using scansD [OF scans_text [OF assms(1,2)], of 0 max_depth "[]"] assms(3)
  by (simp add: pure_json_depth_ok_def pure_json_depth_ok_n_def)

theorem json_depth_check_is_exact_witness:
  "pure_json_depth_ok (Some (json_text '' '' (JObject [(''a'', JArray [JAtom ''1'', JString ''[[{''])]))) 2 \<and>
   \<not> pure_json_depth_ok (Some (json_text '' '' (JObject [(''a'', JArray [JAtom ''1'', JString ''[[{''])]))) 1"
proof -
  let ?j = "JObject [(''a'', JArray [JAtom ''1'', JString ''[[{''])]"
  have "list_all plain_char '' ''" "json_ok ?j" by code_simp+
  from json_depth_check_is_exact [OF this, of 2] json_depth_check_is_exact [OF this, of 1]
  show ?thesis by simp
qed

end
