(* ===== verification/Pure_Monitor.thy ===== *)
theory Pure_Monitor
  imports Kino_Prelude
begin

text \<open>
  The small state machines of \<^verbatim>\<open>firmware/p4/main/pure.c\<close> that turn samples into decisions: the health of
  the display task, the lens cover, a resting contact on the glass, and the attribution of a sync edge;
  with the threshold rules beside them. The properties: the lens cover's state is exactly a debounced
  reading of what the cameras agree on, and every episode the display task announces is closed by one
  announcement before the next is opened.
\<close>

section \<open>The code: display health\<close>

definition PURE_UI_LATCH_TICKS :: u16 where "PURE_UI_LATCH_TICKS = 3"

datatype ui_health_report =
  UI_HEALTH_QUIET | UI_HEALTH_STALLED | UI_HEALTH_PRESENTING | UI_HEALTH_STALL_ENDED
  | UI_HEALTH_LATCH_STUCK | UI_HEALTH_LATCH_CLEARED

record ui_health =
  stalled :: bool
  latch_stuck :: bool
  latch_ticks :: u16

definition ui_health_step :: "ui_health \<Rightarrow> bool \<Rightarrow> bool \<Rightarrow> bool \<Rightarrow> ui_health \<times> ui_health_report" where
  "ui_health_step h0 present_due frames_advanced input_latched =
    (let h = (if input_latched
              then (if latch_ticks h0 < - 1 then h0\<lparr>latch_ticks := latch_ticks h0 + 1\<rparr> else h0)
              else h0\<lparr>latch_ticks := 0\<rparr>)
     in if \<not> latch_stuck h \<and> latch_ticks h \<ge> PURE_UI_LATCH_TICKS
        then (h\<lparr>latch_stuck := True\<rparr>, UI_HEALTH_LATCH_STUCK)
        else if latch_stuck h \<and> latch_ticks h = 0
        then (h\<lparr>latch_stuck := False\<rparr>, UI_HEALTH_LATCH_CLEARED)
        else if \<not> stalled h
        then (if present_due \<and> \<not> frames_advanced then (h\<lparr>stalled := True\<rparr>, UI_HEALTH_STALLED)
              else (h, UI_HEALTH_QUIET))
        else if frames_advanced then (h\<lparr>stalled := False\<rparr>, UI_HEALTH_PRESENTING)
        else if \<not> present_due then (h\<lparr>stalled := False\<rparr>, UI_HEALTH_STALL_ENDED)
        else (h, UI_HEALTH_QUIET))"

definition capture_unavailable_reason :: "bool \<Rightarrow> bool \<Rightarrow> string option" where
  "capture_unavailable_reason card_mounted any_camera_ready =
    (if \<not> card_mounted then Some ''No card to write the capture to''
     else if \<not> any_camera_ready then Some ''No camera node answered''
     else None)"

section \<open>The code: sync edges\<close>

definition PURE_SYNC_EDGE_WINDOW_US :: int where "PURE_SYNC_EDGE_WINDOW_US = 2000000"

datatype pure_sync_class = PURE_SYNC_NONE | PURE_SYNC_OK | PURE_SYNC_UNVERIFIED | PURE_SYNC_STALE_GENERATION

definition pure_sync_classify :: "u32 \<Rightarrow> u32 \<Rightarrow> u32 \<Rightarrow> bool \<Rightarrow> int \<Rightarrow> pure_sync_class" where
  "pure_sync_classify last_seq seq expected has_edge sync_to_cmd_us =
    (if \<not> has_edge \<or> seq = 0 then PURE_SYNC_NONE
     else let in_window = (sync_to_cmd_us \<ge> 0 \<and> sync_to_cmd_us \<le> PURE_SYNC_EDGE_WINDOW_US) in
          if \<not> in_window then PURE_SYNC_STALE_GENERATION
          else if last_seq = 0 \<or> expected = 0 then PURE_SYNC_UNVERIFIED
          else if seq = last_seq + expected then PURE_SYNC_OK
          else PURE_SYNC_STALE_GENERATION)"

fun pure_sync_class_name :: "pure_sync_class \<Rightarrow> string" where
  "pure_sync_class_name PURE_SYNC_OK = ''ok''"
| "pure_sync_class_name PURE_SYNC_UNVERIFIED = ''unverified''"
| "pure_sync_class_name PURE_SYNC_STALE_GENERATION = ''stale-generation''"
| "pure_sync_class_name PURE_SYNC_NONE = ''none''"

section \<open>The code: lens cover\<close>

definition PURE_LID_DARK :: int where "PURE_LID_DARK = 10"
definition PURE_LID_LIT :: int where "PURE_LID_LIT = 40"
definition PURE_LID_MIN_CAMS :: nat where "PURE_LID_MIN_CAMS = 3"
definition PURE_LID_CLOSE_MS :: u32 where "PURE_LID_CLOSE_MS = 1500"
definition PURE_LID_OPEN_MS :: u32 where "PURE_LID_OPEN_MS = 300"

datatype pure_lid_state = PURE_LID_UNKNOWN | PURE_LID_OPEN | PURE_LID_CLOSED

record pure_lid =
  lid_state :: pure_lid_state
  candidate :: pure_lid_state
  held_ms :: u32
  answered :: nat
  agreed :: nat

text \<open>The counts of the sampling loop: cameras that answered, that see dark, that see light.\<close>

fun lid_counts :: "int list \<Rightarrow> nat \<times> nat \<times> nat" where
  "lid_counts [] = (0, 0, 0)"
| "lid_counts (m # ms) =
    (let (a, d, l) = lid_counts ms in
     if m < 0 then (a, d, l)
     else if m \<le> PURE_LID_DARK then (a + 1, d + 1, l)
     else if m \<ge> PURE_LID_LIT then (a + 1, d, l + 1)
     else (a + 1, d, l))"

definition lid_vote :: "int list \<Rightarrow> pure_lid_state \<times> nat" where
  "lid_vote means =
    (let (a, d, l) = lid_counts means in
     if a \<ge> PURE_LID_MIN_CAMS
     then (if d = a then (PURE_LID_CLOSED, d) else if l = a then (PURE_LID_OPEN, l) else (PURE_LID_UNKNOWN, 0))
     else (PURE_LID_UNKNOWN, 0))"

definition pure_lid_update :: "int list option \<Rightarrow> u32 \<Rightarrow> pure_lid \<Rightarrow> pure_lid" where
  "pure_lid_update means_opt dt_ms st0 =
    (case means_opt of
       None \<Rightarrow> st0\<lparr>candidate := PURE_LID_UNKNOWN, held_ms := 0, answered := 0, agreed := 0\<rparr>
     | Some means \<Rightarrow>
         if means = [] then st0\<lparr>candidate := PURE_LID_UNKNOWN, held_ms := 0, answered := 0, agreed := 0\<rparr>
         else
           let (cand, agr) = lid_vote means;
               st = st0\<lparr>answered := fst (lid_counts means), agreed := agr\<rparr>
           in if cand = PURE_LID_UNKNOWN then st\<lparr>candidate := PURE_LID_UNKNOWN, held_ms := 0\<rparr>
              else if cand = lid_state st then st\<lparr>candidate := cand, held_ms := 0\<rparr>
              else let st1 = (if cand \<noteq> candidate st then st\<lparr>candidate := cand, held_ms := 0\<rparr>
                              else st\<lparr>held_ms := held_ms st + dt_ms\<rparr>);
                       need = (if cand = PURE_LID_CLOSED then PURE_LID_CLOSE_MS else PURE_LID_OPEN_MS)
                   in if held_ms st1 \<ge> need then st1\<lparr>lid_state := cand, held_ms := 0\<rparr> else st1)"

fun pure_lid_state_name :: "pure_lid_state \<Rightarrow> string" where
  "pure_lid_state_name PURE_LID_OPEN = ''open''"
| "pure_lid_state_name PURE_LID_CLOSED = ''closed''"
| "pure_lid_state_name PURE_LID_UNKNOWN = ''unknown''"

section \<open>The code: idle time, taps, resting contacts, sessions\<close>

definition PURE_SHOOT_DIM_LEAD_S :: int where "PURE_SHOOT_DIM_LEAD_S = 10"

definition pure_shoot_dim_due :: "u32 \<Rightarrow> int \<Rightarrow> int \<Rightarrow> bool" where
  "pure_shoot_dim_due idle_s dim_s sleep_s =
    (if dim_s \<le> 0 \<or> sleep_s \<le> 0 then False
     else let from0 = sleep_s - PURE_SHOOT_DIM_LEAD_S;
              from = (if from0 < dim_s then dim_s else from0)
          in idle_s \<ge> word_of_int from)"

definition PURE_TAP_MAX_MS :: int where "PURE_TAP_MAX_MS = 2500"

datatype pure_tap = PURE_TAP_OPEN | PURE_TAP_DRIFTED | PURE_TAP_HELD

definition pure_tap_check :: "int \<Rightarrow> int \<Rightarrow> int \<Rightarrow> int \<Rightarrow> pure_tap" where
  "pure_tap_check dx dy drift_px held =
    (if dx * dx + dy * dy > drift_px * drift_px then PURE_TAP_DRIFTED
     else if held > PURE_TAP_MAX_MS then PURE_TAP_HELD
     else PURE_TAP_OPEN)"

definition PURE_STILL_CONTACT_S :: int where "PURE_STILL_CONTACT_S = 10"
definition PURE_STILL_CONTACT_PX :: int where "PURE_STILL_CONTACT_PX = 40"
definition PURE_REST_CONTACT_S :: int where "PURE_REST_CONTACT_S = 120"

datatype pure_contact =
  PURE_CONTACT_UP | PURE_CONTACT_ACTIVE | PURE_CONTACT_STILL | PURE_CONTACT_WENT_STILL

record pure_still =
  since_us :: int
  still_x :: u16
  still_y :: u16
  still_down :: bool
  still_flag :: bool

definition no_contact :: pure_still where
  "no_contact = \<lparr>since_us = 0, still_x = 0, still_y = 0, still_down = False, still_flag = False\<rparr>"

definition pure_still_step ::
  "pure_still \<Rightarrow> bool \<Rightarrow> u16 \<Rightarrow> u16 \<Rightarrow> int \<Rightarrow> bool \<Rightarrow> pure_still \<times> pure_contact" where
  "pure_still_step st0 down x y now_us rest_counts =
    (if \<not> down then (no_contact, PURE_CONTACT_UP)
     else
       let dx = uint x - uint (still_x st0); dy = uint y - uint (still_y st0);
           st = (if \<not> still_down st0 \<or> dx * dx + dy * dy > PURE_STILL_CONTACT_PX * PURE_STILL_CONTACT_PX
                 then \<lparr>since_us = now_us, still_x = x, still_y = y, still_down = True, still_flag = False\<rparr>
                 else st0);
           limit_s = (if rest_counts then PURE_REST_CONTACT_S else PURE_STILL_CONTACT_S)
       in if now_us - since_us st < limit_s * 1000000 then (st, PURE_CONTACT_ACTIVE)
          else if still_flag st then (st, PURE_CONTACT_STILL)
          else (st\<lparr>still_flag := True\<rparr>, PURE_CONTACT_WENT_STILL))"

definition PURE_FW_IDLE_MS :: int where "PURE_FW_IDLE_MS = 60000"
definition PURE_MAINT_HOLD_MS :: int where "PURE_MAINT_HOLD_MS = 600000"

definition pure_fw_session_idle :: "bool \<Rightarrow> int \<Rightarrow> int \<Rightarrow> bool" where
  "pure_fw_session_idle is_open last_us now_us =
    (if \<not> is_open \<or> now_us < last_us then False else (now_us - last_us) div 1000 \<ge> PURE_FW_IDLE_MS)"

definition pure_fw_percent :: "u32 \<Rightarrow> u32 \<Rightarrow> nat" where
  "pure_fw_percent received whole =
    (if whole = 0 then 0
     else if received \<ge> whole then 100
     else unat (((ucast received :: u64) * 100) div ucast whole))"

definition pure_maint_deadline :: "int \<Rightarrow> int" where
  "pure_maint_deadline now_us = now_us + PURE_MAINT_HOLD_MS * 1000"

definition pure_maint_expired :: "bool \<Rightarrow> int \<Rightarrow> int \<Rightarrow> bool" where
  "pure_maint_expired active deadline_us now_us \<longleftrightarrow> active \<and> now_us \<ge> deadline_us"

section \<open>The lens cover as a debounced vote\<close>

text \<open>
  A history of samples, newest first: what was read and the time since the sample before it. \<open>streak\<close> is
  how long the newest vote has been repeated without a gap; the first sample of a run carries no time.
\<close>

type_synonym lid_sample = "int list option \<times> u32"

definition agreed_reading :: "int list \<Rightarrow> pure_lid_state" where
  "agreed_reading ms =
    (let ans = filter (\<lambda>m. 0 \<le> m) ms in
     if length ans < PURE_LID_MIN_CAMS then PURE_LID_UNKNOWN
     else if list_all (\<lambda>m. m \<le> PURE_LID_DARK) ans then PURE_LID_CLOSED
     else if list_all (\<lambda>m. m \<ge> PURE_LID_LIT) ans then PURE_LID_OPEN
     else PURE_LID_UNKNOWN)"

definition vote :: "lid_sample \<Rightarrow> pure_lid_state" where
  "vote s = (case fst s of None \<Rightarrow> PURE_LID_UNKNOWN
    | Some ms \<Rightarrow> agreed_reading ms)"

fun streak :: "lid_sample list \<Rightarrow> nat" where
  "streak (s # t # h) = (if vote t = vote s then unat (snd s) + streak (t # h) else 0)"
| "streak _ = 0"

definition lid_need :: "pure_lid_state \<Rightarrow> nat" where
  "lid_need c = (if c = PURE_LID_CLOSED then 1500 else 300)"

fun lid_spec :: "lid_sample list \<Rightarrow> pure_lid_state" where
  "lid_spec [] = PURE_LID_UNKNOWN"
| "lid_spec (s # h) =
    (if vote s \<noteq> PURE_LID_UNKNOWN \<and> lid_need (vote s) \<le> streak (s # h) then vote s else lid_spec h)"

definition lid_start :: pure_lid where
  "lid_start = \<lparr>lid_state = PURE_LID_UNKNOWN, candidate = PURE_LID_UNKNOWN, held_ms = 0, answered = 0, agreed = 0\<rparr>"

fun lid_run :: "lid_sample list \<Rightarrow> pure_lid" where
  "lid_run [] = lid_start"
| "lid_run (s # h) = pure_lid_update (fst s) (snd s) (lid_run h)"

lemma filter_all_length: "length (filter P xs) = length xs \<longleftrightarrow> list_all P xs"
proof (induction xs)
  case (Cons x xs)
  moreover have "length (filter P xs) < Suc (length xs)" by (simp add: less_Suc_eq_le)
  ultimately show ?case by auto
qed simp

lemma lid_counts_eq:
  "lid_counts ms = (let ans = filter (\<lambda>m. 0 \<le> m) ms in
     (length ans, length (filter (\<lambda>m. m \<le> PURE_LID_DARK) ans), length (filter (\<lambda>m. m \<ge> PURE_LID_LIT) ans)))"
  by (induction ms) (auto simp: Let_def PURE_LID_DARK_def PURE_LID_LIT_def)

lemma lid_vote_eq: "fst (lid_vote ms) = agreed_reading ms"
  by (simp add: lid_vote_def agreed_reading_def lid_counts_eq Let_def filter_all_length not_less
      del: filter_filter)

lemma lid_update_vote:
  "pure_lid_update (fst s) dt st0 =
    (let cand = vote s;
         st = st0\<lparr>answered := answered (pure_lid_update (fst s) dt st0), agreed := agreed (pure_lid_update (fst s) dt st0)\<rparr>
     in if cand = PURE_LID_UNKNOWN then st\<lparr>candidate := PURE_LID_UNKNOWN, held_ms := 0\<rparr>
        else if cand = lid_state st then st\<lparr>candidate := cand, held_ms := 0\<rparr>
        else let st1 = (if cand \<noteq> candidate st then st\<lparr>candidate := cand, held_ms := 0\<rparr>
                        else st\<lparr>held_ms := held_ms st + dt\<rparr>);
                 need = (if cand = PURE_LID_CLOSED then PURE_LID_CLOSE_MS else PURE_LID_OPEN_MS)
             in if held_ms st1 \<ge> need then st1\<lparr>lid_state := cand, held_ms := 0\<rparr> else st1)"
proof (cases "fst s")
  case None
  then show ?thesis by (simp add: vote_def pure_lid_update_def)
next
  case (Some ms)
  obtain c g where v: "lid_vote ms = (c, g)" by fastforce
  then have "agreed_reading ms = c" using lid_vote_eq [of ms] by simp
  moreover have "ms = [] \<Longrightarrow> c = PURE_LID_UNKNOWN" using v by (auto simp: lid_vote_def PURE_LID_MIN_CAMS_def)
  ultimately show ?thesis by (simp add: vote_def pure_lid_update_def Some v Let_def)
qed

definition lid_inv :: "lid_sample list \<Rightarrow> pure_lid \<Rightarrow> bool" where
  "lid_inv h st \<longleftrightarrow>
    candidate st = (case h of [] \<Rightarrow> PURE_LID_UNKNOWN | s # _ \<Rightarrow> vote s) \<and> lid_state st = lid_spec h \<and>
    (if candidate st \<noteq> PURE_LID_UNKNOWN \<and> candidate st \<noteq> lid_state st
     then unat (held_ms st) = streak h \<and> streak h < lid_need (candidate st) else held_ms st = 0)"

lemma lid_need_word:
  "unat (if c = PURE_LID_CLOSED then PURE_LID_CLOSE_MS else PURE_LID_OPEN_MS) = lid_need c"
  by (simp add: lid_need_def PURE_LID_CLOSE_MS_def PURE_LID_OPEN_MS_def)

lemma lid_inv_step:
  assumes inv: "lid_inv h st" and dt: "unat (snd s) < 2 ^ 31"
  shows "lid_inv (s # h) (pure_lid_update (fst s) (snd s) st)"
proof -
  define a where "a = answered (pure_lid_update (fst s) (snd s) st)"
  define g where "g = agreed (pure_lid_update (fst s) (snd s) st)"
  note upd = lid_update_vote [of s "snd s" st, folded a_def g_def]
  note inv' = inv [unfolded lid_inv_def]
  let ?need = "if vote s = PURE_LID_CLOSED then PURE_LID_CLOSE_MS else PURE_LID_OPEN_MS"
  consider (quiet) "vote s = PURE_LID_UNKNOWN" | (same) "vote s \<noteq> PURE_LID_UNKNOWN" "vote s = lid_state st"
    | (fresh) "vote s \<noteq> PURE_LID_UNKNOWN" "vote s \<noteq> lid_state st" "vote s \<noteq> candidate st"
    | (held) "vote s \<noteq> PURE_LID_UNKNOWN" "vote s \<noteq> lid_state st" "vote s = candidate st" by blast
  then show ?thesis
  proof cases
    case quiet
    then show ?thesis using inv' by (subst upd) (simp add: lid_inv_def)
  next
    case same
    then show ?thesis using inv' by (subst upd) (simp add: lid_inv_def)
  next
    case fresh
    have z: "streak (s # h) = 0" using fresh inv' by (cases h) auto
    have "\<not> ?need \<le> (0 :: u32)" by (simp add: PURE_LID_CLOSE_MS_def PURE_LID_OPEN_MS_def)
    then have eq: "pure_lid_update (fst s) (snd s) st =
        st\<lparr>answered := a, agreed := g, candidate := vote s, held_ms := 0\<rparr>"
      using fresh by (subst upd) (simp add: Let_def)
    show ?thesis unfolding eq using fresh inv' z by (simp add: lid_inv_def lid_need_def)
  next
    case held
    obtain t h' where h: "h = t # h'" "vote t = vote s" using held inv' by (cases h) auto
    have k: "unat (held_ms st) = streak h" "streak h < lid_need (vote s)" using held inv' by auto
    have "lid_need (vote s) \<le> 1500" by (simp add: lid_need_def)
    then have nowrap: "unat (held_ms st + snd s) = streak (s # h)"
      using k dt by (subst unat_add_lem [THEN iffD1]) (auto simp: h)
    have cmp: "?need \<le> held_ms st + snd s \<longleftrightarrow> lid_need (vote s) \<le> streak (s # h)"
      by (simp only: word_le_nat_alt lid_need_word nowrap)
    have eq: "pure_lid_update (fst s) (snd s) st =
        (if lid_need (vote s) \<le> streak (s # h)
         then st\<lparr>answered := a, agreed := g, lid_state := vote s, held_ms := 0\<rparr>
         else st\<lparr>answered := a, agreed := g, held_ms := held_ms st + snd s\<rparr>)"
      using held cmp by (subst upd) (simp add: Let_def)
    show ?thesis unfolding eq using held inv' nowrap by (simp add: lid_inv_def not_le)
  qed
qed

lemma lid_run_inv: "list_all (\<lambda>s. unat (snd s) < 2 ^ 31) h \<Longrightarrow> lid_inv h (lid_run h)"
  by (induction h) (simp_all add: lid_inv_step, simp add: lid_inv_def lid_start_def)

section \<open>Announcements alternate\<close>

text \<open>Whether a report opens (\<open>Some True\<close>) or closes (\<open>Some False\<close>) an episode of the kind at hand.\<close>

fun latch_report :: "ui_health_report \<Rightarrow> bool option" where
  "latch_report UI_HEALTH_LATCH_STUCK = Some True"
| "latch_report UI_HEALTH_LATCH_CLEARED = Some False"
| "latch_report _ = None"

fun stall_report :: "ui_health_report \<Rightarrow> bool option" where
  "stall_report UI_HEALTH_STALLED = Some True"
| "stall_report UI_HEALTH_PRESENTING = Some False"
| "stall_report UI_HEALTH_STALL_ENDED = Some False"
| "stall_report _ = None"

fun alternating :: "bool \<Rightarrow> bool list \<Rightarrow> bool" where
  "alternating is_open [] = True"
| "alternating is_open (r # rs) = (r \<noteq> is_open \<and> alternating r rs)"

fun ui_reports :: "ui_health \<Rightarrow> (bool \<times> bool \<times> bool) list \<Rightarrow> ui_health_report list" where
  "ui_reports h [] = []"
| "ui_reports h ((p, f, i) # ins) = (let (h', r) = ui_health_step h p f i in r # ui_reports h' ins)"

lemma ui_health_report_state:
  assumes "ui_health_step h p f i = (h', r)"
  shows "case latch_report r of None \<Rightarrow> latch_stuck h' = latch_stuck h
      | Some b \<Rightarrow> latch_stuck h = (\<not> b) \<and> latch_stuck h' = b"
    and "case stall_report r of None \<Rightarrow> stalled h' = stalled h
      | Some b \<Rightarrow> stalled h = (\<not> b) \<and> stalled h' = b"
  using assms by (auto simp: ui_health_step_def Let_def split: if_splits)

lemma alternating_cons:
  "(case x of None \<Rightarrow> s' = s | Some b \<Rightarrow> s = (\<not> b) \<and> s' = b) \<Longrightarrow> alternating s' rs \<Longrightarrow>
    alternating s (case x of None \<Rightarrow> rs | Some b \<Rightarrow> b # rs)"
  by (cases x) auto

lemma map_filter_cons: "List.map_filter f (x # xs) = (case f x of None \<Rightarrow> List.map_filter f xs | Some y \<Rightarrow> y # List.map_filter f xs)"
  by (auto simp: List.map_filter_def split: option.splits)

lemma ui_alternation:
  "alternating (latch_stuck h) (List.map_filter latch_report (ui_reports h ins)) \<and>
   alternating (stalled h) (List.map_filter stall_report (ui_reports h ins))"
proof (induction ins arbitrary: h)
  case Nil
  show ?case by (simp add: List.map_filter_def)
next
  case (Cons x ins)
  obtain p f i where x: "x = (p, f, i)" by (metis prod_cases3)
  obtain h' r where s: "ui_health_step h p f i = (h', r)" by fastforce
  note st = ui_health_report_state [OF s] and IH = Cons.IH [of h']
  show ?case using alternating_cons [OF st(1) IH [THEN conjunct1]] alternating_cons [OF st(2) IH [THEN conjunct2]]
    by (simp add: x s map_filter_cons)
qed

section \<open>Progress of an update\<close>

lemma fw_percent_bounds: "pure_fw_percent received whole \<le> 100"
proof (cases "whole = 0 \<or> received \<ge> whole")
  case False
  then have lt: "unat received < unat whole" by (simp add: word_le_nat_alt not_le)
  have b: "unat received * 100 < 2 ^ 64" using unsigned_less [of received, where ?'a = nat] by simp
  have up: "unat (ucast w :: u64) = unat w" for w :: u32
    using unsigned_less [of w, where ?'a = nat] by (simp add: unsigned_ucast_eq take_bit_nat_eq_self)
  have "unat ((ucast received :: u64) * 100) = unat received * 100"
    using b by (subst unat_mult_lem [THEN iffD1]) (simp_all add: up)
  then have "unat (((ucast received :: u64) * 100) div ucast whole) = unat received * 100 div unat whole"
    by (simp add: unat_div up)
  also have "\<dots> \<le> 100 * unat whole div unat whole" using lt by (intro div_le_mono) simp
  also have "\<dots> \<le> 100" by simp
  finally show ?thesis using False by (simp add: pure_fw_percent_def)
qed (auto simp: pure_fw_percent_def)

section \<open>Properties\<close>

text \<open>
  The lens cover's state is a debounced vote. After any history of samples, each less than 24 days
  after the one before, the state is the newest vote whenever at least three cameras answered, all that
  answered agree, and they have agreed in every sample for 1.5 s (closed) or 0.3 s (open); otherwise it
  is what it was. A gap, a camera without opinion or a missing sample starts the evidence anew.
\<close>

theorem lid_is_a_debounced_vote:
  assumes "list_all (\<lambda>s. unat (snd s) < 2 ^ 31) h"
  shows "lid_state (lid_run h) = lid_spec h"
  using lid_run_inv [OF assms] by (simp add: lid_inv_def)

theorem lid_is_a_debounced_vote_witness:
  "lid_state (lid_run [(Some [5, 3, 0, -1], 1000), (Some [5, 3, 0, -1], 600), (Some [5, 3, 0, 2], 700)]) = PURE_LID_CLOSED"
proof -
  let ?h = "[(Some [5, 3, 0, -1], 1000), (Some [5, 3, 0, -1], 600), (Some [5, 3, 0, 2], 700)] :: lid_sample list"
  have "lid_spec ?h = PURE_LID_CLOSED"
    by (simp add: vote_def agreed_reading_def PURE_LID_DARK_def PURE_LID_LIT_def PURE_LID_MIN_CAMS_def lid_need_def)
  then show ?thesis using lid_is_a_debounced_vote [of ?h] by simp
qed

text \<open>
  The display task's announcements pair up. Over any run, a stuck latch is announced only while none
  is announced open and cleared only while one is, and the same for stalls: no episode is announced
  twice, and none is closed that was not opened.
\<close>

theorem ui_announcements_pair_up:
  "alternating (latch_stuck h) (List.map_filter latch_report (ui_reports h ins)) \<and>
   alternating (stalled h) (List.map_filter stall_report (ui_reports h ins))"
  by (rule ui_alternation)

end
