(* ===== verification/Pure_Wiggle.thy ===== *)
theory Pure_Wiggle
  imports Kino_Prelude
begin

text \<open>
  The order in which a capture's frames are played, from \<^verbatim>\<open>firmware/p4/main/pure.c\<close>: the loop and
  direction words of an envelope, the frame sequence over whichever cameras delivered, and the frame
  period. The property: a bounce never jumps, also at the seam and also with frames missing.
\<close>

section \<open>The code\<close>

definition PURE_WIGGLE_FRAMES_MAX :: nat where "PURE_WIGGLE_FRAMES_MAX = 4"
definition PURE_WIGGLE_SEQ_MAX :: nat where "PURE_WIGGLE_SEQ_MAX = 2 * PURE_WIGGLE_FRAMES_MAX - 2"
definition PURE_WIGGLE_FPS_MIN :: int where "PURE_WIGGLE_FPS_MIN = 5"
definition PURE_WIGGLE_FPS_MAX :: int where "PURE_WIGGLE_FPS_MAX = 15"
definition PURE_WIGGLE_FPS_DEFAULT :: int where "PURE_WIGGLE_FPS_DEFAULT = 10"

datatype pure_wiggle_loop = PURE_WIGGLE_BOUNCE | PURE_WIGGLE_CONTINUOUS | PURE_WIGGLE_SWEEP

definition pure_wiggle_loop_of :: "string option \<Rightarrow> pure_wiggle_loop" where
  "pure_wiggle_loop_of word =
    (if word = None then PURE_WIGGLE_BOUNCE
     else if word = Some ''continuous'' then PURE_WIGGLE_CONTINUOUS
     else if word = Some ''sweep'' then PURE_WIGGLE_SWEEP
     else PURE_WIGGLE_BOUNCE)"

definition pure_wiggle_direction_rtl :: "string option \<Rightarrow> bool" where
  "pure_wiggle_direction_rtl word \<longleftrightarrow> word = Some ''rtl''"

definition wiggle_have :: "u32 \<Rightarrow> nat list" where
  "wiggle_have present = filter (\<lambda>i. present AND push_bit i 1 \<noteq> 0) [0..<PURE_WIGGLE_FRAMES_MAX]"

text \<open>
  The sequence written, its length being the value returned, and the repeat flag; \<open>seq_null\<close> says that the
  caller gave no buffer.
\<close>

definition pure_wiggle_sequence :: "pure_wiggle_loop \<Rightarrow> bool \<Rightarrow> u32 \<Rightarrow> bool \<Rightarrow> int \<Rightarrow> nat list \<times> bool" where
  "pure_wiggle_sequence loop rtl present seq_null cap =
    (let repeats = (loop \<noteq> PURE_WIGGLE_SWEEP);
         have_frames = wiggle_have present;
         n = length have_frames;
         pick = (\<lambda>p. have_frames ! (if rtl then n - 1 - p else p))
     in if n = 0 \<or> seq_null \<or> cap \<le> 0 then ([], repeats)
        else let len = (if loop = PURE_WIGGLE_BOUNCE \<and> n > 2 then 2 * n - 2 else n)
             in if int len > cap then ([], repeats)
                else (map pick [0..<n] @
                      (if loop = PURE_WIGGLE_BOUNCE then map pick (rev [1..<n - 1]) else []), repeats))"

definition pure_wiggle_period_ms :: "int \<Rightarrow> int" where
  "pure_wiggle_period_ms fps0 =
    (let fps1 = (if fps0 \<le> 0 then PURE_WIGGLE_FPS_DEFAULT else fps0);
         fps2 = (if fps1 < PURE_WIGGLE_FPS_MIN then PURE_WIGGLE_FPS_MIN else fps1);
         fps3 = (if fps2 > PURE_WIGGLE_FPS_MAX then PURE_WIGGLE_FPS_MAX else fps2)
     in 1000 div fps3)"

section \<open>Playing in a ring\<close>

text \<open>\<open>neighbours xs a b\<close>: \<open>a\<close> and \<open>b\<close> stand next to each other in \<open>xs\<close>, in either order.\<close>

definition neighbours :: "nat list \<Rightarrow> nat \<Rightarrow> nat \<Rightarrow> bool" where
  "neighbours xs a b \<longleftrightarrow> (a, b) \<in> set (zip xs (tl xs)) \<or> (b, a) \<in> set (zip xs (tl xs))"

text \<open>Every two frames shown one after the other, the last and the first included, are neighbours.\<close>

definition smooth_ring :: "nat list \<Rightarrow> nat list \<Rightarrow> bool" where
  "smooth_ring xs seq \<longleftrightarrow> list_all (\<lambda>(a, b). neighbours xs a b) (zip seq (tl seq @ [hd seq]))"

lemma wiggle_have_bits: "wiggle_have present = filter (bit present) [0..<4]"
proof -
  have "present AND push_bit i 1 \<noteq> 0 \<longleftrightarrow> bit present i" for i
    using and_exp_eq_0_iff_not_bit [of present i] by (simp add: push_bit_eq_mult)
  then show ?thesis by (simp only: wiggle_have_def PURE_WIGGLE_FRAMES_MAX_def)
qed

lemma frames_present: "wiggle_have present =
    (if bit present 0 then [0] else []) @ (if bit present 1 then [1] else []) @
    (if bit present 2 then [2] else []) @ (if bit present 3 then [3] else [])"
  by (simp add: wiggle_have_bits upt_rec numeral_2_eq_2 numeral_3_eq_3)

section \<open>Properties\<close>

lemma bounce_never_jumps_parts:
  assumes "2 \<le> length (wiggle_have present)" "int PURE_WIGGLE_SEQ_MAX \<le> cap"
  shows "set (fst (pure_wiggle_sequence PURE_WIGGLE_BOUNCE rtl present False cap)) = {i. i < 4 \<and> bit present i}"
    and "smooth_ring (wiggle_have present) (fst (pure_wiggle_sequence PURE_WIGGLE_BOUNCE rtl present False cap))"
    and "count_list (fst (pure_wiggle_sequence PURE_WIGGLE_BOUNCE rtl present False cap)) i \<le> 2"
proof -
  let ?s = "fst (pure_wiggle_sequence PURE_WIGGLE_BOUNCE rtl present False cap)"
  have cap: "6 \<le> cap" using assms(2) by (simp add: PURE_WIGGLE_SEQ_MAX_def PURE_WIGGLE_FRAMES_MAX_def)
  show "smooth_ring (wiggle_have present) ?s"
    using assms(1) cap
    by (cases "bit present 0"; cases "bit present 1"; cases "bit present 2"; cases "bit present 3"; cases rtl)
      (simp_all add: pure_wiggle_sequence_def frames_present Let_def smooth_ring_def neighbours_def upt_rec)
  show "count_list ?s i \<le> 2"
    using assms(1) cap
    by (cases "bit present 0"; cases "bit present 1"; cases "bit present 2"; cases "bit present 3"; cases rtl)
      (simp_all add: pure_wiggle_sequence_def frames_present Let_def upt_rec)
  have "{i. i < 4 \<and> bit present i} = set (wiggle_have present)" by (auto simp: wiggle_have_bits)
  moreover have "set ?s = set (wiggle_have present)"
    using assms(1) cap
    by (cases "bit present 0"; cases "bit present 1"; cases "bit present 2"; cases "bit present 3"; cases rtl)
      (auto simp: pure_wiggle_sequence_def frames_present Let_def upt_rec)
  ultimately show "set ?s = {i. i < 4 \<and> bit present i}" by simp
qed

text \<open>
  Given room for six entries, a bounce over the delivered frames shows exactly the frames that were
  delivered, at least once and at most twice each, and every step of the endless playback, the one
  from the end of the sequence to its start included, goes to a neighbouring delivered frame.
\<close>

theorem bounce_never_jumps:
  assumes "2 \<le> length (wiggle_have present)" "int PURE_WIGGLE_SEQ_MAX \<le> cap"
  shows "set (fst (pure_wiggle_sequence PURE_WIGGLE_BOUNCE rtl present False cap)) = {i. i < 4 \<and> bit present i} \<and>
    smooth_ring (wiggle_have present) (fst (pure_wiggle_sequence PURE_WIGGLE_BOUNCE rtl present False cap)) \<and>
    count_list (fst (pure_wiggle_sequence PURE_WIGGLE_BOUNCE rtl present False cap)) i \<le> 2"
  using bounce_never_jumps_parts [OF assms] by blast

theorem bounce_never_jumps_witness:
  "set (fst (pure_wiggle_sequence PURE_WIGGLE_BOUNCE False 13 False 6)) = {i. i < 4 \<and> bit (13 :: u32) i}"
  using bounce_never_jumps [of 13 6 False]
  by (simp add: frames_present PURE_WIGGLE_SEQ_MAX_def PURE_WIGGLE_FRAMES_MAX_def bit_numeral_rec)

end
