(* ===== verification/Gallery_Index.thy ===== *)
theory Gallery_Index
  imports Kino_Decimal
begin

text \<open>
  The gallery's order index, \<^verbatim>\<open>firmware/p4/main/gallery_index.c\<close>: the text file of capture times and
  directory names, its renderer and its readers. The properties: an index reads back as written; an
  index cut at any byte reads back as a prefix; no text whatever makes a reader return a name that
  leaves the captures directory; a page is a window of all the entries; and the oldest capture is found.

  \<^verbatim>\<open>unsigned long\<close> has 32 bits on the target. The file is a C string, so its text holds no NUL.
\<close>

section \<open>The code\<close>

definition GIDX_VERSION :: u32 where "GIDX_VERSION = 1"
definition GIDX_MAGIC :: string where "GIDX_MAGIC = ''KINOIDX''"
definition GIDX_NAME_MAX :: nat where "GIDX_NAME_MAX = 40"
definition GIDX_LINE_MAX :: nat where "GIDX_LINE_MAX = 72"
definition GIDX_FILE :: string where "GIDX_FILE = ''INDEX.TXT''"
definition GIDX_TMP_FILE :: string where "GIDX_TMP_FILE = ''INDEX.TMP''"
definition GIDX_LINE_BOUND :: nat where "GIDX_LINE_BOUND = 61"

record gidx_entry =
  captured_at_ms :: u64
  ename :: string

record gidx_header =
  version :: u32
  entries :: int
  total_seen :: int

definition gidx_max_bytes :: "int \<Rightarrow> nat" where
  "gidx_max_bytes max_entries0 =
    (let max_entries = (if max_entries0 < 0 then 0 else max_entries0)
     in 64 + nat max_entries * GIDX_LINE_BOUND)"

definition lower :: "char \<Rightarrow> char" where
  "lower c = (if c \<ge> CHR ''A'' \<and> c \<le> CHR ''Z'' then char_of (of_char c - of_char (CHR ''A'') + of_char (CHR ''a'') :: nat) else c)"

fun same_name :: "string \<Rightarrow> string \<Rightarrow> bool" where
  "same_name (a # as) (b # bs) = (if lower a \<noteq> lower b then False else same_name as bs)"
| "same_name as bs = (as = [] \<and> bs = [])"

definition gidx_is_index_file :: "string option \<Rightarrow> bool" where
  "gidx_is_index_file name =
    (case name of None \<Rightarrow> False | Some n \<Rightarrow> same_name n GIDX_FILE \<or> same_name n GIDX_TMP_FILE)"

definition name_char :: "char \<Rightarrow> bool" where
  "name_char c \<longleftrightarrow> c \<ge> CHR ''0'' \<and> c \<le> CHR ''9'' \<or> c \<ge> CHR ''a'' \<and> c \<le> CHR ''z'' \<or>
    c \<ge> CHR ''A'' \<and> c \<le> CHR ''Z'' \<or> c = CHR ''-'' \<or> c = CHR ''_'' \<or> c = CHR ''.''"

definition name_ok :: "string \<Rightarrow> bool" where
  "name_ok s =
    (if length s = 0 \<or> length s \<ge> GIDX_NAME_MAX then False
     else if s ! 0 = CHR ''.'' then False
     else list_all name_char s)"

definition gidx_name_ok :: "string option \<Rightarrow> bool" where
  "gidx_name_ok name = (case name of None \<Rightarrow> False | Some n \<Rightarrow> name_ok n)"

text \<open>The renderers, for a buffer of \<open>cap\<close> bytes, \<open>cap\<close> at least one: the text written, empty when refused.\<close>

definition dec_int :: "int \<Rightarrow> string" where
  "dec_int i = (if i < 0 then CHR ''-'' # dec (nat (- i)) else dec (nat i))"

definition gidx_render_header :: "nat \<Rightarrow> int \<Rightarrow> int \<Rightarrow> string" where
  "gidx_render_header cap n_entries n_seen =
    (if n_entries < 0 \<or> n_seen < n_entries then []
     else let out = GIDX_MAGIC @ '' '' @ dec (unat GIDX_VERSION) @ '' '' @ dec_int n_entries @ '' '' @ dec_int n_seen @ [CHR 0x0A]
          in if length out \<ge> cap then [] else out)"

definition gidx_render_line :: "nat \<Rightarrow> u64 \<Rightarrow> string option \<Rightarrow> string" where
  "gidx_render_line cap at_ms name =
    (case name of None \<Rightarrow> []
     | Some n \<Rightarrow>
         if \<not> name_ok n then []
         else let out = dec (unat at_ms) @ '' '' @ n @ [CHR 0x0A]
              in if length out \<ge> cap then [] else out)"

text \<open>The digit loops of \<^verbatim>\<open>take_u\<close> and \<^verbatim>\<open>gidx_parse_line\<close>: \<open>None\<close> past the limit, else the number and what follows.\<close>

fun read_digits :: "nat \<Rightarrow> nat \<Rightarrow> ('a :: len) word \<Rightarrow> string \<Rightarrow> ('a word \<times> string) option" where
  "read_digits limit digits v [] = Some (v, [])"
| "read_digits limit digits v (c # cs) =
    (if c_digit c
     then (if digits \<ge> limit then None else read_digits limit (digits + 1) (v * 10 + of_nat (char_digit c)) cs)
     else Some (v, c # cs))"

definition take_u :: "string \<Rightarrow> (u32 \<times> string) option" where
  "take_u p =
    (if p = [] \<or> \<not> c_digit (hd p) then None
     else case read_digits 9 0 0 p of None \<Rightarrow> None
       | Some (v, []) \<Rightarrow> Some (v, [])
       | Some (v, c # cs) \<Rightarrow> if c = CHR '' '' then Some (v, cs) else None)"

definition gidx_parse_header :: "string option \<Rightarrow> gidx_header option" where
  "gidx_parse_header line_opt =
    (case line_opt of None \<Rightarrow> None
     | Some line \<Rightarrow>
         let mlen = length GIDX_MAGIC in
         if take mlen line \<noteq> GIDX_MAGIC \<or> take 1 (drop mlen line) \<noteq> '' '' then None
         else case take_u (drop (mlen + 1) line) of None \<Rightarrow> None
           | Some (ver, p1) \<Rightarrow>
               (case take_u p1 of None \<Rightarrow> None
                | Some (ents, p2) \<Rightarrow>
                    (case take_u p2 of None \<Rightarrow> None
                     | Some (seen, p3) \<Rightarrow>
                         if p3 \<noteq> [] then None
                         else if ver \<noteq> GIDX_VERSION then None
                         else if seen < ents then None
                         else Some \<lparr>version = ver, entries = sint ents, total_seen = sint seen\<rparr>)))"

definition gidx_parse_line :: "string option \<Rightarrow> gidx_entry option" where
  "gidx_parse_line line_opt =
    (case line_opt of None \<Rightarrow> None
     | Some line \<Rightarrow>
         if line = [] \<or> \<not> c_digit (hd line) then None
         else case read_digits 19 0 0 line of None \<Rightarrow> None
           | Some (ms, []) \<Rightarrow> None
           | Some (ms, c # p) \<Rightarrow>
               if c \<noteq> CHR '' '' then None
               else if \<not> name_ok p then None
               else Some \<lparr>captured_at_ms = ms, ename = p\<rparr>)"

definition take_line :: "nat \<Rightarrow> string \<Rightarrow> (string \<times> string) option" where
  "take_line cap p =
    (case first_at (\<lambda>c. c = CHR 0x0A) p of None \<Rightarrow> None
     | Some nl \<Rightarrow>
         let len = (if nl > 0 \<and> p ! (nl - 1) = CHR 0x0D then nl - 1 else nl)
         in Some (if len \<ge> cap then [] else take len p, drop (nl + 1) p))"

lemma take_line_shorter: "take_line cap p = Some (l, r) \<Longrightarrow> length r < length p"
  by (auto simp: take_line_def Let_def split: option.splits dest: first_at_SomeD)

function parse_loop :: "int \<Rightarrow> gidx_entry list \<Rightarrow> nat \<Rightarrow> string \<Rightarrow> gidx_entry list \<times> nat" where
  "parse_loop mx out skipped p =
    (case take_line GIDX_LINE_MAX p of None \<Rightarrow> (out, skipped)
     | Some (line, p') \<Rightarrow>
         if line = [] \<or> int (length out) \<ge> mx then parse_loop mx out (skipped + 1) p'
         else case gidx_parse_line (Some line) of
           None \<Rightarrow> parse_loop mx out (skipped + 1) p'
         | Some e \<Rightarrow> parse_loop mx (out @ [e]) skipped p')"
  by pat_completeness auto
termination
  by (relation "measure (\<lambda>(_, _, _, p). length p)") (auto dest: take_line_shorter)

declare parse_loop.simps [simp del]

text \<open>\<open>None\<close> for the return value -1; otherwise header, entries, and the number of lines skipped.\<close>

definition gidx_parse :: "string option \<Rightarrow> int \<Rightarrow> (gidx_header \<times> gidx_entry list \<times> nat) option" where
  "gidx_parse text_opt mx =
    (case text_opt of None \<Rightarrow> None
     | Some text0 \<Rightarrow>
         if mx \<le> 0 then None
         else case take_line GIDX_LINE_MAX text0 of None \<Rightarrow> None
           | Some (line, p) \<Rightarrow>
               (case gidx_parse_header (Some line) of None \<Rightarrow> None
                | Some hdr \<Rightarrow> Some (hdr, parse_loop mx [] 0 p)))"

fun oldest_loop :: "u64 list \<Rightarrow> nat \<Rightarrow> nat \<Rightarrow> nat \<Rightarrow> nat" where
  "oldest_loop ms oldest i 0 = oldest"
| "oldest_loop ms oldest i (Suc k) = oldest_loop ms (if ms ! i < ms ! oldest then i else oldest) (i + 1) k"

definition gidx_oldest :: "u64 list option \<Rightarrow> int" where
  "gidx_oldest ms_opt =
    (case ms_opt of None \<Rightarrow> -1
     | Some ms \<Rightarrow> if ms = [] then -1 else int (oldest_loop ms 0 1 (length ms - 1)))"

function page_loop :: "int \<Rightarrow> int \<Rightarrow> bool \<Rightarrow> gidx_entry list \<Rightarrow> nat \<Rightarrow> nat \<Rightarrow> string \<Rightarrow> gidx_entry list \<times> nat \<times> nat" where
  "page_loop cursor limit out_null out valid skipped p =
    (case take_line GIDX_LINE_MAX p of None \<Rightarrow> (out, valid, skipped)
     | Some (line, p') \<Rightarrow>
         if line = [] then page_loop cursor limit out_null out valid (skipped + 1) p'
         else case gidx_parse_line (Some line) of
           None \<Rightarrow> page_loop cursor limit out_null out valid (skipped + 1) p'
         | Some e \<Rightarrow>
             page_loop cursor limit out_null
               (if int valid \<ge> cursor \<and> (limit \<le> 0 \<or> int (length out) < limit) \<and> \<not> out_null
                then out @ [e] else out)
               (valid + 1) skipped p')"
  by pat_completeness auto
termination
  by (relation "measure (\<lambda>(_, _, _, _, _, _, p). length p)") (auto dest: take_line_shorter)

declare page_loop.simps [simp del]

definition gidx_page :: "string option \<Rightarrow> int \<Rightarrow> int \<Rightarrow> bool \<Rightarrow> (gidx_header \<times> gidx_entry list \<times> nat \<times> nat) option" where
  "gidx_page text_opt cursor0 limit out_null =
    (case text_opt of None \<Rightarrow> None
     | Some text0 \<Rightarrow>
         let cursor = (if cursor0 < 0 then 0 else cursor0) in
         case take_line GIDX_LINE_MAX text0 of None \<Rightarrow> None
         | Some (line, p) \<Rightarrow>
             (case gidx_parse_header (Some line) of None \<Rightarrow> None
              | Some hdr \<Rightarrow> Some (hdr, page_loop cursor limit out_null [] 0 0 p)))"

section \<open>Lines\<close>

text \<open>The complete lines of a text as the readers see them, and the entries among them.\<close>

function lines_of :: "string \<Rightarrow> string list" where
  "lines_of p = (case take_line GIDX_LINE_MAX p of None \<Rightarrow> [] | Some (l, r) \<Rightarrow> l # lines_of r)"
  by pat_completeness auto
termination
  by (relation "measure length") (auto dest: take_line_shorter)

declare lines_of.simps [simp del]

definition all_entries :: "string \<Rightarrow> gidx_entry list" where
  "all_entries p = List.map_filter (\<lambda>l. gidx_parse_line (Some l)) (lines_of p)"

lemma parse_line_empty [simp]: "gidx_parse_line (Some []) = None"
  by (simp add: gidx_parse_line_def)

definition bad_lines :: "string \<Rightarrow> nat" where
  "bad_lines p = length (filter (\<lambda>l. gidx_parse_line (Some l) = None) (lines_of p))"

lemma entries_none: "take_line GIDX_LINE_MAX p = None \<Longrightarrow> all_entries p = [] \<and> bad_lines p = 0"
  by (simp add: all_entries_def bad_lines_def lines_of.simps [of p] List.map_filter_def)

lemma entries_bad:
  "take_line GIDX_LINE_MAX p = Some (l, r) \<Longrightarrow> gidx_parse_line (Some l) = None \<Longrightarrow>
    all_entries p = all_entries r \<and> bad_lines p = Suc (bad_lines r)"
  by (simp add: all_entries_def bad_lines_def lines_of.simps [of p] List.map_filter_def)

lemma entries_good:
  "take_line GIDX_LINE_MAX p = Some (l, r) \<Longrightarrow> gidx_parse_line (Some l) = Some e \<Longrightarrow>
    all_entries p = e # all_entries r \<and> bad_lines p = bad_lines r"
  by (simp add: all_entries_def bad_lines_def lines_of.simps [of p] List.map_filter_def)

text \<open>The three ways a reader's loop can go on, as an induction over the text.\<close>

lemma text_induct [case_names none bad good]:
  assumes "\<And>p. take_line GIDX_LINE_MAX p = None \<Longrightarrow> P p"
    and "\<And>p l r. take_line GIDX_LINE_MAX p = Some (l, r) \<Longrightarrow> gidx_parse_line (Some l) = None \<Longrightarrow> P r \<Longrightarrow> P p"
    and "\<And>p l r e. take_line GIDX_LINE_MAX p = Some (l, r) \<Longrightarrow> gidx_parse_line (Some l) = Some e \<Longrightarrow> P r \<Longrightarrow> P p"
  shows "P p"
proof (induction "length p" arbitrary: p rule: less_induct)
  case less
  show ?case
  proof (cases "take_line GIDX_LINE_MAX p")
    case None
    then show ?thesis by (rule assms(1))
  next
    case (Some lr)
    obtain l r where lr: "lr = (l, r)" by fastforce
    have "P r" using less take_line_shorter Some lr by blast
    then show ?thesis using assms(2,3) Some lr by (cases "gidx_parse_line (Some l)") blast+
  qed
qed

lemma parse_loop_entries:
  "int (length out) \<le> mx \<Longrightarrow>
    parse_loop mx out skipped p =
      (take (nat mx) (out @ all_entries p),
       skipped + bad_lines p + (length out + length (all_entries p) - nat mx))"
proof (induction p arbitrary: out skipped rule: text_induct)
  case (none p)
  then show ?case by (simp add: parse_loop.simps [of _ _ _ p] entries_none)
next
  case (bad p l r)
  then show ?case by (auto simp: parse_loop.simps [of _ _ _ p] entries_bad [OF bad(1,2)])
next
  case (good p l r e)
  have "l \<noteq> []" using good(2) by auto
  show ?case
  proof (cases "int (length out) \<ge> mx")
    case True
    then have "nat mx = length out" using good(4) by simp
    then show ?thesis using good True by (simp add: parse_loop.simps [of _ _ _ p] entries_good [OF good(1,2)])
  next
    case False
    then have "nat mx - length out = Suc (nat mx - Suc (length out))" by simp
    then show ?thesis using good \<open>l \<noteq> []\<close> False
      by (simp add: parse_loop.simps [of _ _ _ p] entries_good [OF good(1,2)])
  qed
qed

lemma page_loop_window:
  assumes "0 \<le> cursor"
  shows "page_loop cursor limit False out valid skipped p =
    (out @ (if limit \<le> 0 then drop (nat cursor - valid) (all_entries p)
            else take (nat limit - length out) (drop (nat cursor - valid) (all_entries p))),
     valid + length (all_entries p), skipped + bad_lines p)"
proof (induction p arbitrary: out valid skipped rule: text_induct)
  case (none p)
  then show ?case by (simp add: page_loop.simps [of _ _ _ _ _ _ p] entries_none)
next
  case (bad p l r)
  then show ?case by (simp add: page_loop.simps [of _ _ _ _ _ _ p] entries_bad [OF bad(1,2)])
next
  case (good p l r e)
  have "l \<noteq> []" using good(2) by auto
  note eq = page_loop.simps [of _ _ _ _ _ _ p] entries_good [OF good(1,2)]
  show ?case
  proof (cases "int valid \<ge> cursor")
    case True
    then have "nat cursor - valid = 0" "nat cursor - Suc valid = 0" by simp_all
    then show ?thesis using good \<open>l \<noteq> []\<close> True assms
      by (cases "limit \<le> 0"; cases "int (length out) < limit") (auto simp: eq take_Cons' not_less)
  next
    case False
    then have "nat cursor - valid = Suc (nat cursor - Suc valid)" using assms by simp
    then show ?thesis using good \<open>l \<noteq> []\<close> False by (simp add: eq)
  qed
qed

section \<open>Rendered text\<close>

lemma take_line_append:
  assumes "\<forall>c \<in> set l. c \<noteq> CHR 0x0A" "l = [] \<or> last l \<noteq> CHR 0x0D" "length l < cap"
  shows "take_line cap (l @ CHR 0x0A # rest) = Some (l, rest)"
proof -
  have no: "l ! j \<noteq> CHR 0x0A" if "j < length l" for j using assms(1) that nth_mem by blast
  have "first_at (\<lambda>c. c = CHR 0x0A) (l @ CHR 0x0A # rest) = Some (length l)"
    by (rule first_at_eqI) (simp_all add: nth_append no)
  moreover have "\<not> (length l > 0 \<and> (l @ CHR 0x0A # rest) ! (length l - 1) = CHR 0x0D)"
    using assms(2) by (cases "l = []") (simp_all add: nth_append last_conv_nth)
  ultimately show ?thesis using assms(3) by (simp only: take_line_def Let_def option.case if_False) simp
qed

lemma take_line_no_newline: "\<forall>c \<in> set l. c \<noteq> CHR 0x0A \<Longrightarrow> take_line cap l = None"
  by (simp add: take_line_def first_at_None [THEN iffD2])

lemma read_digits_append:
  assumes "\<forall>c \<in> set ds. c_digit c" "rest = [] \<or> \<not> c_digit (hd rest)" "digits + length ds \<le> limit"
  shows "read_digits limit digits v (ds @ rest) =
    Some (foldl (\<lambda>a c. a * 10 + of_nat (char_digit c)) v ds, rest)"
  using assms
proof (induction ds arbitrary: v digits)
  case Nil
  then show ?case by (cases rest) auto
qed auto

lemma foldl_of_nat:
  "foldl (\<lambda>a c. a * 10 + of_nat (char_digit c)) (of_nat v :: ('a :: len) word) ds =
    of_nat (foldl (\<lambda>a c. a * 10 + char_digit c) v ds)"
proof (induction ds arbitrary: v)
  case (Cons c ds)
  show ?case using Cons [of "v * 10 + char_digit c"] by simp
qed simp

lemma read_digits_dec:
  assumes "rest = [] \<or> \<not> c_digit (hd rest)" "n < 10 ^ limit" "0 < limit"
  shows "read_digits limit 0 (0 :: ('a :: len) word) (dec n @ rest) = Some (of_nat n, rest)"
proof -
  have "length (dec n) \<le> limit" using assms(2,3) by (simp add: length_dec_le)
  then show ?thesis
    using read_digits_append [OF dec_digits assms(1), of 0 n limit "0 :: 'a word"] foldl_of_nat [of 0 "dec n", where ?'a = 'a]
    by (simp flip: dec_value_def)
qed

definition line_text :: "gidx_entry \<Rightarrow> string" where
  "line_text e = dec (unat (captured_at_ms e)) @ CHR '' '' # ename e"

definition entry_ok :: "gidx_entry \<Rightarrow> bool" where
  "entry_ok e \<longleftrightarrow> unat (captured_at_ms e) < 10 ^ 19 \<and> name_ok (ename e)"

definition line_char :: "char \<Rightarrow> bool" where
  "line_char c \<longleftrightarrow> c \<noteq> CHR 0x0A \<and> c \<noteq> CHR 0x0D"

lemma line_chars: "name_char c \<Longrightarrow> line_char c" "c_digit c \<Longrightarrow> line_char c" "line_char (CHR '' '')"
  by (auto simp: name_char_def line_char_def c_digit_def less_eq_char_def)

lemma hd_dec: "c_digit (hd (dec n))"
  using dec_digits [of n] by (metis dec_not_Nil hd_in_set)

lemma space_no_digit: "\<not> c_digit (CHR '' '')"
  by (simp add: c_digit_def less_eq_char_def)

lemma name_ok_chars: "name_ok n \<Longrightarrow> n \<noteq> [] \<and> length n < 40 \<and> list_all name_char n"
  by (simp add: name_ok_def GIDX_NAME_MAX_def split: if_splits)

lemma line_text_props:
  assumes "entry_ok e"
  shows "\<forall>c \<in> set (line_text e). line_char c" "length (line_text e) \<le> 59" "line_text e \<noteq> []"
proof -
  have n: "ename e \<noteq> []" "length (ename e) < 40" "list_all name_char (ename e)"
    using assms name_ok_chars by (auto simp: entry_ok_def)
  have "length (dec (unat (captured_at_ms e))) \<le> 19"
    using assms length_dec_le [of 19 "unat (captured_at_ms e)"] by (simp add: entry_ok_def)
  then show "length (line_text e) \<le> 59" using n by (simp add: line_text_def)
  show "\<forall>c \<in> set (line_text e). line_char c"
    using n(3) dec_digits [of "unat (captured_at_ms e)"] line_chars
    by (auto simp: line_text_def list_all_iff)
  show "line_text e \<noteq> []" by (simp add: line_text_def)
qed

lemma render_line_text:
  "entry_ok e \<Longrightarrow> gidx_render_line GIDX_LINE_MAX (captured_at_ms e) (Some (ename e)) = line_text e @ [CHR 0x0A]"
  using line_text_props(2) [of e]
  by (simp add: gidx_render_line_def entry_ok_def line_text_def GIDX_LINE_MAX_def)

lemma parse_line_text: "entry_ok e \<Longrightarrow> gidx_parse_line (Some (line_text e)) = Some e"
  using read_digits_dec [of "CHR '' '' # ename e" "unat (captured_at_ms e)" 19, where ?'a = 64]
  by (simp add: gidx_parse_line_def entry_ok_def line_text_def hd_dec space_no_digit)

lemma take_line_text:
  assumes "entry_ok e"
  shows "take_line GIDX_LINE_MAX (line_text e @ CHR 0x0A # rest) = Some (line_text e, rest)"
proof (rule take_line_append)
  note p = line_text_props [OF assms]
  show "\<forall>c \<in> set (line_text e). c \<noteq> CHR 0x0A" using p(1) by (auto simp: line_char_def)
  show "line_text e = [] \<or> last (line_text e) \<noteq> CHR 0x0D" using p(1,3) last_in_set by (auto simp: line_char_def)
  show "length (line_text e) < GIDX_LINE_MAX" using p(2) by (simp add: GIDX_LINE_MAX_def)
qed

definition body_text :: "gidx_entry list \<Rightarrow> string" where
  "body_text es = concat (map (\<lambda>e. gidx_render_line GIDX_LINE_MAX (captured_at_ms e) (Some (ename e))) es)"

lemma body_text_Cons: "entry_ok e \<Longrightarrow> body_text (e # es) = line_text e @ CHR 0x0A # body_text es"
  by (simp add: body_text_def render_line_text)

lemma body_entries:
  assumes "list_all entry_ok es" "\<forall>c \<in> set part. c \<noteq> CHR 0x0A"
  shows "all_entries (body_text es @ part) = es \<and> bad_lines (body_text es @ part) = 0"
  using assms(1)
proof (induction es)
  case Nil
  then show ?case using entries_none [OF take_line_no_newline [OF assms(2)]] by (simp add: body_text_def)
next
  case (Cons e es)
  then have "entry_ok e" by simp
  note g = entries_good [OF take_line_text [OF this, of "body_text es @ part"] parse_line_text [OF this]]
  show ?case using g Cons by (simp add: body_text_Cons)
qed

lemma take_body:
  assumes "list_all entry_ok es"
  shows "\<exists>j part. take k (body_text es) = body_text (take j es) @ part \<and> (\<forall>c \<in> set part. c \<noteq> CHR 0x0A)"
  using assms
proof (induction es arbitrary: k)
  case Nil
  show ?case by (intro exI [of _ 0] exI [of _ "[]"]) (simp add: body_text_def)
next
  case (Cons e es)
  then have ok: "entry_ok e" by simp
  show ?case
  proof (cases "k \<le> length (line_text e)")
    case True
    have "take k (body_text (e # es)) = body_text (take 0 (e # es)) @ take k (line_text e)"
      using True by (simp add: body_text_Cons [OF ok]) (simp add: body_text_def)
    moreover have "\<forall>c \<in> set (take k (line_text e)). c \<noteq> CHR 0x0A"
      using line_text_props(1) [OF ok] by (auto simp: line_char_def dest: in_set_takeD)
    ultimately show ?thesis by blast
  next
    case False
    define k' where "k' = k - Suc (length (line_text e))"
    have k: "k - length (line_text e) = Suc k'" using False by (simp add: k'_def)
    obtain j part where "take k' (body_text es) = body_text (take j es) @ part" "\<forall>c \<in> set part. c \<noteq> CHR 0x0A"
      using Cons.IH [of k'] Cons.prems by auto
    then have "take k (body_text (e # es)) = body_text (take (Suc j) (e # es)) @ part \<and> (\<forall>c \<in> set part. c \<noteq> CHR 0x0A)"
      using False k by (simp add: body_text_Cons [OF ok])
    then show ?thesis by blast
  qed
qed

lemma take_u_dec:
  assumes "n < 10 ^ 9"
  shows "take_u (dec n @ CHR '' '' # rest) = Some (of_nat n, rest)" "take_u (dec n) = Some (of_nat n, [])"
proof -
  show "take_u (dec n @ CHR '' '' # rest) = Some (of_nat n, rest)"
    using read_digits_dec [of "CHR '' '' # rest" n 9, where ?'a = 32] assms
    by (simp add: take_u_def hd_dec space_no_digit)
  show "take_u (dec n) = Some (of_nat n, [])"
    using read_digits_dec [of "[]" n 9, where ?'a = 32] assms hd_dec [of n]
    by (simp add: take_u_def)
qed

definition head_text :: "nat \<Rightarrow> nat \<Rightarrow> string" where
  "head_text n m = ''KINOIDX 1 '' @ dec n @ CHR '' '' # dec m"

lemma render_head:
  assumes "n \<le> m" "m < 10 ^ 9"
  shows "gidx_render_header GIDX_LINE_MAX (int n) (int m) = head_text n m @ [CHR 0x0A]"
    and "length (head_text n m) < GIDX_LINE_MAX"
proof -
  have d: "length (dec n) \<le> 9" "length (dec m) \<le> 9" using assms by (simp_all add: length_dec_le)
  have one: "dec 1 = ''1''" by code_simp
  show "length (head_text n m) < GIDX_LINE_MAX" using d by (simp add: head_text_def GIDX_LINE_MAX_def)
  show "gidx_render_header GIDX_LINE_MAX (int n) (int m) = head_text n m @ [CHR 0x0A]"
    using assms d one by (simp add: gidx_render_header_def head_text_def GIDX_MAGIC_def GIDX_VERSION_def
        dec_int_def GIDX_LINE_MAX_def)
qed

lemma head_chars: "\<forall>c \<in> set (head_text n m). line_char c"
  using dec_digits [of n] dec_digits [of m] line_chars by (auto simp: head_text_def) (auto simp: line_char_def)

lemma take_line_head:
  assumes "n \<le> m" "m < 10 ^ 9"
  shows "take_line GIDX_LINE_MAX (head_text n m @ CHR 0x0A # rest) = Some (head_text n m, rest)"
proof (rule take_line_append)
  show "\<forall>c \<in> set (head_text n m). c \<noteq> CHR 0x0A" using head_chars by (auto simp: line_char_def)
  show "head_text n m = [] \<or> last (head_text n m) \<noteq> CHR 0x0D"
    using head_chars [of n m] last_in_set by (auto simp: line_char_def)
  show "length (head_text n m) < GIDX_LINE_MAX" by (rule render_head(2) [OF assms])
qed

lemma parse_head:
  assumes "n \<le> m" "m < 10 ^ 9"
  shows "gidx_parse_header (Some (head_text n m)) = Some \<lparr>version = 1, entries = int n, total_seen = int m\<rparr>"
proof -
  have "dec 1 = ''1''" by code_simp
  then have one: "take_u (CHR ''1'' # CHR '' '' # r) = Some (1, r)" for r
    using take_u_dec(1) [of 1 r] by simp
  have s: "sint (of_nat k :: u32) = int k" "unat (of_nat k :: u32) = k" if "k < 10 ^ 9" for k
    using that by (simp_all add: signed_take_bit_int_eq_self take_bit_nat_eq_self unsigned_of_nat signed_of_nat)
  have n: "n < 10 ^ 9" using assms by simp
  show ?thesis
    using assms s [OF n] s [OF assms(2)] take_u_dec(1) [OF n, of "dec m"] take_u_dec(2) [OF assms(2)]
    by (simp add: gidx_parse_header_def head_text_def GIDX_MAGIC_def GIDX_VERSION_def one word_less_nat_alt)
qed

text \<open>The file as the gallery writes it.\<close>

definition index_text :: "nat \<Rightarrow> nat \<Rightarrow> gidx_entry list \<Rightarrow> string" where
  "index_text n m es = gidx_render_header GIDX_LINE_MAX (int n) (int m) @ body_text es"

lemma parse_index:
  assumes "n \<le> m" "m < 10 ^ 9" "0 < mx"
  shows "gidx_parse (Some (head_text n m @ CHR 0x0A # rest)) mx =
    Some (\<lparr>version = 1, entries = int n, total_seen = int m\<rparr>, parse_loop mx [] 0 rest)"
  using assms by (simp add: gidx_parse_def take_line_head parse_head)

lemma cut_index:
  assumes "n \<le> m" "m < 10 ^ 9" "0 < mx" "list_all entry_ok es"
  shows "gidx_parse (Some (take k (index_text n m es))) mx = None \<or>
    (\<exists>j. gidx_parse (Some (take k (index_text n m es))) mx =
      Some (\<lparr>version = 1, entries = int n, total_seen = int m\<rparr>, take (nat mx) (take j es), length (take j es) - nat mx))"
proof (cases "k \<le> length (head_text n m)")
  case True
  have "\<forall>c \<in> set (take k (head_text n m)). c \<noteq> CHR 0x0A"
    using head_chars [of n m] by (auto simp: line_char_def dest: in_set_takeD)
  then have "take_line GIDX_LINE_MAX (take k (index_text n m es)) = None"
    using True by (simp add: index_text_def render_head(1) [OF assms(1,2)] take_line_no_newline)
  then show ?thesis by (simp add: gidx_parse_def)
next
  case False
  define k' where "k' = k - Suc (length (head_text n m))"
  have k: "k - length (head_text n m) = Suc k'" using False by (simp add: k'_def)
  obtain j part where jp: "take k' (body_text es) = body_text (take j es) @ part" "\<forall>c \<in> set part. c \<noteq> CHR 0x0A"
    using take_body [OF assms(4)] by blast
  have ok: "list_all entry_ok (take j es)" using assms(4) by (auto simp: list_all_iff dest: in_set_takeD)
  have "take k (index_text n m es) = head_text n m @ CHR 0x0A # body_text (take j es) @ part"
    using False k jp(1) by (simp add: index_text_def render_head(1) [OF assms(1,2)])
  then show ?thesis
    using parse_index [OF assms(1-3)] body_entries [OF ok jp(2)] assms(3) by (auto simp: parse_loop_entries)
qed

section \<open>Names and the oldest entry\<close>

lemma parsed_names_ok: "gidx_parse_line l = Some e \<Longrightarrow> name_ok (ename e)"
  by (auto simp: gidx_parse_line_def split: option.splits list.splits if_splits)

lemma all_entries_ok: "\<forall>e \<in> set (all_entries p). name_ok (ename e)"
proof (induction p rule: text_induct)
  case (none p)
  then show ?case by (simp add: entries_none)
next
  case (bad p l r)
  then show ?case by (simp add: entries_bad [OF bad(1,2)])
next
  case (good p l r e)
  then show ?case using parsed_names_ok [OF good(2)] by (simp add: entries_good [OF good(1,2)])
qed

lemma oldest_loop_min:
  assumes "oldest < i" "i + k = length ms" "\<forall>j < i. ms ! oldest \<le> ms ! j" "\<forall>j < oldest. ms ! oldest < ms ! j"
  shows "oldest_loop ms oldest i k < length ms \<and>
    (\<forall>j < length ms. ms ! oldest_loop ms oldest i k \<le> ms ! j) \<and>
    (\<forall>j < oldest_loop ms oldest i k. ms ! oldest_loop ms oldest i k < ms ! j)"
  using assms
proof (induction k arbitrary: oldest i)
  case 0
  then show ?case by simp
next
  case (Suc k)
  show ?case
  proof (cases "ms ! i < ms ! oldest")
    case True
    have lt: "\<forall>j < i. ms ! i < ms ! j" using Suc.prems(3) True by (meson dual_order.strict_trans1)
    then show ?thesis using Suc.IH [of i "Suc i"] Suc.prems True by (auto simp: less_Suc_eq le_less)
  next
    case False
    then show ?thesis using Suc.IH [of oldest "Suc i"] Suc.prems by (auto simp: less_Suc_eq)
  qed
qed

text \<open>
  The oldest capture is found: for a non-empty list of times the result is an index of it whose time is
  the least, and the first such index.
\<close>

lemma oldest_is_first_minimum:
  assumes "ms \<noteq> []"
  shows "\<exists>i < length ms. gidx_oldest (Some ms) = int i \<and> (\<forall>j < length ms. ms ! i \<le> ms ! j) \<and> (\<forall>j < i. ms ! i < ms ! j)"
  using oldest_loop_min [of 0 1 "length ms - 1" ms] assms
  by (intro exI [of _ "oldest_loop ms 0 1 (length ms - 1)"]) (simp add: gidx_oldest_def)

lemma late_time_unreadable:
  assumes "10 ^ 19 \<le> unat ms" "name_ok n"
  shows "gidx_render_line GIDX_LINE_MAX ms (Some n) = dec (unat ms) @ CHR '' '' # n @ [CHR 0x0A]"
    and "gidx_parse_line (Some (dec (unat ms) @ CHR '' '' # n)) = None"
proof -
  have len: "\<not> length (dec (unat ms)) \<le> 19" using assms(1) length_dec_le [of 19 "unat ms"] by simp
  have "unat ms < 10 ^ 20" using unsigned_less [of ms, where ?'a = nat] by simp
  then have "length (dec (unat ms)) \<le> 20" by (simp add: length_dec_le)
  then show "gidx_render_line GIDX_LINE_MAX ms (Some n) = dec (unat ms) @ CHR '' '' # n @ [CHR 0x0A]"
    using assms(2) name_ok_chars [OF assms(2)] by (simp add: gidx_render_line_def GIDX_LINE_MAX_def)
  have "read_digits 19 d v (ds @ rest) = None"
    if "\<forall>c \<in> set ds. c_digit c" "19 < d + length ds" "d \<le> 19" for d ds rest and v :: u64
    using that by (induction ds arbitrary: d v) auto
  then have "read_digits 19 0 (0 :: u64) (dec (unat ms) @ CHR '' '' # n) = None"
    using dec_digits len by force
  then show "gidx_parse_line (Some (dec (unat ms) @ CHR '' '' # n)) = None"
    by (simp add: gidx_parse_line_def)
qed

lemma index_reads:
  assumes "n \<le> m" "m < 10 ^ 9" "list_all entry_ok es" "int (length es) \<le> mx" "0 < mx"
  shows "gidx_parse (Some (index_text n m es)) mx =
    Some (\<lparr>version = 1, entries = int n, total_seen = int m\<rparr>, es, 0)"
  using parse_index [OF assms(1,2,5), of "body_text es"] body_entries [OF assms(3), of "[]"] assms(4,5)
  by (simp add: index_text_def render_head(1) [OF assms(1,2)] parse_loop_entries)

section \<open>Properties\<close>

text \<open>
  An index written by the renderer reads back as it was: header and entries in order, nothing
  skipped, for every list of storable captures whose times have at most 19 digits.
\<close>

theorem index_reads_back:
  assumes "n \<le> m" "m < 10 ^ 9" "list_all entry_ok es" "int (length es) \<le> mx" "0 < mx"
  shows "gidx_parse (Some (index_text n m es)) mx =
    Some (\<lparr>version = 1, entries = int n, total_seen = int m\<rparr>, es, 0)"
  using assms by (rule index_reads)

definition sample_entry :: gidx_entry where
  "sample_entry = \<lparr>captured_at_ms = 1700000000000, ename = ''a-1''\<rparr>"

lemma sample_entry_ok: "list_all entry_ok [sample_entry]"
  by (simp add: sample_entry_def entry_ok_def) code_simp

theorem index_reads_back_witness:
  "gidx_parse (Some (index_text 1 2 [sample_entry])) 240 =
    Some (\<lparr>version = 1, entries = 1, total_seen = 2\<rparr>, [sample_entry], 0)"
  using index_reads_back [of 1 2 "[sample_entry]" 240] sample_entry_ok by simp



lemma index_names_stay_inside_parts:
  shows "gidx_parse txt mx = Some (hdr, es, skipped) \<Longrightarrow> e \<in> set es \<Longrightarrow>
      name_ok (ename e) \<and> CHR ''/'' \<notin> set (ename e)"
    and "gidx_page txt cursor limit False = Some (hdr, es, valid, skipped) \<Longrightarrow> e \<in> set es \<Longrightarrow>
      name_ok (ename e) \<and> CHR ''/'' \<notin> set (ename e)"
proof -
  have ns: "name_ok n \<Longrightarrow> CHR ''/'' \<notin> set n" for n
    using name_ok_chars [of n] by (auto simp: list_all_iff name_char_def less_eq_char_def)
  assume a: "gidx_parse txt mx = Some (hdr, es, skipped)" "e \<in> set es"
  then obtain p where "es = take (nat mx) (all_entries p)"
    by (auto simp: gidx_parse_def parse_loop_entries split: option.splits prod.splits if_splits)
  then show "name_ok (ename e) \<and> CHR ''/'' \<notin> set (ename e)"
    using a(2) all_entries_ok [of p] ns by (auto dest: in_set_takeD)
next
  have ns: "name_ok n \<Longrightarrow> CHR ''/'' \<notin> set n" for n
    using name_ok_chars [of n] by (auto simp: list_all_iff name_char_def less_eq_char_def)
  assume a: "gidx_page txt cursor limit False = Some (hdr, es, valid, skipped)" "e \<in> set es"
  then obtain p where "set es \<subseteq> set (all_entries p)"
    by (auto simp: gidx_page_def page_loop_window Let_def split: option.splits prod.splits if_splits
        dest!: in_set_takeD in_set_dropD)
  then show "name_ok (ename e) \<and> CHR ''/'' \<notin> set (ename e)"
    using a(2) all_entries_ok [of p] ns by blast
qed

text \<open>
  No file can lead the gallery out of its directory. Whatever the text of the index, every name
  either reader returns is one to 39 letters, digits, dashes, underscores and dots, does not begin with
  a dot, and so holds no path separator.
\<close>

theorem index_names_stay_inside:
  shows "(gidx_parse txt mx = Some (hdr, es, skipped) \<longrightarrow> e \<in> set es \<longrightarrow>
      name_ok (ename e) \<and> CHR ''/'' \<notin> set (ename e)) \<and>
    (gidx_page txt cursor limit False = Some (hdr, es, valid, skipped) \<longrightarrow> e \<in> set es \<longrightarrow>
      name_ok (ename e) \<and> CHR ''/'' \<notin> set (ename e))"
  using index_names_stay_inside_parts by blast

theorem index_names_stay_inside_witness:
  "name_ok (ename sample_entry) \<and> CHR ''/'' \<notin> set (ename sample_entry)"
  using index_names_stay_inside [of "Some (index_text 1 2 [sample_entry])" 1 _ "[sample_entry]" 0 sample_entry]
    index_reads [OF _ _ sample_entry_ok, of 1 2 1] by simp

text \<open>
  A page is a window. The entries \<^verbatim>\<open>gidx_page\<close> copies for a cursor and a positive limit are the
  \<open>limit\<close> entries from position \<open>cursor\<close> on of the list it copies without bounds, and the total it counts
  is the length of that list whatever window was asked for.
\<close>

theorem page_is_a_window:
  assumes "gidx_page txt 0 0 False = Some (hdr, es, valid, skipped)" "0 < limit"
  shows "gidx_page txt cursor limit False = Some (hdr, take (nat limit) (drop (nat cursor) es), length es, skipped)"
proof -
  obtain t line p where t: "txt = Some t" "take_line GIDX_LINE_MAX t = Some (line, p)"
      "gidx_parse_header (Some line) = Some hdr" "es = all_entries p" "skipped = bad_lines p"
    using assms(1) by (auto simp: gidx_page_def page_loop_window split: option.splits prod.splits)
  then show ?thesis using assms(2) by (simp add: gidx_page_def page_loop_window)
qed

lemma index_page_all:
  assumes "n \<le> m" "m < 10 ^ 9" "list_all entry_ok es"
  shows "gidx_page (Some (index_text n m es)) 0 0 False =
    Some (\<lparr>version = 1, entries = int n, total_seen = int m\<rparr>, es, length es, 0)"
  using body_entries [OF assms(3), of "[]"] take_line_head [OF assms(1,2)] parse_head [OF assms(1,2)]
  by (simp add: gidx_page_def index_text_def render_head(1) [OF assms(1,2)] page_loop_window)

theorem page_is_a_window_witness:
  "gidx_page (Some (index_text 1 2 [sample_entry])) 1 20 False =
    Some (\<lparr>version = 1, entries = 1, total_seen = 2\<rparr>, [], 1, 0)"
  using page_is_a_window [OF index_page_all [OF _ _ sample_entry_ok, of 1 2], of 20 1] by simp

end
