(* ===== verification/Radio_Recovery.thy ===== *)
theory Radio_Recovery
  imports Kino_Decimal
begin

text \<open>
  The recovery of the radio coprocessor, \<^verbatim>\<open>firmware/p4/main/radio_recovery.c\<close>: the state machine that decides what the
  body does when the C6 goes away under a live link, and the round of \<^verbatim>\<open>net_hosted.c\<close>'s supervisor that drives
  it. The properties: every recovery ends, dependents are woken at most once for each loss, Wi-Fi is
  only started on a coprocessor whose version was just verified, and a stale observation does nothing.

  Times are milliseconds as \<^typ>\<open>int\<close>.
\<close>

section \<open>The code\<close>

datatype rr_state =
  RR_HEALTHY | RR_TEARDOWN | RR_RESET_C6 | RR_HOSTED_UP | RR_SDIO_WAIT | RR_HANDSHAKE_WAIT
  | RR_VERSION_GATE | RR_WIFI_INIT | RR_WIFI_JOIN | RR_DHCP_WAIT | RR_BACKOFF | RR_PARKED

datatype rr_action =
  RR_ACT_NONE | RR_ACT_TEARDOWN | RR_ACT_RESET_C6 | RR_ACT_HOSTED_UP | RR_ACT_VERSION_RPC
  | RR_ACT_WIFI_INIT | RR_ACT_WIFI_JOIN | RR_ACT_RECOVERED

text \<open>\<^verbatim>\<open>rr_version_t\<close> travels as the \<^verbatim>\<open>int\<close> result of the version action.\<close>

definition RR_VER_UNKNOWN :: int where "RR_VER_UNKNOWN = 0"
definition RR_VER_OK :: int where "RR_VER_OK = 1"
definition RR_VER_NO_RESPONSE :: int where "RR_VER_NO_RESPONSE = 2"
definition RR_VER_INCOMPATIBLE :: int where "RR_VER_INCOMPATIBLE = 3"

record rr_obs =
  rx_ready :: bool
  tx_ready :: bool
  associated :: bool
  has_ip :: bool
  auth_failed :: bool

definition RR_MAX_ATTEMPTS :: u32 where "RR_MAX_ATTEMPTS = 6"
definition RR_SDIO_TIMEOUT_MS :: int where "RR_SDIO_TIMEOUT_MS = 5000"
definition RR_HANDSHAKE_TIMEOUT_MS :: int where "RR_HANDSHAKE_TIMEOUT_MS = 3000"
definition RR_ASSOC_TIMEOUT_MS :: int where "RR_ASSOC_TIMEOUT_MS = 20000"
definition RR_DHCP_TIMEOUT_MS :: int where "RR_DHCP_TIMEOUT_MS = 15000"
definition RR_BACKOFF_BASE_MS :: u32 where "RR_BACKOFF_BASE_MS = 2000"
definition RR_BACKOFF_CAP_MS :: u32 where "RR_BACKOFF_CAP_MS = 60000"
definition RR_DETAIL_LEN :: nat where "RR_DETAIL_LEN = 80"

record rr =
  state :: rr_state
  generation :: u32
  attempts :: u32
  recoveries :: u32
  action_pending :: bool
  deadline_ms :: int
  t_lost :: int
  t_release :: int
  t_rx :: int
  t_tx :: int
  t_version :: int
  t_assoc :: int
  t_ip :: int
  detail :: string

definition set_detail :: "string \<Rightarrow> rr \<Rightarrow> rr" where
  "set_detail why r = r\<lparr>detail := take (RR_DETAIL_LEN - 1) why\<rparr>"

definition clear_timing :: "rr \<Rightarrow> rr" where
  "clear_timing r = r\<lparr>t_release := 0, t_rx := 0, t_tx := 0, t_version := 0, t_assoc := 0, t_ip := 0\<rparr>"

definition enter :: "rr_state \<Rightarrow> int \<Rightarrow> rr \<Rightarrow> rr" where
  "enter s deadline r = r\<lparr>state := s, deadline_ms := deadline, action_pending := False\<rparr>"

definition rr_backoff_ms :: "u32 \<Rightarrow> u32" where
  "rr_backoff_ms n =
    (if n = 0 then 0
     else let shift = n - 1 in
          if shift \<ge> 16 then RR_BACKOFF_CAP_MS
          else let ms = push_bit (unat shift) RR_BACKOFF_BASE_MS in
               if ms > RR_BACKOFF_CAP_MS then RR_BACKOFF_CAP_MS else ms)"

definition fail :: "string \<Rightarrow> int \<Rightarrow> rr \<Rightarrow> rr" where
  "fail why now_ms r0 =
    (let r = r0\<lparr>attempts := attempts r0 + 1\<rparr> in
     if attempts r \<ge> RR_MAX_ATTEMPTS
     then enter RR_PARKED 0
            (set_detail (take (RR_DETAIL_LEN - 1)
               (''parked after '' @ dec (unat (attempts r)) @ '' attempts: '' @ take 40 why)) r)
     else enter RR_BACKOFF (now_ms + int (unat (rr_backoff_ms (attempts r)))) (set_detail why r))"

definition park :: "string \<Rightarrow> rr \<Rightarrow> rr" where
  "park why r = enter RR_PARKED 0 (set_detail why r)"

definition issue :: "rr_action \<Rightarrow> rr \<Rightarrow> rr \<times> rr_action" where
  "issue a r = (if action_pending r then (r, RR_ACT_NONE) else (r\<lparr>action_pending := True\<rparr>, a))"

definition recovered :: "int \<Rightarrow> rr \<Rightarrow> rr \<times> rr_action" where
  "recovered now_ms r =
    (enter RR_HEALTHY 0 (set_detail ''recovered''
       (r\<lparr>t_ip := now_ms, recoveries := recoveries r + 1, attempts := 0\<rparr>)), RR_ACT_RECOVERED)"

definition rr_init :: rr where
  "rr_init = \<lparr>state = RR_HEALTHY, generation = 0, attempts = 0, recoveries = 0, action_pending = False,
     deadline_ms = 0, t_lost = 0, t_release = 0, t_rx = 0, t_tx = 0, t_version = 0, t_assoc = 0, t_ip = 0,
     detail = []\<rparr>"

definition rr_active :: "rr \<Rightarrow> bool" where
  "rr_active r \<longleftrightarrow> state r \<noteq> RR_HEALTHY \<and> state r \<noteq> RR_PARKED"

definition rr_link_lost :: "int \<Rightarrow> rr \<Rightarrow> rr" where
  "rr_link_lost now_ms r =
    (if rr_active r then r
     else enter RR_TEARDOWN 0 (set_detail ''link lost; recovering''
            (clear_timing (r\<lparr>generation := generation r + 1, attempts := 0, t_lost := now_ms\<rparr>))))"

definition rr_step :: "rr_obs \<Rightarrow> u32 \<Rightarrow> int \<Rightarrow> rr \<Rightarrow> rr \<times> rr_action" where
  "rr_step obs obs_generation now_ms r =
    (if obs_generation \<noteq> generation r then (r, RR_ACT_NONE)
     else case state r of
       RR_HEALTHY \<Rightarrow> (r, RR_ACT_NONE)
     | RR_PARKED \<Rightarrow> (r, RR_ACT_NONE)
     | RR_TEARDOWN \<Rightarrow> issue RR_ACT_TEARDOWN r
     | RR_RESET_C6 \<Rightarrow> issue RR_ACT_RESET_C6 r
     | RR_HOSTED_UP \<Rightarrow> issue RR_ACT_HOSTED_UP r
     | RR_SDIO_WAIT \<Rightarrow>
         if rx_ready obs
         then (let r1 = r\<lparr>t_rx := now_ms\<rparr> in
               if tx_ready obs
               then issue RR_ACT_VERSION_RPC (enter RR_VERSION_GATE 0 (r1\<lparr>t_tx := now_ms\<rparr>))
               else (enter RR_HANDSHAKE_WAIT (now_ms + RR_HANDSHAKE_TIMEOUT_MS) r1, RR_ACT_NONE))
         else if now_ms \<ge> deadline_ms r
         then (fail ''SDIO did not enumerate after the reset'' now_ms r, RR_ACT_NONE)
         else (r, RR_ACT_NONE)
     | RR_HANDSHAKE_WAIT \<Rightarrow>
         if \<not> rx_ready obs then (fail ''SDIO rx dropped before the handshake'' now_ms r, RR_ACT_NONE)
         else if tx_ready obs
         then issue RR_ACT_VERSION_RPC (enter RR_VERSION_GATE 0 (r\<lparr>t_tx := now_ms\<rparr>))
         else if now_ms \<ge> deadline_ms r
         then (fail ''transport rx only; tx never became ready'' now_ms r, RR_ACT_NONE)
         else (r, RR_ACT_NONE)
     | RR_VERSION_GATE \<Rightarrow> issue RR_ACT_VERSION_RPC r
     | RR_WIFI_INIT \<Rightarrow> issue RR_ACT_WIFI_INIT r
     | RR_WIFI_JOIN \<Rightarrow>
         if \<not> action_pending r then issue RR_ACT_WIFI_JOIN r
         else if has_ip obs
         then recovered now_ms (if t_assoc r = 0 then r\<lparr>t_assoc := now_ms\<rparr> else r)
         else if auth_failed obs
         then (park ''wifi auth failed after recovery; not retrying until asked'' r, RR_ACT_NONE)
         else if associated obs
         then (enter RR_DHCP_WAIT (now_ms + RR_DHCP_TIMEOUT_MS) (r\<lparr>t_assoc := now_ms\<rparr>), RR_ACT_NONE)
         else if now_ms \<ge> deadline_ms r
         then (fail ''no association after the reset'' now_ms r, RR_ACT_NONE)
         else (r, RR_ACT_NONE)
     | RR_DHCP_WAIT \<Rightarrow>
         if has_ip obs then recovered now_ms r
         else if \<not> associated obs
         then (fail ''association dropped before an address'' now_ms r, RR_ACT_NONE)
         else if now_ms \<ge> deadline_ms r
         then (fail ''no DHCP lease after the reset'' now_ms r, RR_ACT_NONE)
         else (r, RR_ACT_NONE)
     | RR_BACKOFF \<Rightarrow>
         if now_ms \<ge> deadline_ms r
         then (enter RR_TEARDOWN 0 (set_detail ''retrying recovery''
                 (clear_timing (r\<lparr>generation := generation r + 1\<rparr>))), RR_ACT_NONE)
         else (r, RR_ACT_NONE))"

definition rr_action_done :: "rr_action \<Rightarrow> int \<Rightarrow> int \<Rightarrow> rr \<Rightarrow> rr" where
  "rr_action_done action rc now_ms r =
    (if \<not> action_pending r then r
     else case state r of
       RR_TEARDOWN \<Rightarrow>
         if action \<noteq> RR_ACT_TEARDOWN then r
         else if rc = 0 then enter RR_RESET_C6 0 r else fail ''host-side teardown failed'' now_ms r
     | RR_RESET_C6 \<Rightarrow>
         if action \<noteq> RR_ACT_RESET_C6 then r
         else (let r1 = r\<lparr>t_release := now_ms\<rparr> in
               if rc = 0 then enter RR_HOSTED_UP 0 r1 else fail ''could not pulse the C6 enable line'' now_ms r1)
     | RR_HOSTED_UP \<Rightarrow>
         if action \<noteq> RR_ACT_HOSTED_UP then r
         else if rc = 0 then enter RR_SDIO_WAIT (now_ms + RR_SDIO_TIMEOUT_MS) r
         else fail ''ESP-Hosted would not initialise'' now_ms r
     | RR_VERSION_GATE \<Rightarrow>
         if action \<noteq> RR_ACT_VERSION_RPC then r
         else if rc = RR_VER_OK then enter RR_WIFI_INIT 0 (r\<lparr>t_version := now_ms\<rparr>)
         else if rc = RR_VER_INCOMPATIBLE
         then park ''C6 image incompatible with this host; reflash the C6'' r
         else fail ''the C6 did not answer the version RPC'' now_ms r
     | RR_WIFI_INIT \<Rightarrow>
         if action \<noteq> RR_ACT_WIFI_INIT then r
         else if rc = 0 then enter RR_WIFI_JOIN 0 r
         else fail ''the Wi-Fi stack would not initialise on the C6'' now_ms r
     | RR_WIFI_JOIN \<Rightarrow>
         if action \<noteq> RR_ACT_WIFI_JOIN then r
         else if rc = 0 then r\<lparr>deadline_ms := now_ms + RR_ASSOC_TIMEOUT_MS\<rparr>
         else enter RR_HEALTHY 0
                ((set_detail ''transport recovered; no saved network to join'' r)\<lparr>attempts := 0\<rparr>)
     | _ \<Rightarrow> r)"

fun rr_state_name :: "rr_state \<Rightarrow> string" where
  "rr_state_name RR_HEALTHY = ''HEALTHY''"
| "rr_state_name RR_TEARDOWN = ''TEARDOWN''"
| "rr_state_name RR_RESET_C6 = ''RESET_C6''"
| "rr_state_name RR_HOSTED_UP = ''HOSTED_UP''"
| "rr_state_name RR_SDIO_WAIT = ''SDIO_WAIT''"
| "rr_state_name RR_HANDSHAKE_WAIT = ''HANDSHAKE_WAIT''"
| "rr_state_name RR_VERSION_GATE = ''VERSION_GATE''"
| "rr_state_name RR_WIFI_INIT = ''WIFI_INIT''"
| "rr_state_name RR_WIFI_JOIN = ''WIFI_JOIN''"
| "rr_state_name RR_DHCP_WAIT = ''DHCP_WAIT''"
| "rr_state_name RR_BACKOFF = ''BACKOFF''"
| "rr_state_name RR_PARKED = ''PARKED''"

fun rr_action_name :: "rr_action \<Rightarrow> string" where
  "rr_action_name RR_ACT_NONE = ''none''"
| "rr_action_name RR_ACT_TEARDOWN = ''teardown''"
| "rr_action_name RR_ACT_RESET_C6 = ''reset-c6''"
| "rr_action_name RR_ACT_HOSTED_UP = ''hosted-up''"
| "rr_action_name RR_ACT_VERSION_RPC = ''version-rpc''"
| "rr_action_name RR_ACT_WIFI_INIT = ''wifi-init''"
| "rr_action_name RR_ACT_WIFI_JOIN = ''wifi-join''"
| "rr_action_name RR_ACT_RECOVERED = ''recovered''"

section \<open>The supervisor's round\<close>

text \<open>
  One turn of the supervisor while a recovery runs: a step on a fresh observation, and the action it
  returns carried out and reported before the next. \<open>rc\<close> is how the action went, \<open>done_ms\<close> when.
\<close>

type_synonym rr_round_in = "rr_obs \<times> int \<times> int \<times> int"

fun rr_round :: "rr \<Rightarrow> rr_round_in \<Rightarrow> rr" where
  "rr_round r (obs, now_ms, rc, done_ms) =
    (let (r1, act) = rr_step obs (generation r) now_ms r in
     if act = RR_ACT_NONE \<or> act = RR_ACT_RECOVERED then r1 else rr_action_done act rc done_ms r1)"

fun rr_round_action :: "rr \<Rightarrow> rr_round_in \<Rightarrow> rr_action" where
  "rr_round_action r (obs, now_ms, rc, done_ms) = snd (rr_step obs (generation r) now_ms r)"

section \<open>Every recovery ends\<close>

definition rr_waiting :: "rr \<Rightarrow> bool" where
  "rr_waiting r \<longleftrightarrow> state r \<in> {RR_SDIO_WAIT, RR_HANDSHAKE_WAIT, RR_WIFI_JOIN, RR_DHCP_WAIT, RR_BACKOFF}
     \<and> (state r = RR_WIFI_JOIN \<longrightarrow> action_pending r)"

text \<open>A round is due when the state is not a wait, or the wait's deadline has come.\<close>

fun rr_due :: "rr \<Rightarrow> rr_round_in \<Rightarrow> bool" where
  "rr_due r (obs, now_ms, rc, done_ms) \<longleftrightarrow> rr_waiting r \<longrightarrow> deadline_ms r \<le> now_ms"

definition rr_ok :: "rr \<Rightarrow> bool" where
  "rr_ok r \<longleftrightarrow> (rr_active r \<longrightarrow> unat (attempts r) < 6) \<and> (action_pending r \<longrightarrow> state r = RR_WIFI_JOIN)"

fun rr_phase :: "rr_state \<Rightarrow> nat" where
  "rr_phase RR_BACKOFF = 12"
| "rr_phase RR_TEARDOWN = 11"
| "rr_phase RR_RESET_C6 = 10"
| "rr_phase RR_HOSTED_UP = 9"
| "rr_phase RR_SDIO_WAIT = 8"
| "rr_phase RR_HANDSHAKE_WAIT = 7"
| "rr_phase RR_VERSION_GATE = 6"
| "rr_phase RR_WIFI_INIT = 5"
| "rr_phase RR_WIFI_JOIN = 4"
| "rr_phase RR_DHCP_WAIT = 2"
| "rr_phase RR_HEALTHY = 0"
| "rr_phase RR_PARKED = 0"

definition rr_rank :: "rr \<Rightarrow> nat" where
  "rr_rank r =
    (if rr_active r
     then (6 - unat (attempts r)) * 13 + rr_phase (state r) - (if state r = RR_WIFI_JOIN \<and> action_pending r then 1 else 0)
     else 0)"

definition rr_settled :: "rr \<Rightarrow> bool" where
  "rr_settled r \<longleftrightarrow> \<not> rr_active r"

lemma unat_suc_small: "unat (a :: u32) < 6 \<Longrightarrow> unat (a + 1) = unat a + 1"
  by (simp add: unat_word_ariths)

lemma max_attempts_nat: "RR_MAX_ATTEMPTS \<le> a \<longleftrightarrow> 6 \<le> unat a"
  by (simp add: RR_MAX_ATTEMPTS_def word_le_nat_alt)

lemmas rr_fields = enter_def set_detail_def clear_timing_def park_def recovered_def issue_def

lemma fail_ok: "unat (attempts r) < 6 \<Longrightarrow> rr_ok (fail why now r)"
  by (auto simp: fail_def rr_ok_def rr_active_def rr_fields Let_def max_attempts_nat unat_suc_small)

lemma fail_rank:
  assumes "unat (attempts r) < 6"
  shows "rr_rank (fail why now r) < (6 - unat (attempts r)) * 13"
proof (cases "6 \<le> unat (attempts r + 1)")
  case True
  then show ?thesis using assms
    by (simp add: fail_def rr_rank_def rr_active_def rr_fields Let_def max_attempts_nat)
next
  case False
  then have "rr_rank (fail why now r) = (6 - (unat (attempts r) + 1)) * 13 + 12"
    using assms by (simp add: fail_def rr_rank_def rr_active_def rr_fields Let_def max_attempts_nat unat_suc_small)
  moreover have "6 - unat (attempts r) = Suc (6 - (unat (attempts r) + 1))" using assms by simp
  ultimately show ?thesis by simp
qed

lemma fail_below:
  assumes "rr_ok r" "rr_active r" "attempts r' = attempts r"
  shows "rr_ok (fail why now r') \<and> rr_rank (fail why now r') < rr_rank r"
proof -
  have a: "unat (attempts r') < 6" using assms by (simp add: rr_ok_def)
  have "2 \<le> rr_phase (state r)" using assms(2) by (cases "state r") (auto simp: rr_active_def)
  then have "(6 - unat (attempts r)) * 13 \<le> rr_rank r" using assms(2) by (auto simp: rr_rank_def)
  then show ?thesis using fail_ok [OF a] fail_rank [OF a, of why now] assms(3) by simp
qed

lemma quiet_below:
  assumes "rr_active r" "\<not> rr_active r'" "\<not> action_pending r'"
  shows "rr_ok r' \<and> rr_rank r' < rr_rank r"
proof -
  have "2 \<le> rr_phase (state r)" using assms(1) by (cases "state r") (auto simp: rr_active_def)
  then show ?thesis using assms by (auto simp: rr_ok_def rr_rank_def)
qed

lemma onward_below:
  assumes "rr_ok r" "rr_active r" "rr_active r'" "attempts r' = attempts r"
    "rr_phase (state r') < rr_phase (state r) - (if action_pending r then 1 else 0)" "\<not> action_pending r'"
  shows "rr_ok r' \<and> rr_rank r' < rr_rank r"
  using assms by (auto simp: rr_ok_def rr_rank_def)

lemma round_progress:
  assumes ok: "rr_ok r" and act: "rr_active r"
  shows "rr_round r e = r \<and> \<not> rr_due r e \<or> rr_ok (rr_round r e) \<and> rr_rank (rr_round r e) < rr_rank r"
proof -
  obtain obs now rc fin where e: "e = (obs, now, rc, fin)" by (metis prod_cases4)
  note fails = fail_below [OF ok act] and quiet = quiet_below [OF act] and onward = onward_below [OF ok act]
  have p: "state r = RR_WIFI_JOIN \<or> \<not> action_pending r" using ok by (auto simp: rr_ok_def)
  show ?thesis
  proof (cases "state r")
    case RR_TEARDOWN
    with p show ?thesis
      by (cases "rc = 0") (simp_all add: e rr_step_def issue_def rr_action_done_def fails onward enter_def rr_active_def)
  next
    case RR_RESET_C6
    with p show ?thesis
      by (cases "rc = 0") (simp_all add: e rr_step_def issue_def rr_action_done_def fails onward enter_def rr_active_def Let_def)
  next
    case RR_HOSTED_UP
    with p show ?thesis
      by (cases "rc = 0") (simp_all add: e rr_step_def issue_def rr_action_done_def fails onward enter_def rr_active_def)
  next
    case RR_SDIO_WAIT
    with p show ?thesis
      by (simp add: e rr_step_def issue_def rr_action_done_def fails onward quiet enter_def park_def set_detail_def
          rr_active_def Let_def rr_waiting_def)
  next
    case RR_HANDSHAKE_WAIT
    with p show ?thesis
      by (simp add: e rr_step_def issue_def rr_action_done_def fails onward quiet enter_def park_def set_detail_def
          rr_active_def Let_def rr_waiting_def)
  next
    case RR_VERSION_GATE
    with p show ?thesis
      by (simp add: e rr_step_def issue_def rr_action_done_def fails onward quiet enter_def park_def set_detail_def
          rr_active_def)
  next
    case RR_WIFI_INIT
    with p show ?thesis
      by (cases "rc = 0") (simp_all add: e rr_step_def issue_def rr_action_done_def fails onward enter_def rr_active_def)
  next
    case RR_WIFI_JOIN
    show ?thesis
    proof (cases "action_pending r")
      case True
      with RR_WIFI_JOIN show ?thesis
        by (simp add: e rr_step_def recovered_def fails onward quiet enter_def park_def set_detail_def
            rr_active_def rr_waiting_def)
    next
      case False
      with RR_WIFI_JOIN ok show ?thesis
        by (cases "rc = 0") (simp_all add: e rr_step_def issue_def rr_action_done_def quiet enter_def set_detail_def
            rr_active_def rr_ok_def rr_rank_def)
    qed
  next
    case RR_DHCP_WAIT
    with p show ?thesis
      by (simp add: e rr_step_def recovered_def fails quiet enter_def set_detail_def rr_active_def rr_waiting_def)
  next
    case RR_BACKOFF
    with p show ?thesis
      by (simp add: e rr_step_def onward enter_def set_detail_def clear_timing_def rr_active_def rr_waiting_def)
  qed (use act in \<open>simp_all add: rr_active_def\<close>)
qed

lemma round_settled:
  assumes "rr_settled r"
  shows "rr_round r e = r"
proof -
  obtain obs now rc fin where e: "e = (obs, now, rc, fin)" by (metis prod_cases4)
  have "state r = RR_HEALTHY \<or> state r = RR_PARKED" using assms by (simp add: rr_settled_def rr_active_def)
  then show ?thesis by (elim disjE) (simp_all add: e rr_step_def)
qed

interpretation radio: stuttering_machine rr_round rr_settled rr_ok rr_due rr_rank
proof
  fix r e
  assume ok: "rr_ok r"
  show "rr_ok (rr_round r e)" "rr_rank (rr_round r e) \<le> rr_rank r"
    using round_progress [OF ok, of e] round_settled [of r e] ok
    by (cases "rr_active r"; auto simp: rr_settled_def)+
  show "rr_rank (rr_round r e) < rr_rank r" if "rr_due r e" "\<not> rr_settled r"
    using round_progress [OF ok, of e] that by (simp add: rr_settled_def)
  show "rr_settled (rr_round r e)" if "rr_settled r" using that round_settled [OF that] by simp
  show "rr_settled r" if "rr_rank r = 0"
  proof (rule ccontr)
    assume n: "\<not> rr_settled r"
    then have "2 \<le> rr_phase (state r)" by (cases "state r") (auto simp: rr_active_def rr_settled_def)
    then show False using that n by (auto simp: rr_rank_def rr_settled_def split: if_splits)
  qed
qed

lemma lost_starts:
  assumes "\<not> rr_active r"
  shows "rr_ok (rr_link_lost now r)" "rr_rank (rr_link_lost now r) = 89"
  using assms by (simp_all add: rr_link_lost_def rr_ok_def rr_rank_def rr_fields) (simp_all add: rr_active_def)

lemma backoff_bound: "unat (rr_backoff_ms n) \<le> 60000"
  by (auto simp: rr_backoff_ms_def Let_def RR_BACKOFF_CAP_MS_def word_le_nat_alt not_less)

text \<open>No deadline lies further than a minute ahead: every wait is bounded.\<close>

lemma round_deadline:
  assumes "now \<le> fin"
  shows "rr_round r (obs, now, rc, fin) = r \<or> deadline_ms (rr_round r (obs, now, rc, fin)) \<le> max 0 (fin + 60000)"
proof -
  have f: "deadline_ms (fail w m x) \<le> max 0 (m + 60000)" for w m x
  proof -
    have "int (unat (rr_backoff_ms (attempts x + 1))) \<le> 60000" using backoff_bound [of "attempts x + 1"] by linarith
    then show ?thesis by (simp add: fail_def rr_fields Let_def le_max_iff_disj)
  qed
  have f': "deadline_ms (fail w now x) \<le> max 0 (fin + 60000)" for w x
    using f [of w now x] assms by (simp add: max_def split: if_splits)
  have b: "now \<le> fin + 60000 - d" if "d \<le> 60000" for d :: int using assms that by simp
  show ?thesis
    using f [of _ fin] f' b [of 3000] b [of 15000]
    by (cases "state r")
      (auto simp: rr_step_def rr_action_done_def rr_fields Let_def RR_SDIO_TIMEOUT_MS_def RR_HANDSHAKE_TIMEOUT_MS_def
        RR_ASSOC_TIMEOUT_MS_def RR_DHCP_TIMEOUT_MS_def)
qed

section \<open>Losses and wake-ups\<close>

text \<open>A history of the machine: the supervisor's rounds and the losses it reports.\<close>

datatype rr_event = Lost int | Round rr_round_in

fun rr_apply :: "rr \<Rightarrow> rr_event \<Rightarrow> rr" where
  "rr_apply r (Lost now) = rr_link_lost now r"
| "rr_apply r (Round i) = rr_round r i"

fun wakeups :: "rr \<Rightarrow> rr_event list \<Rightarrow> nat" where
  "wakeups r [] = 0"
| "wakeups r (e # es) =
    (case e of Round i \<Rightarrow> if rr_round_action r i = RR_ACT_RECOVERED then 1 else 0 | Lost _ \<Rightarrow> 0) + wakeups (rr_apply r e) es"

fun losses :: "rr_event list \<Rightarrow> nat" where
  "losses [] = 0"
| "losses (Lost _ # es) = Suc (losses es)"
| "losses (Round _ # es) = losses es"

lemma recovered_round:
  assumes "rr_round_action r i = RR_ACT_RECOVERED"
  shows "rr_active r \<and> \<not> rr_active (rr_round r i)"
  using assms by (cases i; cases "state r")
    (auto simp: rr_step_def rr_active_def rr_fields Let_def split: if_splits)

lemma round_stays_inactive: "\<not> rr_active r \<Longrightarrow> \<not> rr_active (rr_round r i)"
  using round_settled [of r i] by (simp add: rr_settled_def)

lemma wakeups_bound: "wakeups r es \<le> losses es + (if rr_active r then 1 else 0)"
proof (induction es arbitrary: r)
  case (Cons e es)
  show ?case
  proof (cases e)
    case (Lost now)
    then show ?thesis using Cons [of "rr_link_lost now r"] by (auto split: if_splits)
  next
    case (Round i)
    then show ?thesis
      using Cons [of "rr_round r i"] recovered_round [of r i] round_stays_inactive [of r i]
      by (auto split: if_splits)
  qed
qed simp

section \<open>The version gate\<close>

text \<open>
  Every call the interface allows, with any observation, generation, result and time, beside the fact
  whether the coprocessor's version was found compatible since the last loss or retry.
\<close>

inductive rr_gated :: "rr \<Rightarrow> bool \<Rightarrow> bool" where
  start: "rr_gated rr_init False"
| lost: "rr_gated r v \<Longrightarrow> rr_gated (rr_link_lost now r) (v \<and> rr_active r)"
| step: "rr_gated r v \<Longrightarrow> rr_step obs g now r = (r', a) \<Longrightarrow> rr_gated r' (v \<and> generation r' = generation r)"
| finish: "rr_gated r v \<Longrightarrow> rr_gated (rr_action_done a rc now r)
    (v \<or> action_pending r \<and> state r = RR_VERSION_GATE \<and> a = RR_ACT_VERSION_RPC \<and> rc = RR_VER_OK)"

definition past_gate :: "rr_state set" where
  "past_gate = {RR_WIFI_INIT, RR_WIFI_JOIN, RR_DHCP_WAIT}"

lemma fail_not_past: "state (fail why now r) \<notin> past_gate"
  by (simp add: fail_def rr_fields past_gate_def Let_def)

lemma step_past_gate:
  "rr_step obs g now r = (r', a) \<Longrightarrow> state r' \<in> past_gate \<Longrightarrow> state r \<in> past_gate \<and> generation r' = generation r"
  using fail_not_past
  by (cases "state r") (auto simp: rr_step_def rr_fields Let_def past_gate_def split: if_splits)

lemma done_past_gate:
  "state (rr_action_done a rc now r) \<in> past_gate \<Longrightarrow>
    state r \<in> past_gate \<or> action_pending r \<and> state r = RR_VERSION_GATE \<and> a = RR_ACT_VERSION_RPC \<and> rc = RR_VER_OK"
  using fail_not_past
  by (cases "state r") (auto simp: rr_action_done_def rr_fields Let_def past_gate_def split: if_splits)

lemma gated_inv: "rr_gated r v \<Longrightarrow> state r \<in> past_gate \<Longrightarrow> v"
proof (induction rule: rr_gated.induct)
  case start
  then show ?case by (simp add: rr_init_def past_gate_def)
next
  case (lost r v now)
  then show ?case by (auto simp: rr_link_lost_def rr_fields past_gate_def split: if_splits)
next
  case (step r v obs g now r' a)
  then show ?case using step_past_gate by blast
next
  case (finish r v a rc now)
  then show ?case using done_past_gate by blast
qed

section \<open>Properties\<close>

text \<open>
  C15: Every recovery ends. From the moment a loss is reported, whatever the coprocessor does, whatever the
  actions return and whenever the rounds happen, after 89 rounds in which something was due, that is
  with no wait running or its deadline reached, the machine is healthy or parked, and it stays so in
  every further round.
\<close>

theorem recovery_always_ends:
  assumes "\<not> rr_active r" "89 \<le> dues rr_round rr_due (rr_link_lost now r) rounds"
  shows "state (foldl rr_round (rr_link_lost now r) rounds) \<in> {RR_HEALTHY, RR_PARKED}"
  using radio.settles_when_due [OF lost_starts(1) [OF assms(1)], of now rounds] lost_starts(2) [OF assms(1), of now] assms(2)
  by (auto simp: rr_settled_def rr_active_def)

definition no_signs :: rr_obs where
  "no_signs = \<lparr>rx_ready = False, tx_ready = False, associated = False, has_ip = False, auth_failed = False\<rparr>"

fun minute_rounds :: "int \<Rightarrow> nat \<Rightarrow> rr_round_in list" where
  "minute_rounds t 0 = []"
| "minute_rounds t (Suc n) = (no_signs, t, -1, t) # minute_rounds (t + 60000) n"

lemma minute_rounds_due: "0 \<le> t \<Longrightarrow> deadline_ms r \<le> t \<Longrightarrow> dues rr_round rr_due r (minute_rounds t n) = n"
proof (induction n arbitrary: t r)
  case (Suc n)
  have "deadline_ms (rr_round r (no_signs, t, -1, t)) \<le> t + 60000"
    using round_deadline [of t t r no_signs "-1"] Suc.prems by auto
  then show ?case using Suc.IH [of "t + 60000"] Suc.prems by simp
qed simp

theorem recovery_always_ends_witness:
  "state (foldl rr_round (rr_link_lost 5 rr_init) (minute_rounds 0 89)) \<in> {RR_HEALTHY, RR_PARKED}"
proof -
  have i: "\<not> rr_active rr_init" by (simp add: rr_active_def rr_init_def)
  have "deadline_ms (rr_link_lost 5 rr_init) = 0" by (simp add: rr_link_lost_def i rr_fields)
  then have "dues rr_round rr_due (rr_link_lost 5 rr_init) (minute_rounds 0 89) = 89"
    by (intro minute_rounds_due) simp_all
  then show ?thesis using recovery_always_ends [OF i, of 5 "minute_rounds 0 89"] by simp
qed

text \<open>
  Dependents are woken at most once for each loss. Over any history of rounds and reported losses,
  \<^const>\<open>RR_ACT_RECOVERED\<close> is returned at most as often as the link was reported lost, plus once for a recovery
  that was running at the start.
\<close>

theorem one_wakeup_per_loss:
  "wakeups r es \<le> losses es + (if rr_active r then 1 else 0)"
  by (rule wakeups_bound)

text \<open>
  C16: Wi-Fi is never started on an unverified coprocessor. Under every sequence of calls of the
  interface, also with stale generations, wrong actions and arbitrary results, a Wi-Fi action is only
  ever returned when the version was found compatible since the last loss and since the last retry.
\<close>

theorem wifi_needs_the_version_gate:
  assumes "rr_gated r verified" "rr_step obs g now r = (r', a)" "a \<in> {RR_ACT_WIFI_INIT, RR_ACT_WIFI_JOIN, RR_ACT_RECOVERED}"
  shows verified
proof -
  have "state r \<in> past_gate"
    using assms(2,3) by (cases "state r") (auto simp: rr_step_def rr_fields Let_def past_gate_def split: if_splits)
  then show ?thesis by (rule gated_inv [OF assms(1)])
qed

definition all_signs :: rr_obs where
  "all_signs = \<lparr>rx_ready = True, tx_ready = True, associated = True, has_ip = True, auth_failed = False\<rparr>"

definition gate_ready :: rr where
  "gate_ready = foldl rr_round (rr_link_lost 1 rr_init)
     [(all_signs, 2, 0, 3), (all_signs, 4, 0, 5), (all_signs, 6, 0, 7), (all_signs, 8, 1, 9)]"

lemma gated_round: "rr_gated r v \<Longrightarrow> \<exists>v'. rr_gated (rr_round r e) v'"
proof -
  assume g: "rr_gated r v"
  obtain obs now rc fin where e: "e = (obs, now, rc, fin)" by (metis prod_cases4)
  obtain r1 a where s: "rr_step obs (generation r) now r = (r1, a)" by fastforce
  have "\<exists>v'. rr_gated r1 v'" "\<exists>v'. rr_gated (rr_action_done a rc fin r1) v'"
    using rr_gated.step [OF g s] rr_gated.finish [OF rr_gated.step [OF g s]] by blast+
  then show ?thesis by (simp add: e s)
qed

lemma gated_rounds: "rr_gated r v \<Longrightarrow> \<exists>v'. rr_gated (foldl rr_round r es) v'"
proof (induction es arbitrary: r v)
  case (Cons e es)
  obtain v' where "rr_gated (rr_round r e) v'" using gated_round [OF Cons.prems] by blast
  then show ?case using Cons.IH by simp
qed auto

theorem wifi_needs_the_version_gate_witness: "rr_gated gate_ready True"
proof -
  obtain v where v: "rr_gated gate_ready v"
    using gated_rounds [OF rr_gated.lost [OF rr_gated.start]] unfolding gate_ready_def by blast
  have "snd (rr_step all_signs (generation gate_ready) 10 gate_ready) = RR_ACT_WIFI_INIT"
    by code_simp
  then have v using wifi_needs_the_version_gate [OF v, of all_signs "generation gate_ready" 10]
    by (metis insertI1 prod.collapse)
  then show ?thesis using v by simp
qed

text \<open>
  A stale observation changes nothing: a step whose observation was taken under another generation
  returns no action and leaves the machine as it was, and every loss and every retry begins a new
  generation.
\<close>

theorem stale_observations_ignored:
  shows "g \<noteq> generation r \<Longrightarrow> rr_step obs g now r = (r, RR_ACT_NONE)"
    and "\<not> rr_active r \<Longrightarrow> generation (rr_link_lost now r) \<noteq> generation r"
    and "rr_step obs (generation r) now r = (r', a) \<Longrightarrow> state r = RR_BACKOFF \<Longrightarrow> state r' \<noteq> RR_BACKOFF \<Longrightarrow>
      generation r' \<noteq> generation r"
  by (auto simp: rr_step_def rr_link_lost_def rr_fields split: if_splits)

theorem stale_observations_ignored_witness:
  "rr_step all_signs 7 100 (rr_link_lost 1 rr_init) = (rr_link_lost 1 rr_init, RR_ACT_NONE)"
  using stale_observations_ignored(1) [of 7 "rr_link_lost 1 rr_init" all_signs 100]
  by (simp add: rr_link_lost_def rr_active_def rr_init_def rr_fields)

end
