(* ===== verification/Cam_Sched.thy ===== *)
theory Cam_Sched
  imports Kino_Prelude
begin

text \<open>
  The camera scheduler, \<^verbatim>\<open>firmware/p4/main/cam_sched.c\<close>: who may talk to the camera nodes, the shutter or
  the background probes. The properties: a running capture never shares the wires with a probe, and an
  admitted capture waits for the transactions in flight and no others, the last of which signals it.
\<close>

section \<open>The code\<close>

definition CAM_SCHED_CAMS :: nat where "CAM_SCHED_CAMS = 4"

record cam_sched =
  capture_active :: bool
  capture_pending :: bool
  probe_active :: "bool list"
  probes_run :: u32
  probes_deferred :: u32
  capture_waits :: u32

definition valid_cam :: "int \<Rightarrow> bool" where
  "valid_cam cam \<longleftrightarrow> cam \<ge> 0 \<and> cam < int CAM_SCHED_CAMS"

definition cam_sched_init :: cam_sched where
  "cam_sched_init = \<lparr>capture_active = False, capture_pending = False, probe_active = replicate CAM_SCHED_CAMS False,
     probes_run = 0, probes_deferred = 0, capture_waits = 0\<rparr>"

definition cam_sched_probes_active :: "cam_sched \<Rightarrow> nat" where
  "cam_sched_probes_active s = length (filter (\<lambda>i. probe_active s ! i) [0..<CAM_SCHED_CAMS])"

definition cam_sched_capture_admit :: "cam_sched \<Rightarrow> bool \<times> cam_sched" where
  "cam_sched_capture_admit s =
    (if capture_active s then (False, s)
     else let s1 = s\<lparr>capture_active := True\<rparr>;
              s2 = s1\<lparr>capture_pending := cam_sched_probes_active s1 > 0\<rparr>
          in (True, if capture_pending s2 then s2\<lparr>capture_waits := capture_waits s2 + 1\<rparr> else s2))"

definition cam_sched_capture_ready :: "cam_sched \<Rightarrow> bool" where
  "cam_sched_capture_ready s \<longleftrightarrow> cam_sched_probes_active s = 0"

definition cam_sched_capture_started :: "cam_sched \<Rightarrow> cam_sched" where
  "cam_sched_capture_started s = s\<lparr>capture_pending := False\<rparr>"

definition cam_sched_capture_done :: "cam_sched \<Rightarrow> cam_sched" where
  "cam_sched_capture_done s = s\<lparr>capture_active := False, capture_pending := False\<rparr>"

definition cam_sched_probe_begin :: "int \<Rightarrow> cam_sched \<Rightarrow> bool \<times> cam_sched" where
  "cam_sched_probe_begin cam s =
    (if \<not> valid_cam cam then (False, s)
     else if capture_active s \<or> capture_pending s \<or> probe_active s ! nat cam
     then (False, s\<lparr>probes_deferred := probes_deferred s + 1\<rparr>)
     else (True, s\<lparr>probe_active := (probe_active s)[nat cam := True], probes_run := probes_run s + 1\<rparr>))"

definition cam_sched_probe_end :: "int \<Rightarrow> cam_sched \<Rightarrow> bool \<times> cam_sched" where
  "cam_sched_probe_end cam s =
    (if \<not> valid_cam cam then (False, s)
     else if \<not> probe_active s ! nat cam then (False, s)
     else let s1 = s\<lparr>probe_active := (probe_active s)[nat cam := False]\<rparr>
          in (capture_pending s1 \<and> cam_sched_probes_active s1 = 0, s1))"

section \<open>Runs\<close>

text \<open>
  The shutter and the probe task interleave at the calls, which hold one short lock each. The flag
  says that the admitted capture is talking to the nodes: it is set when the shutter, having found the
  scheduler ready, reports the start, and cleared when it releases the cameras.
\<close>

inductive sched_run :: "cam_sched \<Rightarrow> bool \<Rightarrow> bool" where
  start: "sched_run cam_sched_init False"
| admit: "sched_run s running \<Longrightarrow> sched_run (snd (cam_sched_capture_admit s)) running"
| begins: "sched_run s running \<Longrightarrow> capture_active s \<Longrightarrow> cam_sched_capture_ready s \<Longrightarrow>
    sched_run (cam_sched_capture_started s) True"
| finish: "sched_run s running \<Longrightarrow> sched_run (cam_sched_capture_done s) False"
| probe: "sched_run s running \<Longrightarrow> sched_run (snd (cam_sched_probe_begin cam s)) running"
| boundary: "sched_run s running \<Longrightarrow> sched_run (snd (cam_sched_probe_end cam s)) running"

definition sched_inv :: "cam_sched \<Rightarrow> bool \<Rightarrow> bool" where
  "sched_inv s running \<longleftrightarrow> length (probe_active s) = 4 \<and> (running \<longrightarrow> capture_active s \<and> cam_sched_probes_active s = 0) \<and>
    (capture_pending s \<longrightarrow> capture_active s)"

lemma count_update_False:
  assumes "i < 4" "length xs = 4" "xs ! i"
  shows "length (filter (\<lambda>j. (xs[i := False]) ! j) [0..<4]) + 1 = length (filter (\<lambda>j. xs ! j) [0..<4])"
proof -
  obtain a b c d where "xs = [a, b, c, d]" using assms(2) by (auto simp: numeral_eq_Suc length_Suc_conv)
  then show ?thesis using assms(1,3) by (auto simp: less_Suc_eq numeral_eq_Suc)
qed

lemma valid_camD: "valid_cam cam \<Longrightarrow> nat cam < 4"
  by (simp add: valid_cam_def CAM_SCHED_CAMS_def nat_less_iff)

lemma probes_active_upd [simp]:
  "cam_sched_probes_active (s\<lparr>capture_active := a\<rparr>) = cam_sched_probes_active s"
  "cam_sched_probes_active (s\<lparr>capture_pending := b\<rparr>) = cam_sched_probes_active s"
  "cam_sched_probes_active (s\<lparr>capture_waits := c\<rparr>) = cam_sched_probes_active s"
  "cam_sched_probes_active (s\<lparr>probes_deferred := d\<rparr>) = cam_sched_probes_active s"
  "cam_sched_probes_active (s\<lparr>probes_run := e\<rparr>) = cam_sched_probes_active s"
  by (simp_all add: cam_sched_probes_active_def)

lemma probe_end_count:
  assumes "length (probe_active s) = 4" "valid_cam cam" "probe_active s ! nat cam"
  shows "Suc (cam_sched_probes_active (snd (cam_sched_probe_end cam s))) = cam_sched_probes_active s"
  using count_update_False [OF valid_camD [OF assms(2)] assms(1,3)] assms
  by (simp add: cam_sched_probe_end_def cam_sched_probes_active_def CAM_SCHED_CAMS_def Let_def)

lemma probe_end_le:
  "length (probe_active s) = 4 \<Longrightarrow> cam_sched_probes_active (snd (cam_sched_probe_end cam s)) \<le> cam_sched_probes_active s"
  using probe_end_count [of s cam] by (cases "valid_cam cam \<and> probe_active s ! nat cam") (auto simp: cam_sched_probe_end_def)

lemma run_inv: "sched_run s running \<Longrightarrow> sched_inv s running"
proof (induction rule: sched_run.induct)
  case start
  then show ?case by (simp add: sched_inv_def cam_sched_init_def CAM_SCHED_CAMS_def)
next
  case (admit s running)
  then show ?case by (auto simp: sched_inv_def cam_sched_capture_admit_def Let_def)
next
  case (begins s running)
  then show ?case by (simp add: sched_inv_def cam_sched_capture_started_def cam_sched_capture_ready_def)
next
  case (finish s running)
  then show ?case by (simp add: sched_inv_def cam_sched_capture_done_def)
next
  case (probe s running cam)
  then show ?case by (auto simp: sched_inv_def cam_sched_probe_begin_def)
next
  case (boundary s running cam)
  have "probe_active s = probe_active s \<Longrightarrow> capture_active (snd (cam_sched_probe_end cam s)) = capture_active s"
    "capture_pending (snd (cam_sched_probe_end cam s)) = capture_pending s"
    "length (probe_active (snd (cam_sched_probe_end cam s))) = length (probe_active s)"
    by (simp_all add: cam_sched_probe_end_def Let_def)
  then show ?case using boundary.IH probe_end_le [of s cam] by (auto simp: sched_inv_def)
qed

section \<open>Properties\<close>



text \<open>
  The shutter waits for the transactions in flight and no others. Once a capture is admitted no probe
  begins; the end of any probe in flight lowers the number the capture waits for by one; and it is
  signalled exactly by the end that lowers it to none.
\<close>

theorem capture_wait_is_bounded:
  assumes "sched_run s running" "capture_pending s" "valid_cam cam" "probe_active s ! nat cam"
  shows "\<not> fst (cam_sched_probe_begin any s) \<and>
    Suc (cam_sched_probes_active (snd (cam_sched_probe_end cam s))) = cam_sched_probes_active s \<and>
    (fst (cam_sched_probe_end cam s) \<longleftrightarrow> cam_sched_capture_ready (snd (cam_sched_probe_end cam s)))"
  using run_inv [OF assms(1)] probe_end_count [OF _ assms(3,4)] assms(2-4)
  by (simp add: sched_inv_def cam_sched_probe_begin_def cam_sched_probe_end_def cam_sched_capture_ready_def Let_def)

theorem capture_wait_is_bounded_witness:
  "let s = snd (cam_sched_capture_admit (snd (cam_sched_probe_begin 2 cam_sched_init))) in
   fst (cam_sched_probe_end 2 s) = cam_sched_capture_ready (snd (cam_sched_probe_end 2 s))"
proof -
  let ?s = "snd (cam_sched_capture_admit (snd (cam_sched_probe_begin 2 cam_sched_init)))"
  have "sched_run ?s False" by (intro sched_run.admit sched_run.probe sched_run.start)
  moreover have "capture_pending ?s" "valid_cam 2" "probe_active ?s ! nat 2" by code_simp+
  ultimately show ?thesis using capture_wait_is_bounded [of ?s False 2 0] by simp
qed

end
