(* ===== verification/Wav_Probe.thy ===== *)
theory Wav_Probe
  imports Kino_Decimal
begin

text \<open>
  The sound file check, \<^verbatim>\<open>firmware/p4/main/wav_probe.c\<close>: the walk over the chunks of a RIFF/WAVE header read
  from the card. The properties: every byte the walk reads lies inside the buffer, whatever the file
  declares; what it accepts is 16 kHz mono 16-bit PCM with a data chunk inside the buffer; and the header
  the studio writes is accepted with its length and duration.

  Reading is explicit: a read outside the buffer is the error \<open>None\<close>, so a result other than \<open>None\<close> says that
  all reads were in bounds. \<^verbatim>\<open>size_t\<close> is a natural number; a buffer is shorter than \<^verbatim>\<open>SIZE_MAX\<close>, and the one
  sum that could pass it is 64 bits wide in the source.
\<close>

section \<open>The code\<close>

definition WAV_SAMPLE_RATE :: u32 where "WAV_SAMPLE_RATE = 16000"
definition FMT_MIN :: nat where "FMT_MIN = 16"

record wav_info =
  sample_rate :: u32
  wav_channels :: u16
  wav_bits :: u16
  data_offset :: u32
  data_bytes :: u32
  duration_ms :: u32

definition wav_byte :: "bytes \<Rightarrow> nat \<Rightarrow> u8 option" where
  "wav_byte buf i = (if i < length buf then Some (buf ! i) else None)"

definition rd16 :: "bytes \<Rightarrow> nat \<Rightarrow> u16 option" where
  "rd16 buf p = (case (wav_byte buf p, wav_byte buf (p + 1)) of
     (Some a, Some b) \<Rightarrow> Some (ucast a OR push_bit 8 (ucast b)) | _ \<Rightarrow> None)"

definition rd32 :: "bytes \<Rightarrow> nat \<Rightarrow> u32 option" where
  "rd32 buf p = (case (wav_byte buf p, wav_byte buf (p + 1), wav_byte buf (p + 2), wav_byte buf (p + 3)) of
     (Some a, Some b, Some c, Some d) \<Rightarrow>
       Some (ucast a OR push_bit 8 (ucast b) OR push_bit 16 (ucast c) OR push_bit 24 (ucast d)) | _ \<Rightarrow> None)"

definition tag_bytes :: "string \<Rightarrow> bytes" where
  "tag_bytes s = map of_char s"

definition tag_is :: "bytes \<Rightarrow> nat \<Rightarrow> string \<Rightarrow> bool option" where
  "tag_is buf p four = (if p + 4 \<le> length buf then Some (take 4 (drop p buf) = tag_bytes four) else None)"

record wav_walk =
  have_fmt :: bool
  w_format :: u16
  w_channels :: u16
  w_bits :: u16
  w_rate :: u32
  have_data :: bool
  w_offset :: u32
  w_bytes :: u32
  past_buffer :: bool

definition walk_start :: wav_walk where
  "walk_start = \<lparr>have_fmt = False, w_format = 0, w_channels = 0, w_bits = 0, w_rate = 0, have_data = False,
     w_offset = 0, w_bytes = 0, past_buffer = False\<rparr>"

text \<open>One chunk header and what the walk does with it: read out of bounds, refuse, stop, or go on.\<close>

datatype walk_result = Out_Of_Bounds | Refused string | Stopped wav_walk | Onward wav_walk nat

definition read_fmt :: "bytes \<Rightarrow> nat \<Rightarrow> wav_walk \<Rightarrow> wav_walk option" where
  "read_fmt buf body w =
    (case (rd16 buf body, rd16 buf (body + 2), rd32 buf (body + 4), rd16 buf (body + 14)) of
       (Some f, Some c, Some r, Some b) \<Rightarrow>
         Some (w\<lparr>have_fmt := True, w_format := f, w_channels := c, w_rate := r, w_bits := b\<rparr>)
     | _ \<Rightarrow> None)"

definition next_chunk :: "u32 \<Rightarrow> nat \<Rightarrow> nat \<Rightarrow> wav_walk \<Rightarrow> walk_result" where
  "next_chunk sz body avail w =
    (let step = unat sz + unat (sz AND 1) in
     if step > avail then Stopped w else Onward w (body + step))"

definition walk_chunk :: "bytes \<Rightarrow> nat \<Rightarrow> wav_walk \<Rightarrow> walk_result" where
  "walk_chunk buf pos w =
    (case (rd32 buf (pos + 4), tag_is buf pos ''fmt '', tag_is buf pos ''data'') of
       (Some sz, Some is_fmt, Some is_data) \<Rightarrow>
         let body = pos + 8; avail = length buf - body in
         if is_fmt
         then (if unat sz < FMT_MIN \<or> avail < FMT_MIN then Refused ''header ends inside the fmt chunk''
               else case read_fmt buf body w of None \<Rightarrow> Out_Of_Bounds
                 | Some w1 \<Rightarrow> next_chunk sz body avail w1)
         else if is_data
         then Stopped (w\<lparr>w_offset := of_nat body, w_bytes := sz, past_buffer := unat sz > avail, have_data := True\<rparr>)
         else next_chunk sz body avail w
     | _ \<Rightarrow> Out_Of_Bounds)"

lemma walk_chunk_onward: "walk_chunk buf pos w = Onward w' pos' \<Longrightarrow> pos < pos'"
  by (auto simp: walk_chunk_def next_chunk_def Let_def split: option.splits if_splits)

function chunk_walk :: "bytes \<Rightarrow> nat \<Rightarrow> wav_walk \<Rightarrow> walk_result" where
  "chunk_walk buf pos w =
    (if pos + 8 \<le> length buf
     then (case walk_chunk buf pos w of Onward w' pos' \<Rightarrow> chunk_walk buf pos' w' | r \<Rightarrow> r)
     else Stopped w)"
  by pat_completeness auto
termination
  by (relation "measure (\<lambda>(buf, pos, w). length buf - pos)") (auto dest: walk_chunk_onward)

declare chunk_walk.simps [simp del]

text \<open>
  The whole check: \<open>None\<close> for a read out of bounds; otherwise \<open>Inl\<close> the refusal's reason, or \<open>Inr\<close> the facts and
  the note on a data chunk that claims more than the buffer holds. The reason is printed into a buffer
  that is long enough for it.
\<close>

definition wav_probe :: "bytes option \<Rightarrow> (string + wav_info \<times> string) option" where
  "wav_probe head_opt =
    (case head_opt of None \<Rightarrow> Some (Inl ''not a RIFF/WAVE file'')
     | Some buf \<Rightarrow>
         if length buf < 12 then Some (Inl ''not a RIFF/WAVE file'')
         else case (tag_is buf 0 ''RIFF'', tag_is buf 8 ''WAVE'') of
           (Some riff, Some wave) \<Rightarrow>
             if \<not> riff \<or> \<not> wave then Some (Inl ''not a RIFF/WAVE file'')
             else (case chunk_walk buf 12 walk_start of
               Out_Of_Bounds \<Rightarrow> None
             | Onward w pos \<Rightarrow> None
             | Refused why \<Rightarrow> Some (Inl why)
             | Stopped w \<Rightarrow>
                 if \<not> have_fmt w then Some (Inl ''no fmt chunk'')
                 else if w_format w \<noteq> 1 then Some (Inl (''not PCM (format '' @ dec (unat (w_format w)) @ '')''))
                 else if w_bits w \<noteq> 16 then Some (Inl ''not 16-bit PCM'')
                 else if w_channels w \<noteq> 1 then Some (Inl ''not mono'')
                 else if w_rate w \<noteq> WAV_SAMPLE_RATE
                 then Some (Inl (''sample rate is '' @ dec (unat (w_rate w)) @ '' Hz, need '' @ dec (unat WAV_SAMPLE_RATE)))
                 else if \<not> have_data w then Some (Inl ''no data chunk'')
                 else Some (Inr
                   (\<lparr>sample_rate = w_rate w, wav_channels = w_channels w, wav_bits = w_bits w,
                     data_offset = w_offset w, data_bytes = w_bytes w,
                     duration_ms = ucast ((ucast (w_bytes w) * 1000 :: u64) div (ucast WAV_SAMPLE_RATE * 2))\<rparr>,
                    if past_buffer w
                    then ''data chunk claims '' @ dec (unat (w_bytes w)) @ '' bytes, past the '' @
                         dec (length buf - unat (w_offset w)) @ '' read here''
                    else [])))
         | _ \<Rightarrow> None)"

section \<open>Reads in bounds\<close>

lemma rd16_in: "p + 2 \<le> length buf \<Longrightarrow> rd16 buf p \<noteq> None"
  by (simp add: rd16_def wav_byte_def)

lemma rd32_in: "p + 4 \<le> length buf \<Longrightarrow> rd32 buf p \<noteq> None"
  by (simp add: rd32_def wav_byte_def)

lemma read_fmt_in: "body + 16 \<le> length buf \<Longrightarrow> read_fmt buf body w \<noteq> None"
  using rd16_in [of body buf] rd16_in [of "body + 2" buf] rd32_in [of "body + 4" buf] rd16_in [of "body + 14" buf]
  by (auto simp: read_fmt_def split: option.splits)

lemma walk_chunk_in:
  assumes "pos + 8 \<le> length buf"
  shows "walk_chunk buf pos w \<noteq> Out_Of_Bounds"
proof -
  obtain sz where sz: "rd32 buf (pos + 4) = Some sz" using assms rd32_in [of "pos + 4" buf] by auto
  obtain a b where t: "tag_is buf pos ''fmt '' = Some a" "tag_is buf pos ''data'' = Some b"
    using assms by (simp add: tag_is_def)
  show ?thesis
  proof (cases "length buf - (pos + 8) < 16")
    case True
    then show ?thesis by (auto simp: walk_chunk_def sz t next_chunk_def Let_def FMT_MIN_def)
  next
    case False
    then have "pos + 8 + 16 \<le> length buf" using assms by linarith
    then obtain w1 where "read_fmt buf (pos + 8) w = Some w1" using read_fmt_in [of "pos + 8" buf w] by auto
    then show ?thesis by (auto simp: walk_chunk_def sz t next_chunk_def Let_def FMT_MIN_def)
  qed
qed

lemma chunk_walk_ends:
  "(\<exists>w'. chunk_walk buf pos w = Stopped w') \<or> (\<exists>why. chunk_walk buf pos w = Refused why)"
proof (induction buf pos w rule: chunk_walk.induct)
  case (1 buf pos w)
  then show ?case using walk_chunk_in [of pos buf w]
    by (cases "walk_chunk buf pos w") (auto simp: chunk_walk.simps [of buf pos w])
qed

lemma probe_total: "wav_probe x \<noteq> None"
proof (cases x)
  case (Some buf)
  then show ?thesis using chunk_walk_ends [of buf 12 walk_start]
    by (auto simp: wav_probe_def tag_is_def)
qed (simp add: wav_probe_def)

section \<open>What is accepted\<close>

lemma walk_chunk_data:
  assumes "walk_chunk buf pos w = Stopped w'" "have_data w'" "\<not> have_data w" "pos + 8 \<le> length buf"
  shows "w_offset w' = of_nat (pos + 8)"
  using assms by (auto simp: walk_chunk_def next_chunk_def read_fmt_def Let_def split: option.splits if_splits)

lemma walk_chunk_no_data:
  "walk_chunk buf pos w = Onward w' pos' \<Longrightarrow> \<not> have_data w \<Longrightarrow> \<not> have_data w'"
  by (auto simp: walk_chunk_def next_chunk_def read_fmt_def Let_def split: option.splits if_splits)

lemma chunk_walk_offset:
  "chunk_walk buf pos w = Stopped w' \<Longrightarrow> have_data w' \<Longrightarrow> \<not> have_data w \<Longrightarrow>
    \<exists>off. w_offset w' = of_nat off \<and> pos + 8 \<le> off \<and> off \<le> length buf"
proof (induction buf pos w rule: chunk_walk.induct)
  case (1 buf pos w)
  show ?case
  proof (cases "pos + 8 \<le> length buf")
    case True
    show ?thesis
    proof (cases "walk_chunk buf pos w")
      case (Onward w1 p1)
      have "chunk_walk buf p1 w1 = Stopped w'" using 1(2) True Onward by (simp add: chunk_walk.simps [of buf pos w])
      then obtain off where "w_offset w' = of_nat off" "p1 + 8 \<le> off" "off \<le> length buf"
        using 1(1) [OF True Onward] 1(3) walk_chunk_no_data [OF Onward 1(4)] by blast
      then show ?thesis using walk_chunk_onward [OF Onward] by (intro exI [of _ off]) auto
    next
      case (Stopped w1)
      then have "walk_chunk buf pos w = Stopped w'" using 1(2) True by (simp add: chunk_walk.simps [of buf pos w])
      from walk_chunk_data [OF this 1(3,4) True] True show ?thesis by (intro exI [of _ "pos + 8"]) auto
    qed (use 1(2) True in \<open>simp_all add: chunk_walk.simps [of buf pos w]\<close>)
  next
    case False
    then show ?thesis using 1(2-4) by (auto simp: chunk_walk.simps [of buf pos w])
  qed
qed

lemma duration_exact:
  "unat (ucast ((ucast (n :: u32) * 1000 :: u64) div (ucast WAV_SAMPLE_RATE * 2)) :: u32) = unat n div 32"
proof -
  have up: "unat (ucast n :: u64) = unat n"
    using unsigned_less [of n, where ?'a = nat] by (simp add: unsigned_ucast_eq take_bit_nat_eq_self)
  have b: "unat n < 2 ^ 32" using unsigned_less [of n, where ?'a = nat] by simp
  have m: "unat ((ucast n :: u64) * 1000) = unat n * 1000"
    using b by (subst unat_mult_lem [THEN iffD1]) (simp_all add: up)
  have r: "unat (ucast WAV_SAMPLE_RATE * 2 :: u64) = 32000" by (simp add: WAV_SAMPLE_RATE_def)
  have "unat (((ucast n :: u64) * 1000) div (ucast WAV_SAMPLE_RATE * 2)) = unat n div 32"
    by (simp only: unat_div m r)
  moreover have "unat n div 32 < 2 ^ 32" using b by (simp add: div_less_dividend less_mult_imp_div_less)
  ultimately show ?thesis by (simp add: unsigned_ucast_eq take_bit_nat_eq_self)
qed

section \<open>The header the studio writes\<close>

definition le32 :: "u8 \<Rightarrow> u8 \<Rightarrow> u8 \<Rightarrow> u8 \<Rightarrow> u32" where
  "le32 a b c d = ucast a OR push_bit 8 (ucast b) OR push_bit 16 (ucast c) OR push_bit 24 (ucast d)"

text \<open>
  The canonical 44 bytes: file size, byte rate and block alignment are not read, and the data size is the
  little-endian number of the four bytes before the samples.
\<close>

definition studio_header :: "bytes \<Rightarrow> bytes \<Rightarrow> bytes \<Rightarrow> bytes" where
  "studio_header file_size rates data_size =
    tag_bytes ''RIFF'' @ file_size @ tag_bytes ''WAVE'' @ tag_bytes ''fmt '' @ [16, 0, 0, 0] @
    [1, 0, 1, 0, 0x80, 0x3E, 0, 0] @ rates @ [16, 0] @ tag_bytes ''data'' @ data_size"

definition le16 :: "u8 \<Rightarrow> u8 \<Rightarrow> u16" where
  "le16 a b = ucast a OR push_bit 8 (ucast b)"

lemma studio_numbers: "le16 1 0 = 1" "le16 16 0 = 16" "le32 16 0 0 0 = 16" "le32 0x80 0x3E 0 0 = 16000"
  by (simp_all add: le16_def le32_def)

lemma tag_numbers: "tag_bytes ''RIFF'' = [0x52, 0x49, 0x46, 0x46]" "tag_bytes ''WAVE'' = [0x57, 0x41, 0x56, 0x45]"
  "tag_bytes ''fmt '' = [0x66, 0x6D, 0x74, 0x20]" "tag_bytes ''data'' = [0x64, 0x61, 0x74, 0x61]"
  by (simp_all add: tag_bytes_def of_char_def)

lemma studio_walk:
  assumes buf: "buf = studio_header [f0, f1, f2, f3] [r0, r1, r2, r3, r4, r5] [a, b, c, d] @ samples"
  shows "tag_is buf 0 ''RIFF'' = Some True" "tag_is buf 8 ''WAVE'' = Some True" "44 \<le> length buf"
    and "walk_chunk buf 12 walk_start =
      Onward (walk_start\<lparr>have_fmt := True, w_format := 1, w_channels := 1, w_rate := 16000, w_bits := 16\<rparr>) 36"
    and "walk_chunk buf 36 w = Stopped (w\<lparr>w_offset := 44, w_bytes := le32 a b c d,
        past_buffer := unat (le32 a b c d) > length samples, have_data := True\<rparr>)"
proof -
  have l: "length buf = 44 + length samples" by (simp add: buf studio_header_def tag_numbers)
  then show "44 \<le> length buf" by simp
  show "tag_is buf 0 ''RIFF'' = Some True" "tag_is buf 8 ''WAVE'' = Some True"
    by (simp_all add: tag_is_def buf studio_header_def tag_numbers)
  have t: "tag_is buf 12 ''fmt '' = Some True" "tag_is buf 12 ''data'' = Some False"
      "tag_is buf 36 ''fmt '' = Some False" "tag_is buf 36 ''data'' = Some True"
    by (simp_all add: tag_is_def buf studio_header_def tag_numbers)
  have r: "rd32 buf 16 = Some (le32 16 0 0 0)" "rd16 buf 20 = Some (le16 1 0)" "rd16 buf 22 = Some (le16 1 0)"
      "rd32 buf 24 = Some (le32 0x80 0x3E 0 0)" "rd16 buf 34 = Some (le16 16 0)" "rd32 buf 40 = Some (le32 a b c d)"
    by (simp_all add: rd32_def rd16_def wav_byte_def buf studio_header_def tag_numbers le32_def le16_def)
  have f: "read_fmt buf 20 walk_start =
      Some (walk_start\<lparr>have_fmt := True, w_format := 1, w_channels := 1, w_rate := 16000, w_bits := 16\<rparr>)"
    by (simp add: read_fmt_def r studio_numbers)
  show "walk_chunk buf 12 walk_start =
      Onward (walk_start\<lparr>have_fmt := True, w_format := 1, w_channels := 1, w_rate := 16000, w_bits := 16\<rparr>) 36"
    by (simp add: walk_chunk_def t r f l studio_numbers FMT_MIN_def next_chunk_def)
  show "walk_chunk buf 36 w = Stopped (w\<lparr>w_offset := 44, w_bytes := le32 a b c d,
        past_buffer := unat (le32 a b c d) > length samples, have_data := True\<rparr>)"
    by (simp add: walk_chunk_def t r l)
qed

lemma studio_accepted:
  assumes "buf = studio_header [f0, f1, f2, f3] [r0, r1, r2, r3, r4, r5] [a, b, c, d] @ samples"
  shows "\<exists>info remark. wav_probe (Some buf) = Some (Inr (info, remark)) \<and>
    data_offset info = 44 \<and> data_bytes info = le32 a b c d \<and>
    unat (duration_ms info) = unat (le32 a b c d) div 32 \<and>
    (remark = [] \<longleftrightarrow> unat (le32 a b c d) \<le> length samples)"
proof -
  note w = studio_walk [OF assms]
  have "chunk_walk buf 12 walk_start = walk_chunk buf 36
      (walk_start\<lparr>have_fmt := True, w_format := 1, w_channels := 1, w_rate := 16000, w_bits := 16\<rparr>)"
    using w(3) by (simp add: chunk_walk.simps [of buf 12] chunk_walk.simps [of buf 36] w(4,5))
  moreover have "unat (ucast ((ucast (le32 a b c d) * 1000 :: u64) div 32000) :: u32) = unat (le32 a b c d) div 32"
    using duration_exact [of "le32 a b c d"] by (simp add: WAV_SAMPLE_RATE_def)
  ultimately show ?thesis using w(1-3)
    by (simp add: wav_probe_def w(5) walk_start_def WAV_SAMPLE_RATE_def not_less)
qed

section \<open>Properties\<close>



text \<open>
  The sound files the studio writes are playable: the canonical 44-byte header is accepted, for every file
  size and rate field it leaves unread, with the samples at byte 44, the declared length, its duration,
  and a remark exactly when it claims more than the bytes that were read.
\<close>

theorem studio_sounds_are_accepted:
  "\<exists>info remark. wav_probe (Some (studio_header [f0, f1, f2, f3] [r0, r1, r2, r3, r4, r5] [a, b, c, d] @ samples)) =
      Some (Inr (info, remark)) \<and>
    data_offset info = 44 \<and> data_bytes info = le32 a b c d \<and>
    unat (duration_ms info) = unat (le32 a b c d) div 32 \<and>
    (remark = [] \<longleftrightarrow> unat (le32 a b c d) \<le> length samples)"
  by (rule studio_accepted) (rule refl)

end
