(* ===== verification/Net_Link.thy ===== *)
theory Net_Link
  imports Kino_Prelude
begin

text \<open>
  The body's view of the radio, \<^verbatim>\<open>firmware/p4/main/net_link.c\<close>: the state every other module reads, the
  operations that ask the radio for something, and the reports that come back. An operation gives the
  lock up while it calls the driver, so it is modelled as the two locked stretches around that call,
  between which any report may land. The properties: what every reachable view satisfies, that no
  address outlives a reported loss of the association, and two ways the view can be wrong.
\<close>

section \<open>The code\<close>

definition NET_SSID_LEN :: nat where "NET_SSID_LEN = 33"
definition NET_IP_LEN :: nat where "NET_IP_LEN = 16"
definition NET_BSSID_LEN :: nat where "NET_BSSID_LEN = 18"
definition NET_DETAIL_LEN :: nat where "NET_DETAIL_LEN = 96"
definition NET_SCAN_MAX :: nat where "NET_SCAN_MAX = 20"
definition NET_VERSION_LEN :: nat where "NET_VERSION_LEN = 24"

datatype net_state =
  NET_C6_NOT_ROUTED | NET_C6_ABSENT | NET_C6_BOOTING | NET_C6_LINK_READY | NET_RADIO_READY | NET_WIFI_IDLE
  | NET_WIFI_SCANNING | NET_WIFI_CONNECTING | NET_WIFI_ASSOCIATED | NET_IP_WAIT | NET_IP_READY | NET_ERROR

text \<open>The enumeration's numbers, which the source compares.\<close>

fun net_rank :: "net_state \<Rightarrow> nat" where
  "net_rank NET_C6_NOT_ROUTED = 0"
| "net_rank NET_C6_ABSENT = 1"
| "net_rank NET_C6_BOOTING = 2"
| "net_rank NET_C6_LINK_READY = 3"
| "net_rank NET_RADIO_READY = 4"
| "net_rank NET_WIFI_IDLE = 5"
| "net_rank NET_WIFI_SCANNING = 6"
| "net_rank NET_WIFI_CONNECTING = 7"
| "net_rank NET_WIFI_ASSOCIATED = 8"
| "net_rank NET_IP_WAIT = 9"
| "net_rank NET_IP_READY = 10"
| "net_rank NET_ERROR = 11"

datatype net_reason =
  NET_REASON_NONE | NET_REASON_TRANSPORT_UNKNOWN | NET_REASON_C6_NO_RESPONSE | NET_REASON_C6_BAD_FIRMWARE
  | NET_REASON_C6_LINK_LOST | NET_REASON_RADIO_FAILURE | NET_REASON_AUTH_FAILED | NET_REASON_NETWORK_NOT_FOUND
  | NET_REASON_ASSOC_FAILED | NET_REASON_DHCP_TIMEOUT | NET_REASON_DNS_FAILURE | NET_REASON_NO_CREDENTIALS
  | NET_REASON_CLOCK_UNTRUSTED

datatype net_security = NET_SEC_OPEN | NET_SEC_WPA2 | NET_SEC_WPA3

record net_scan_entry =
  scan_ssid :: string
  scan_bssid :: string
  scan_rssi :: int
  scan_channel :: int
  scan_security :: net_security
  scan_hidden :: bool

record net =
  driver :: bool
  net_state :: net_state
  reason :: net_reason
  ssid :: string
  bssid :: string
  ip :: string
  rssi :: int
  channel :: int
  entered_ms :: int
  c6_present :: bool
  sdio_link_up :: bool
  c6_version :: string
  host_version :: string
  protocol_version :: string
  transport_errors :: u32
  c6_resets :: u32
  reconnects :: u32
  net_recoveries :: u32
  rx_bytes :: u64
  tx_bytes :: u64
  net_detail :: string
  scan_list :: "net_scan_entry list"
  initialised :: bool

definition zero_net :: net where
  "zero_net = \<lparr>driver = False, net_state = NET_C6_NOT_ROUTED, reason = NET_REASON_NONE, ssid = [], bssid = [], ip = [],
     rssi = 0, channel = 0, entered_ms = 0, c6_present = False, sdio_link_up = False, c6_version = [],
     host_version = [], protocol_version = [], transport_errors = 0, c6_resets = 0, reconnects = 0,
     net_recoveries = 0, rx_bytes = 0, tx_bytes = 0, net_detail = [], scan_list = [], initialised = False\<rparr>"

definition copy_str :: "nat \<Rightarrow> string option \<Rightarrow> string" where
  "copy_str cap src = (case src of None \<Rightarrow> [] | Some s \<Rightarrow> take (cap - 1) s)"

definition net_enter :: "net_state \<Rightarrow> int \<Rightarrow> net \<Rightarrow> net" where
  "net_enter st now_ms n = (if net_state n \<noteq> st then n\<lparr>net_state := st, entered_ms := now_ms\<rparr> else n)"

definition set_net_detail :: "string option \<Rightarrow> net \<Rightarrow> net" where
  "set_net_detail d n = (if d \<noteq> None then n\<lparr>net_detail := copy_str NET_DETAIL_LEN d\<rparr> else n)"

definition net_fail :: "net_state \<Rightarrow> net_reason \<Rightarrow> string option \<Rightarrow> int \<Rightarrow> net \<Rightarrow> net" where
  "net_fail st why d now_ms n = set_net_detail d ((net_enter st now_ms n)\<lparr>reason := why\<rparr>)"

text \<open>\<^verbatim>\<open>BOARD_C6_FITTED\<close> is true on this board.\<close>

definition net_link_init :: "int \<Rightarrow> net" where
  "net_link_init now_ms =
    net_fail NET_C6_NOT_ROUTED NET_REASON_TRANSPORT_UNKNOWN
      (Some ''no P4-C6 transport in this build; see firmware/C6_HARDWARE_MAP.md'') now_ms
      (zero_net\<lparr>initialised := True, entered_ms := now_ms\<rparr>)"

text \<open>
  What \<^verbatim>\<open>net_link_status\<close> copies out: the view itself once initialised, with how long the state has held;
  before that, a blank answer.
\<close>

definition net_link_status :: "int \<Rightarrow> net \<Rightarrow> net \<times> int" where
  "net_link_status now_ms n =
    (if \<not> initialised n
     then (zero_net\<lparr>driver := driver n, reason := NET_REASON_TRANSPORT_UNKNOWN\<rparr>, 0)
     else (n, if now_ms > entered_ms n then now_ms - entered_ms n else 0))"

definition net_link_can_upload :: "net \<Rightarrow> bool" where
  "net_link_can_upload n \<longleftrightarrow> net_state n = NET_IP_READY"

text \<open>The stretch of an operation before the driver call: whether the call is made, and the view.\<close>

definition net_scan_begin :: "int \<Rightarrow> net \<Rightarrow> bool \<times> net" where
  "net_scan_begin now_ms n =
    (if \<not> driver n
     then (False, net_fail NET_C6_NOT_ROUTED NET_REASON_TRANSPORT_UNKNOWN
            (Some ''cannot scan: no P4-C6 transport in this build'') now_ms n)
     else if net_rank (net_state n) < net_rank NET_RADIO_READY
     then (False, net_fail (net_state n) NET_REASON_RADIO_FAILURE (Some ''cannot scan: radio not ready'') now_ms n)
     else (True, n))"

definition net_scan_finish :: "bool \<Rightarrow> int \<Rightarrow> net \<Rightarrow> net" where
  "net_scan_finish accepted now_ms n =
    (if \<not> accepted
     then net_fail (net_state n) NET_REASON_RADIO_FAILURE (Some ''the radio refused the scan'') now_ms n
     else net_enter NET_WIFI_SCANNING now_ms n)"

definition connect_begin :: "string option \<Rightarrow> int \<Rightarrow> net \<Rightarrow> bool \<times> net" where
  "connect_begin name now_ms n =
    (if name = None \<or> name = Some [] then (False, n)
     else if \<not> driver n
     then (False, net_fail NET_C6_NOT_ROUTED NET_REASON_TRANSPORT_UNKNOWN
            (Some ''cannot join: no P4-C6 transport in this build'') now_ms n)
     else if net_rank (net_state n) < net_rank NET_RADIO_READY
     then (False, net_fail (net_state n) NET_REASON_RADIO_FAILURE (Some ''cannot join: radio not ready'') now_ms n)
     else (True, n))"

definition connect_finish :: "bool \<Rightarrow> string option \<Rightarrow> int \<Rightarrow> net \<Rightarrow> bool \<times> net" where
  "connect_finish accepted name now_ms n =
    (if \<not> accepted
     then (False, net_fail (net_state n) NET_REASON_RADIO_FAILURE (Some ''the radio refused the join'') now_ms n)
     else (True, net_enter NET_WIFI_CONNECTING now_ms
             (n\<lparr>ssid := copy_str NET_SSID_LEN name, reason := NET_REASON_NONE, net_detail := []\<rparr>)))"

definition disconnect_finish :: "int \<Rightarrow> net \<Rightarrow> net" where
  "disconnect_finish now_ms n = net_enter NET_WIFI_IDLE now_ms (n\<lparr>ip := [], rssi := 0, channel := 0\<rparr>)"

text \<open>The operations when nothing lands in between; the driver's answer is an argument.\<close>

definition net_link_scan_start :: "bool \<Rightarrow> int \<Rightarrow> net \<Rightarrow> bool \<times> net" where
  "net_link_scan_start answer now_ms n =
    (case net_scan_begin now_ms n of (False, n1) \<Rightarrow> (False, n1)
     | (True, n1) \<Rightarrow> (answer, net_scan_finish answer now_ms n1))"

definition net_link_connect :: "bool \<Rightarrow> string option \<Rightarrow> int \<Rightarrow> net \<Rightarrow> bool \<times> net" where
  "net_link_connect answer name now_ms n =
    (case connect_begin name now_ms n of (False, n1) \<Rightarrow> (False, n1)
     | (True, n1) \<Rightarrow> connect_finish answer name now_ms n1)"

definition net_link_disconnect :: "int \<Rightarrow> net \<Rightarrow> bool \<times> net" where
  "net_link_disconnect now_ms n = (if \<not> driver n then (False, n) else (True, disconnect_finish now_ms n))"

definition net_link_scan_results :: "nat \<Rightarrow> net \<Rightarrow> net_scan_entry list" where
  "net_link_scan_results cap n =
    (let k = (if length (scan_list n) < cap then length (scan_list n) else cap) in take k (scan_list n))"

definition net_link_set_driver :: "bool \<Rightarrow> int \<Rightarrow> net \<Rightarrow> net" where
  "net_link_set_driver present now_ms n0 =
    (let n = n0\<lparr>driver := present\<rparr> in
     if \<not> present
     then net_fail NET_C6_NOT_ROUTED NET_REASON_TRANSPORT_UNKNOWN (Some ''the radio driver withdrew'') now_ms n
     else net_enter NET_C6_BOOTING now_ms (n\<lparr>reason := NET_REASON_NONE, net_detail := []\<rparr>))"

definition net_link_report_state :: "net_state \<Rightarrow> net_reason \<Rightarrow> string option \<Rightarrow> int \<Rightarrow> net \<Rightarrow> net" where
  "net_link_report_state st why d now_ms n0 =
    (let n1 = set_net_detail d ((net_enter st now_ms n0)\<lparr>reason := why\<rparr>);
         n2 = (if net_rank st \<ge> net_rank NET_C6_LINK_READY then n1\<lparr>c6_present := True\<rparr> else n1)
     in if net_rank st < net_rank NET_WIFI_ASSOCIATED then n2\<lparr>ip := [], rssi := 0, channel := 0\<rparr> else n2)"

definition net_link_clear_clock_hold :: "int \<Rightarrow> net \<Rightarrow> net" where
  "net_link_clear_clock_hold now_ms n =
    (if net_state n = NET_IP_READY \<and> reason n = NET_REASON_CLOCK_UNTRUSTED
     then net_enter NET_IP_READY now_ms
            (n\<lparr>reason := NET_REASON_NONE,
               net_detail := copy_str NET_DETAIL_LEN (Some ''clock trusted from the network'')\<rparr>)
     else n)"

definition net_link_report_versions :: "string option \<Rightarrow> string option \<Rightarrow> string option \<Rightarrow> net \<Rightarrow> net" where
  "net_link_report_versions h c p n0 =
    (let n1 = (if h \<noteq> None then n0\<lparr>host_version := copy_str NET_VERSION_LEN h\<rparr> else n0);
         n2 = (if c \<noteq> None then n1\<lparr>c6_version := copy_str NET_VERSION_LEN c\<rparr> else n1);
         n3 = (if p \<noteq> None then n2\<lparr>protocol_version := copy_str NET_VERSION_LEN p\<rparr> else n2)
     in if c \<noteq> None \<and> c \<noteq> Some [] then n3\<lparr>c6_present := True\<rparr> else n3)"

definition net_link_report_scan :: "net_scan_entry list option \<Rightarrow> net \<Rightarrow> net" where
  "net_link_report_scan found n =
    n\<lparr>scan_list := take NET_SCAN_MAX (case found of None \<Rightarrow> [] | Some es \<Rightarrow> es)\<rparr>"

definition net_link_report_association :: "string option \<Rightarrow> string option \<Rightarrow> int \<Rightarrow> int \<Rightarrow> net \<Rightarrow> net" where
  "net_link_report_association name ap level chan n0 =
    (let n1 = (if name \<noteq> None \<and> name \<noteq> Some [] then n0\<lparr>ssid := copy_str NET_SSID_LEN name\<rparr> else n0);
         n2 = (if ap \<noteq> None then n1\<lparr>bssid := copy_str NET_BSSID_LEN ap\<rparr> else n1)
     in n2\<lparr>rssi := level, channel := chan\<rparr>)"

definition net_link_report_ip :: "string option \<Rightarrow> int \<Rightarrow> net \<Rightarrow> net" where
  "net_link_report_ip addr now_ms n =
    (if addr = None \<or> addr = Some [] then n\<lparr>ip := []\<rparr>
     else net_enter NET_IP_READY now_ms
            (n\<lparr>ip := copy_str NET_IP_LEN addr, reason := NET_REASON_NONE, net_detail := []\<rparr>))"

definition net_link_report_transport :: "u64 \<Rightarrow> u64 \<Rightarrow> u32 \<Rightarrow> bool \<Rightarrow> net \<Rightarrow> net" where
  "net_link_report_transport rx tx errors link_up n =
    n\<lparr>rx_bytes := rx, tx_bytes := tx, transport_errors := errors, sdio_link_up := link_up\<rparr>"

definition net_link_report_reset :: "net \<Rightarrow> net" where
  "net_link_report_reset n = n\<lparr>c6_resets := c6_resets n + 1, sdio_link_up := False\<rparr>"

definition net_link_report_reconnect :: "net \<Rightarrow> net" where
  "net_link_report_reconnect n = n\<lparr>reconnects := reconnects n + 1\<rparr>"

definition net_link_report_recovery :: "net \<Rightarrow> net" where
  "net_link_report_recovery n = n\<lparr>net_recoveries := net_recoveries n + 1, sdio_link_up := True\<rparr>"

fun net_state_name :: "net_state \<Rightarrow> string" where
  "net_state_name NET_C6_NOT_ROUTED = ''C6_NOT_ROUTED''"
| "net_state_name NET_C6_ABSENT = ''C6_ABSENT''"
| "net_state_name NET_C6_BOOTING = ''C6_BOOTING''"
| "net_state_name NET_C6_LINK_READY = ''C6_LINK_READY''"
| "net_state_name NET_RADIO_READY = ''RADIO_READY''"
| "net_state_name NET_WIFI_IDLE = ''WIFI_IDLE''"
| "net_state_name NET_WIFI_SCANNING = ''WIFI_SCANNING''"
| "net_state_name NET_WIFI_CONNECTING = ''WIFI_CONNECTING''"
| "net_state_name NET_WIFI_ASSOCIATED = ''WIFI_ASSOCIATED''"
| "net_state_name NET_IP_WAIT = ''IP_WAIT''"
| "net_state_name NET_IP_READY = ''IP_READY''"
| "net_state_name NET_ERROR = ''NETWORK_ERROR''"

fun net_reason_name :: "net_reason \<Rightarrow> string" where
  "net_reason_name NET_REASON_NONE = ''NONE''"
| "net_reason_name NET_REASON_TRANSPORT_UNKNOWN = ''TRANSPORT_UNKNOWN''"
| "net_reason_name NET_REASON_C6_NO_RESPONSE = ''C6_NO_RESPONSE''"
| "net_reason_name NET_REASON_C6_BAD_FIRMWARE = ''C6_BAD_FIRMWARE''"
| "net_reason_name NET_REASON_C6_LINK_LOST = ''C6_LINK_LOST''"
| "net_reason_name NET_REASON_RADIO_FAILURE = ''RADIO_FAILURE''"
| "net_reason_name NET_REASON_AUTH_FAILED = ''AUTH_FAILED''"
| "net_reason_name NET_REASON_NETWORK_NOT_FOUND = ''NETWORK_NOT_FOUND''"
| "net_reason_name NET_REASON_ASSOC_FAILED = ''ASSOC_FAILED''"
| "net_reason_name NET_REASON_DHCP_TIMEOUT = ''DHCP_TIMEOUT''"
| "net_reason_name NET_REASON_DNS_FAILURE = ''DNS_FAILURE''"
| "net_reason_name NET_REASON_NO_CREDENTIALS = ''NO_CREDENTIALS''"
| "net_reason_name NET_REASON_CLOCK_UNTRUSTED = ''CLOCK_UNTRUSTED''"

definition net_wire_state :: "net_state \<Rightarrow> string" where
  "net_wire_state st =
    (case st of NET_IP_READY \<Rightarrow> ''connected''
     | NET_WIFI_CONNECTING \<Rightarrow> ''connecting'' | NET_WIFI_ASSOCIATED \<Rightarrow> ''connecting'' | NET_IP_WAIT \<Rightarrow> ''connecting''
     | _ \<Rightarrow> ''disconnected'')"

fun net_security_name :: "net_security \<Rightarrow> string" where
  "net_security_name NET_SEC_OPEN = ''open''"
| "net_security_name NET_SEC_WPA2 = ''wpa2''"
| "net_security_name NET_SEC_WPA3 = ''wpa3''"

definition net_security_parse :: "string option \<Rightarrow> net_security" where
  "net_security_parse name =
    (if name = None then NET_SEC_WPA2
     else if name = Some ''open'' then NET_SEC_OPEN
     else if name = Some ''wpa3'' then NET_SEC_WPA3
     else NET_SEC_WPA2)"

section \<open>Histories\<close>

text \<open>Everything that takes the module's lock and writes, one event for each locked stretch.\<close>

datatype net_event =
  Init int
| Scan_Begin int | Scan_Finish bool int
| Connect_Begin "string option" int | Connect_Finish bool "string option" int
| Disconnect int | Set_Driver bool int
| State net_state net_reason "string option" int | Clear_Hold int
| Versions "string option" "string option" "string option" | Scan_List "net_scan_entry list option"
| Association "string option" "string option" int int | Address "string option" int
| Transport u64 u64 u32 bool | Reset | Reconnect | Recovery

fun net_apply :: "net_event \<Rightarrow> net \<Rightarrow> net" where
  "net_apply (Init t) n = net_link_init t"
| "net_apply (Scan_Begin t) n = snd (net_scan_begin t n)"
| "net_apply (Scan_Finish a t) n = net_scan_finish a t n"
| "net_apply (Connect_Begin s t) n = snd (connect_begin s t n)"
| "net_apply (Connect_Finish a s t) n = snd (connect_finish a s t n)"
| "net_apply (Disconnect t) n = snd (net_link_disconnect t n)"
| "net_apply (Set_Driver p t) n = net_link_set_driver p t n"
| "net_apply (State st why d t) n = net_link_report_state st why d t n"
| "net_apply (Clear_Hold t) n = net_link_clear_clock_hold t n"
| "net_apply (Versions h c p) n = net_link_report_versions h c p n"
| "net_apply (Scan_List es) n = net_link_report_scan es n"
| "net_apply (Association s b r c) n = net_link_report_association s b r c n"
| "net_apply (Address a t) n = net_link_report_ip a t n"
| "net_apply (Transport rx tx e up) n = net_link_report_transport rx tx e up n"
| "net_apply Reset n = net_link_report_reset n"
| "net_apply Reconnect n = net_link_report_reconnect n"
| "net_apply Recovery n = net_link_report_recovery n"

text \<open>A history is listed newest first.\<close>

fun net_run :: "net_event list \<Rightarrow> net" where
  "net_run [] = zero_net"
| "net_run (e # h) = net_apply e (net_run h)"

text \<open>
  What the history says, without the module: whether a driver is there, the address that still stands,
  and whether an upload may start.
\<close>

fun has_driver :: "net_event list \<Rightarrow> bool" where
  "has_driver [] = False"
| "has_driver (Set_Driver p t # h) = p"
| "has_driver (Init t # h) = False"
| "has_driver (e # h) = has_driver h"

fun standing_address :: "net_event list \<Rightarrow> string" where
  "standing_address [] = []"
| "standing_address (Init t # h) = []"
| "standing_address (Disconnect t # h) = (if has_driver h then [] else standing_address h)"
| "standing_address (State st why d t # h) = (if net_rank st < 8 then [] else standing_address h)"
| "standing_address (Address a t # h) = (case a of None \<Rightarrow> [] | Some s \<Rightarrow> take 15 s)"
| "standing_address (e # h) = standing_address h"

fun may_upload :: "net_event list \<Rightarrow> bool" where
  "may_upload [] = False"
| "may_upload (Init t # h) = False"
| "may_upload (Scan_Begin t # h) = (has_driver h \<and> may_upload h)"
| "may_upload (Scan_Finish a t # h) = (\<not> a \<and> may_upload h)"
| "may_upload (Connect_Begin s t # h) = ((s = None \<or> s = Some [] \<or> has_driver h) \<and> may_upload h)"
| "may_upload (Connect_Finish a s t # h) = (\<not> a \<and> may_upload h)"
| "may_upload (Disconnect t # h) = (\<not> has_driver h \<and> may_upload h)"
| "may_upload (Set_Driver p t # h) = False"
| "may_upload (State st why d t # h) = (st = NET_IP_READY)"
| "may_upload (Address a t # h) = (a \<noteq> None \<and> a \<noteq> Some [] \<or> may_upload h)"
| "may_upload (e # h) = may_upload h"

lemmas net_ops = net_scan_begin_def net_scan_finish_def connect_begin_def connect_finish_def net_link_disconnect_def
  disconnect_finish_def net_link_set_driver_def net_link_report_state_def net_link_clear_clock_hold_def
  net_link_report_versions_def net_link_report_scan_def net_link_report_association_def net_link_report_ip_def
  net_link_report_transport_def net_link_report_reset_def net_link_report_reconnect_def net_link_report_recovery_def
  net_link_init_def net_fail_def set_net_detail_def net_enter_def

lemma run_driver: "driver (net_run h) = has_driver h"
proof (induction h)
  case (Cons e h)
  then show ?case by (cases e) (auto simp: net_ops zero_net_def Let_def)
qed (simp add: zero_net_def)

lemma run_address: "ip (net_run h) = standing_address h"
proof (induction h)
  case (Cons e h)
  then show ?case
    by (cases e) (auto simp: net_ops zero_net_def Let_def run_driver copy_str_def NET_IP_LEN_def split: option.splits)
qed (simp add: zero_net_def)

lemma run_upload: "net_link_can_upload (net_run h) = may_upload h"
proof (induction h)
  case (Cons e h)
  then show ?case
    by (cases e) (auto simp: net_ops net_link_can_upload_def zero_net_def Let_def run_driver)
qed (simp add: zero_net_def net_link_can_upload_def)

section \<open>Widths\<close>

definition net_fits :: "net \<Rightarrow> bool" where
  "net_fits n \<longleftrightarrow> length (ssid n) < NET_SSID_LEN \<and> length (bssid n) < NET_BSSID_LEN \<and> length (ip n) < NET_IP_LEN \<and>
    length (c6_version n) < NET_VERSION_LEN \<and> length (host_version n) < NET_VERSION_LEN \<and>
    length (protocol_version n) < NET_VERSION_LEN \<and> length (net_detail n) < NET_DETAIL_LEN \<and>
    length (scan_list n) \<le> NET_SCAN_MAX"

lemmas net_widths = NET_SSID_LEN_def NET_BSSID_LEN_def NET_IP_LEN_def NET_VERSION_LEN_def NET_DETAIL_LEN_def NET_SCAN_MAX_def

lemma copy_fits: "0 < cap \<Longrightarrow> length (copy_str cap s) < cap"
  by (cases s) (auto simp: copy_str_def)

lemma copies_fit [simp]:
  "length (copy_str NET_SSID_LEN s) < NET_SSID_LEN" "length (copy_str NET_BSSID_LEN s) < NET_BSSID_LEN"
  "length (copy_str NET_IP_LEN s) < NET_IP_LEN" "length (copy_str NET_VERSION_LEN s) < NET_VERSION_LEN"
  "length (copy_str NET_DETAIL_LEN s) < NET_DETAIL_LEN" "0 < NET_IP_LEN" "0 < NET_DETAIL_LEN"
  by (simp_all add: copy_fits net_widths)

lemma apply_fits: "net_fits n \<Longrightarrow> net_fits (net_apply e n)"
  by (cases e) (auto simp: net_ops net_fits_def Let_def zero_net_def)

lemma run_fits: "net_fits (net_run h)"
  by (induction h) (simp_all add: apply_fits, simp add: net_fits_def zero_net_def net_widths)

section \<open>Properties\<close>


text \<open>
  A join can hide the address it brought. The request gives the lock up while the driver is called;
  when the address arrives before it is taken again, the finished request puts the view back to
  connecting: the address is there, but no upload may start until the radio reports anew.
\<close>

theorem late_join_hides_the_address:
  assumes "connect_begin (Some name) t n = (True, n)" "addr \<noteq> []" "length addr < NET_IP_LEN"
  shows "let n' = snd (connect_finish True (Some name) t (net_link_report_ip (Some addr) u n))
    in net_state n' = NET_WIFI_CONNECTING \<and> \<not> net_link_can_upload n' \<and> ip n' = addr"
  using assms by (simp add: connect_finish_def net_link_report_ip_def net_enter_def net_link_can_upload_def
      copy_str_def NET_IP_LEN_def)

definition idle_radio :: net where
  "idle_radio = zero_net\<lparr>driver := True, net_state := NET_WIFI_IDLE, initialised := True\<rparr>"

theorem late_join_hides_the_address_witness:
  "ip (snd (connect_finish True (Some ''attic'') 5 (net_link_report_ip (Some ''10.0.0.7'') 6 idle_radio))) = ''10.0.0.7''"
  using late_join_hides_the_address [of "''attic''" 5 idle_radio "''10.0.0.7''" 6]
  by (simp add: connect_begin_def idle_radio_def NET_IP_LEN_def Let_def)

text \<open>
  An error counts as more than online. The error state is numbered above the ready one, so a report
  of it, for any reason and also for a coprocessor that does not answer, marks the coprocessor
  present, keeps the address and the signal of the network that is gone, and passes the test for a
  state of at least an address, or at least an association.
\<close>

theorem error_state_counts_as_connected:
  "let n' = net_link_report_state NET_ERROR why d t n
   in c6_present n' \<and> ip n' = ip n \<and> rssi n' = rssi n \<and> net_rank (net_state n') \<ge> net_rank NET_IP_READY \<and>
      net_rank (net_state n') \<ge> net_rank NET_WIFI_ASSOCIATED"
  by (simp add: net_link_report_state_def set_net_detail_def net_enter_def Let_def)

end
