(* ===== verification/Qr_Field.thy ===== *)
theory Qr_Field
  imports Kino_Prelude
begin

text \<open>
  The arithmetic of the join code's symbol, from \<^verbatim>\<open>firmware/p4/main/qr.c\<close>: multiplication in the field
  of 256 elements, the generator polynomial and the parity bytes of a block.

  The laws of the field are an interface, \<open>byte_ring\<close> and \<open>byte_field\<close>, in which polynomials given by their
  coefficients, highest power first, are evaluated; what the parity bytes are good for is proved
  there once and holds for the multiplication of the code by interpretation.
\<close>

section \<open>The code\<close>

text \<open>One turn of \<^verbatim>\<open>gf_mul\<close>'s loop, at the width of the C expression, which is \<^verbatim>\<open>int\<close>, and cut to a byte.\<close>

definition gf_step :: "u8 \<Rightarrow> u8 \<Rightarrow> u8 \<Rightarrow> nat \<Rightarrow> u8" where
  "gf_step x y z i =
    (let z1 = (ucast (push_bit 1 (ucast z) XOR ((ucast (drop_bit 7 z) :: u32) * 0x11D)) :: u8) in
     ucast ((ucast z1 :: u32) XOR (ucast (drop_bit i y AND 1) * ucast x)))"

definition gf_mul :: "u8 \<Rightarrow> u8 \<Rightarrow> u8" where
  "gf_mul x y = foldl (gf_step x y) 0 [7, 6, 5, 4, 3, 2, 1, 0]"

text \<open>
  The inner loop of \<^verbatim>\<open>rs_divisor\<close> runs upwards and reads the neighbour it has not changed yet, so that
  one turn of the outer loop is a map over the array and its left shift.
\<close>

definition divisor_turn :: "u8 \<Rightarrow> u8 list \<Rightarrow> u8 list" where
  "divisor_turn root out =
    map (\<lambda>j. if j + 1 < length out then gf_mul (out ! j) root XOR out ! (j + 1) else gf_mul (out ! j) root)
      [0..<length out]"

fun divisor_loop :: "nat \<Rightarrow> u8 \<Rightarrow> u8 list \<Rightarrow> u8 list" where
  "divisor_loop 0 root out = out"
| "divisor_loop (Suc i) root out = divisor_loop i (gf_mul root 2) (divisor_turn root out)"

definition rs_divisor :: "nat \<Rightarrow> u8 list" where
  "rs_divisor degree = divisor_loop degree 1 ((replicate degree 0)[degree - 1 := 1])"

definition remainder_turn :: "u8 list \<Rightarrow> u8 list \<Rightarrow> u8 \<Rightarrow> u8 list" where
  "remainder_turn dvs out b =
    (let factor = b XOR out ! 0; shifted = tl out @ [0]
     in map (\<lambda>j. shifted ! j XOR gf_mul (dvs ! j) factor) [0..<length out])"

definition rs_remainder :: "u8 list \<Rightarrow> u8 list \<Rightarrow> nat \<Rightarrow> u8 list" where
  "rs_remainder data dvs degree = foldl (remainder_turn dvs) (replicate degree 0) data"

section \<open>Polynomials over bytes\<close>

lemma xor_eq_zero_iff [simp]: "(a XOR b = 0) = (a = b)" for a b :: "'a::len word"
  using xor_left_cancel [of a b a] by (simp only: xor_self_eq) blast

lemma xor_double_cancel [simp]: "a XOR (a XOR b) = b" "b XOR (a XOR b) = a" "a XOR (b XOR a) = b"
  for a b :: "'a::len word"
  by (simp_all add: ac_simps flip: xor.assoc)

definition poly_at :: "(u8 \<Rightarrow> u8 \<Rightarrow> u8) \<Rightarrow> u8 \<Rightarrow> u8 list \<Rightarrow> u8" where
  "poly_at mul a p = foldl (\<lambda>acc c. mul acc a XOR c) 0 p"

fun pow_at :: "(u8 \<Rightarrow> u8 \<Rightarrow> u8) \<Rightarrow> u8 \<Rightarrow> nat \<Rightarrow> u8" where
  "pow_at mul a 0 = 1"
| "pow_at mul a (Suc n) = mul (pow_at mul a n) a"

locale byte_ring =
  fixes mul :: "u8 \<Rightarrow> u8 \<Rightarrow> u8"
  assumes mul_comm: "mul x y = mul y x"
    and mul_assoc: "mul (mul x y) z = mul x (mul y z)"
    and mul_one: "mul 1 x = x"
    and mul_xor: "mul x (y XOR z) = mul x y XOR mul x z"
begin

lemma mul_zero [simp]: "mul x 0 = 0" "mul 0 x = 0"
  using mul_xor [of x 0 0] mul_comm [of 0 x] by simp_all

lemma mul_xor_left: "mul (y XOR z) x = mul y x XOR mul z x"
  using mul_xor [of x y z] mul_comm by metis

lemma mul_left_comm: "mul x (mul y z) = mul y (mul x z)"
  by (metis mul_comm mul_assoc)

lemma mul_one_right [simp]: "mul x 1 = x"
  using mul_comm mul_one by metis

lemmas mul_ac = mul_assoc mul_comm mul_left_comm

lemma pow_add: "pow_at mul a (m + n) = mul (pow_at mul a m) (pow_at mul a n)"
  by (induction n) (simp_all add: mul_assoc)

lemma poly_append: "poly_at mul a (p @ q) = mul (poly_at mul a p) (pow_at mul a (length q)) XOR poly_at mul a q"
  by (induction q rule: rev_induct) (simp_all add: poly_at_def mul_xor_left mul_assoc xor.assoc)

lemma poly_Nil [simp]: "poly_at mul a [] = 0"
  by (simp add: poly_at_def)

lemma poly_Cons: "poly_at mul a (c # p) = mul c (pow_at mul a (length p)) XOR poly_at mul a p"
  using poly_append [of a "[c]" p] by (simp add: poly_at_def)

lemma poly_zeros [simp]: "poly_at mul a (replicate n 0) = 0"
  by (induction n) (simp_all add: poly_Cons)

lemma poly_zeros_append [simp]: "poly_at mul a (replicate n 0 @ p) = poly_at mul a p"
  by (simp add: poly_append)

lemma poly_xor:
  "length p = length q \<Longrightarrow> poly_at mul a (map2 (XOR) p q) = poly_at mul a p XOR poly_at mul a q"
proof (induction p q rule: list_induct2)
  case (Cons x xs y ys)
  then show ?case by (simp add: poly_Cons mul_xor_left ac_simps)
qed simp

lemma poly_scale: "poly_at mul a (map (mul f) p) = mul f (poly_at mul a p)"
  by (induction p) (simp_all add: poly_Cons mul_xor mul_assoc)

text \<open>Multiplication by a linear factor, as one turn of the divisor's loop does it, the top coefficient apart.\<close>

lemma poly_linear_factor:
  assumes "p \<noteq> []"
  shows "poly_at mul a (hd p # map2 (XOR) (map (mul r) p) (tl p @ [0])) = mul (a XOR r) (poly_at mul a p)"
proof -
  have "poly_at mul a (hd p # map2 (XOR) (map (mul r) p) (tl p @ [0])) =
      mul (hd p) (pow_at mul a (length p)) XOR (mul r (poly_at mul a p) XOR poly_at mul a (tl p @ [0]))"
    using assms by (simp add: poly_Cons poly_xor poly_scale)
  moreover have "mul (hd p) (pow_at mul a (length p)) XOR poly_at mul a (tl p @ [0]) = mul (poly_at mul a p) a"
  proof -
    have "poly_at mul a (p @ [0]) = mul (hd p) (pow_at mul a (length p)) XOR poly_at mul a (tl p @ [0])"
      using assms poly_Cons [of a "hd p" "tl p @ [0]"] by (cases p) auto
    then show ?thesis by (simp add: poly_append poly_Cons mul_one)
  qed
  ultimately show ?thesis
    by (simp add: mul_xor_left mul_comm [of _ a] xor.left_commute [of "mul (hd p) (pow_at mul a (length p))"] xor.commute)
qed

text \<open>One turn of the division keeps what has been read, followed by the rest, a multiple of the divisor.\<close>

lemma poly_division_turn:
  assumes root: "poly_at mul a (1 # dvs) = 0" and len: "length out = length dvs" "out \<noteq> []"
    and read: "poly_at mul a (d @ out) = 0"
  shows "poly_at mul a ((d @ [b]) @ map2 (XOR) (tl out @ [0]) (map (mul (b XOR hd out)) dvs)) = 0"
proof -
  let ?n = "length dvs" and ?f = "b XOR hd out"
  have top: "poly_at mul a dvs = pow_at mul a ?n"
    using root by (simp add: poly_Cons mul_one)
  have shift: "poly_at mul a (tl out @ [0]) = mul (hd out) (pow_at mul a ?n) XOR mul (poly_at mul a out) a"
  proof -
    have "poly_at mul a (out @ [0]) = mul (hd out) (pow_at mul a ?n) XOR poly_at mul a (tl out @ [0])"
      using len poly_Cons [of a "hd out" "tl out @ [0]"] by (cases out) auto
    then show ?thesis by (simp add: poly_append poly_Cons mul_one)
  qed
  have "poly_at mul a (d @ [b]) = mul (poly_at mul a d) a XOR b"
    by (simp add: poly_append poly_Cons mul_one)
  moreover have "mul (poly_at mul a d) (pow_at mul a ?n) = poly_at mul a out"
    using read len by (simp add: poly_append)
  then have "mul (mul (poly_at mul a d) a) (pow_at mul a ?n) = mul (poly_at mul a out) a"
    by (metis mul_assoc mul_comm)
  moreover have "poly_at mul a (map2 (XOR) (tl out @ [0]) (map (mul ?f) dvs)) =
      mul (poly_at mul a out) a XOR mul b (pow_at mul a ?n)"
  proof -
    have "length (tl out @ [0]) = length (map (mul ?f) dvs)" using len by (cases out) auto
    then show ?thesis using shift top by (simp add: poly_xor poly_scale mul_xor_left ac_simps)
  qed
  moreover have "length (map2 (XOR) (tl out @ [0]) (map (mul ?f) dvs)) = ?n"
    using len by (cases out) auto
  ultimately show ?thesis
    unfolding poly_append [of a "d @ [b]"] by (simp only: mul_xor_left) (simp add: ac_simps)
qed

end

text \<open>
  Without divisors of zero, a few terms cannot vanish at as many consecutive powers: the reason why words of
  the code differ in many places.
\<close>

locale byte_field = byte_ring +
  assumes mul_eq_zero: "mul x y = 0 \<Longrightarrow> x = 0 \<or> y = 0"
begin

definition power_sum :: "nat \<Rightarrow> (u8 \<times> u8) list \<Rightarrow> u8" where
  "power_sum i ts = foldr (\<lambda>(c, x) s. mul c (pow_at mul x i) XOR s) ts 0"

lemma power_sum_Nil [simp]: "power_sum i [] = 0"
  by (simp add: power_sum_def)

lemma power_sum_Cons: "power_sum i ((c, x) # ts) = mul c (pow_at mul x i) XOR power_sum i ts"
  by (simp add: power_sum_def)

lemma power_sum_eliminate:
  "power_sum i (map (\<lambda>(c, x). (mul c (y XOR x), x)) ts) = mul y (power_sum i ts) XOR power_sum (Suc i) ts"
proof (induction ts)
  case (Cons t ts)
  then show ?case
    by (cases t) (simp add: power_sum_Cons mul_xor mul_xor_left mul_ac ac_simps)
qed simp

lemma few_terms_do_not_vanish:
  assumes "distinct (map snd ts)" "\<And>i. i < length ts \<Longrightarrow> power_sum i ts = 0"
  shows "\<forall>t \<in> set ts. fst t = 0"
  using assms
proof (induction "length ts" arbitrary: ts)
  case (Suc n)
  then obtain c y us where ts: "ts = (c, y) # us" by (cases ts) auto
  let ?vs = "map (\<lambda>(c, x). (mul c (y XOR x), x)) us"
  have z: "power_sum i ?vs = 0" if "i < length ?vs" for i
  proof -
    have "power_sum i ts = 0" "power_sum (Suc i) ts = 0" using that Suc.prems(2) ts by auto
    then have "power_sum i us = mul c (pow_at mul y i)" "power_sum (Suc i) us = mul c (pow_at mul y (Suc i))"
      by (simp_all add: ts power_sum_Cons)
    then show ?thesis
      by (simp add: power_sum_eliminate) (metis mul_comm mul_assoc)
  qed
  have "map snd ?vs = map snd us" by (auto simp: case_prod_unfold)
  then have "distinct (map snd ?vs)" using Suc.prems(1) ts by (simp only: list.map distinct.simps)
  then have vs: "\<forall>t \<in> set ?vs. fst t = 0"
    by (intro Suc.hyps(1)) (use Suc.hyps(2) ts z in simp_all)
  have us: "\<forall>t \<in> set us. fst t = 0"
  proof
    fix t assume t: "t \<in> set us"
    obtain d x where dx: "t = (d, x)" by (cases t)
    have "mul d (y XOR x) = 0" using vs t dx by force
    moreover have "y XOR x \<noteq> 0"
    proof
      assume "y XOR x = 0"
      then have "y = x" by simp
      then show False using Suc.prems(1) ts t dx by force
    qed
    ultimately show "fst t = 0" using mul_eq_zero dx by force
  qed
  then have "power_sum 0 us = 0"
    by (induction us) (auto simp: power_sum_Cons)
  then have "c = 0" using Suc.prems(2) [of 0] ts by (simp add: power_sum_Cons)
  then show ?case using us ts by simp
qed simp

end


section \<open>The multiplication of the code is a field's\<close>

definition gf_double :: "u8 \<Rightarrow> u8" where
  "gf_double z = push_bit 1 z XOR (if bit z 7 then 0x1D else 0)"

lemma bit_u8_cases: "(n::nat) < 8 \<longleftrightarrow> n \<in> {0, 1, 2, 3, 4, 5, 6, 7}"
  by auto

lemma bit_u8_range: "bit (w :: u8) n \<Longrightarrow> n < 8"
  using bit_imp_le_length [of w n] by simp

lemma gf_step_double: "gf_step x y z i = gf_double z XOR (if bit y i then x else 0)"
proof -
  have top: "drop_bit 7 z = (if bit z 7 then 1 else 0)"
  proof (rule bit_word_eqI)
    fix n show "bit (drop_bit 7 z) n = bit (if bit z 7 then 1 else 0 :: u8) n"
      by (cases n) (auto simp: bit_simps bit_1_iff dest: bit_u8_range)
  qed
  have low: "drop_bit i y AND 1 = (if bit y i then 1 else 0)"
  proof (rule bit_word_eqI)
    fix n show "bit (drop_bit i y AND 1) n = bit (if bit y i then 1 else 0 :: u8) n"
      by (cases n) (auto simp: bit_simps bit_1_iff)
  qed
  have "(ucast (push_bit 1 (ucast z) XOR ((ucast (drop_bit 7 z) :: u32) * 0x11D)) :: u8) = gf_double z"
    unfolding top gf_double_def
    by (rule bit_word_eqI) (auto simp: bit_simps bit_u8_cases simp del: push_bit_Suc)
  moreover have "(ucast ((ucast w :: u32) XOR (ucast (drop_bit i y AND 1) * ucast x)) :: u8)
      = w XOR (if bit y i then x else 0)" for w :: u8
    unfolding low by (rule bit_word_eqI) (auto simp: bit_simps)
  ultimately show ?thesis by (simp add: gf_step_def Let_def)
qed

lemma gf_double_xor: "gf_double (x XOR y) = gf_double x XOR gf_double y"
  by (rule bit_word_eqI) (auto simp: gf_double_def bit_simps)

lemma gf_double_zero [simp]: "gf_double 0 = 0"
  by (simp add: gf_double_def)

definition gf_horner :: "u8 \<Rightarrow> bool list \<Rightarrow> u8" where
  "gf_horner x bs = foldl (\<lambda>z b. gf_double z XOR (if b then x else 0)) 0 bs"

definition byte_bits :: "u8 \<Rightarrow> bool list" where
  "byte_bits y = map (bit y) [7, 6, 5, 4, 3, 2, 1, 0]"

lemma gf_mul_horner: "gf_mul x y = gf_horner x (byte_bits y)"
  by (simp add: gf_mul_def gf_horner_def byte_bits_def gf_step_double)

lemma gf_horner_snoc [simp]:
  "gf_horner x [] = 0" "gf_horner x (bs @ [b]) = gf_double (gf_horner x bs) XOR (if b then x else 0)"
  by (simp_all add: gf_horner_def)

lemma gf_horner_xor: "gf_horner (x XOR y) bs = gf_horner x bs XOR gf_horner y bs"
  by (induction bs rule: rev_induct) (simp_all add: gf_double_xor ac_simps)

lemma gf_horner_double: "gf_horner (gf_double x) bs = gf_double (gf_horner x bs)"
  by (induction bs rule: rev_induct) (simp_all add: gf_double_xor)

lemma gf_horner_zero [simp]: "gf_horner 0 bs = 0"
  by (induction bs rule: rev_induct) simp_all

lemma gf_horner_commute: "gf_horner (gf_horner x bs) cs = gf_horner (gf_horner x cs) bs"
  by (induction cs rule: rev_induct) (simp_all add: gf_horner_xor gf_horner_double)

lemma gf_double_drop: "gf_double (drop_bit (Suc n) y) XOR (if bit y n then 1 else 0) = drop_bit n y"
proof -
  have "\<not> bit (drop_bit (Suc n) y) 7" by (auto simp: bit_simps dest: bit_u8_range)
  then have "gf_double (drop_bit (Suc n) y) = push_bit 1 (drop_bit (Suc n) y)" by (simp add: gf_double_def)
  moreover have "bit (push_bit 1 (drop_bit (Suc n) y) XOR (if bit y n then 1 else 0)) m = bit (drop_bit n y) m" if "m < 8" for m
    using that by (cases m) (auto simp: bit_simps bit_1_iff simp del: push_bit_Suc)
  ultimately show ?thesis by (intro bit_word_eqI) simp
qed

lemma gf_horner_one: "gf_horner 1 (byte_bits y) = y"
proof -
  have "drop_bit 8 y = 0" by (rule bit_word_eqI) (auto simp: bit_simps dest: bit_u8_range)
  then show ?thesis
    using gf_double_drop [of 7 y] gf_double_drop [of 6 y] gf_double_drop [of 5 y] gf_double_drop [of 4 y]
      gf_double_drop [of 3 y] gf_double_drop [of 2 y] gf_double_drop [of 1 y] gf_double_drop [of 0 y]
    by (simp add: gf_horner_def byte_bits_def eval_nat_numeral)
qed

lemma gf_mul_comm: "gf_mul x y = gf_mul y x"
  by (metis gf_mul_horner gf_horner_commute gf_horner_one)

interpretation gf_ring: byte_ring gf_mul
proof
  fix x y z
  show "gf_mul x y = gf_mul y x" by (rule gf_mul_comm)
  show "gf_mul 1 x = x" by (simp add: gf_mul_horner gf_horner_one)
  show "gf_mul x (y XOR z) = gf_mul x y XOR gf_mul x z"
    by (simp add: gf_mul_comm [of x]) (simp add: gf_mul_horner gf_horner_xor)
  show "gf_mul (gf_mul x y) z = gf_mul x (gf_mul y z)"
    by (metis gf_mul_comm gf_mul_horner gf_horner_commute)
qed


text \<open>
  Two generates the field. Its order divides 255 = 3 * 5 * 17 and none of the three largest proper divisors,
  so its first 255 powers are the bytes other than zero, and no product of two of them is zero.
\<close>

abbreviation gf_pow :: "nat \<Rightarrow> u8" where
  "gf_pow \<equiv> pow_at gf_mul 2"

lemma gf_mul_two: "gf_mul x 2 = gf_double x"
  by (simp add: gf_mul_horner byte_bits_def gf_horner_def)

lemma gf_pow_small:
  "gf_pow 1 = 2" "gf_pow 2 = 4" "gf_pow 4 = 16" "gf_pow 8 = 29" "gf_pow 16 = 76"
  "gf_pow 32 = 157" "gf_pow 64 = 95" "gf_pow 128 = 133"
proof -
  note sq = gf_ring.pow_add [of 2]
  have ev: "gf_mul 2 2 = 4" "gf_mul 4 4 = 16" "gf_mul 16 16 = 29" "gf_mul 29 29 = 76" "gf_mul 76 76 = 157"
    "gf_mul 157 157 = 95" "gf_mul 95 95 = 133"
    by (simp_all add: gf_mul_horner byte_bits_def gf_horner_def gf_double_def)
  show p1: "gf_pow 1 = 2" by (simp add: gf_ring.mul_one)
  show p2: "gf_pow 2 = 4" using ev by (simp add: numeral_2_eq_2 gf_ring.mul_one)
  show p4: "gf_pow 4 = 16" using sq [of 2 2] ev p2 by simp
  show p8: "gf_pow 8 = 29" using sq [of 4 4] ev p4 by simp
  show p16: "gf_pow 16 = 76" using sq [of 8 8] ev p8 by simp
  show p32: "gf_pow 32 = 157" using sq [of 16 16] ev p16 by simp
  show p64: "gf_pow 64 = 95" using sq [of 32 32] ev p32 by simp
  show "gf_pow 128 = 133" using sq [of 64 64] ev p64 by simp
qed

lemma gf_pow_divisors: "gf_pow 255 = 1" "gf_pow 85 \<noteq> 1" "gf_pow 51 \<noteq> 1" "gf_pow 15 \<noteq> 1"
proof -
  note sq = gf_ring.pow_add [of 2] and ev = gf_mul_horner byte_bits_def gf_horner_def gf_double_def
  have p3: "gf_pow 3 = 8" using sq [of 2 1] gf_pow_small(2) by (simp add: gf_ring.mul_one) (simp add: ev)
  have p12: "gf_pow 12 = 205" using sq [of 4 8] gf_pow_small by (simp add: ev)
  have p15: "gf_pow 15 = 38" using sq [of 3 12] p3 p12 by (simp add: ev)
  have p48: "gf_pow 48 = 70" using sq [of 16 32] gf_pow_small by (simp add: ev)
  have p51: "gf_pow 51 = 10" using sq [of 3 48] p3 p48 by (simp add: ev)
  have p5: "gf_pow 5 = 32" using sq [of 4 1] gf_pow_small(3) by (simp add: gf_ring.mul_one) (simp add: ev)
  have p80: "gf_pow 80 = 253" using sq [of 16 64] gf_pow_small by (simp add: ev)
  have p85: "gf_pow 85 = 214" using sq [of 5 80] p5 p80 by (simp add: ev)
  have p170: "gf_pow 170 = 215" using sq [of 85 85] p85 by (simp add: ev)
  show "gf_pow 255 = 1" using sq [of 85 170] p85 p170 by (simp add: ev)
  show "gf_pow 85 \<noteq> 1" "gf_pow 51 \<noteq> 1" "gf_pow 15 \<noteq> 1" by (simp_all add: p85 p51 p15)
qed

lemma gf_pow_multiple: "gf_pow m = 1 \<Longrightarrow> m dvd n \<Longrightarrow> gf_pow n = 1"
proof (elim dvdE)
  fix k assume "gf_pow m = 1" "n = m * k"
  moreover have "gf_pow (m * k) = 1" using \<open>gf_pow m = 1\<close>
    by (induction k) (simp_all add: gf_ring.pow_add gf_ring.mul_one)
  ultimately show "gf_pow n = 1" by simp
qed

lemma gf_pow_mod: "gf_pow n = 1 \<Longrightarrow> gf_pow (m mod n) = gf_pow m"
  using gf_pow_multiple [of n "n * (m div n)"] gf_ring.pow_add [of 2 "n * (m div n)" "m mod n"]
  by (simp add: gf_ring.mul_one)

lemma gf_pow_gcd: "gf_pow m = 1 \<Longrightarrow> gf_pow n = 1 \<Longrightarrow> gf_pow (gcd m n) = 1"
proof (induction m n rule: gcd_nat_induct)
  case (step m n)
  then show ?case by (metis gcd_red_nat gf_pow_mod)
qed simp

lemma proper_divisor_255: "(g :: nat) dvd 255 \<Longrightarrow> g < 255 \<Longrightarrow> g dvd 85 \<or> g dvd 51 \<or> g dvd 15"
proof -
  have "\<forall>g \<in> set [0..<255]. g dvd (255 :: nat) \<longrightarrow> g dvd 85 \<or> g dvd 51 \<or> g dvd 15" by code_simp
  then show "g dvd 255 \<Longrightarrow> g < 255 \<Longrightarrow> g dvd 85 \<or> g dvd 51 \<or> g dvd 15" by simp
qed

lemma gf_pow_not_one: "0 < k \<Longrightarrow> k < 255 \<Longrightarrow> gf_pow k \<noteq> 1"
proof
  assume k: "0 < k" "k < 255" "gf_pow k = 1"
  then have "gf_pow (gcd k 255) = 1" using gf_pow_gcd gf_pow_divisors(1) by blast
  moreover have "gcd k 255 \<le> k" using k(1) by (simp add: gcd_le1_nat)
  then have "gcd k 255 < 255" using k(2) by simp
  ultimately show False
    using proper_divisor_255 [of "gcd k 255"] gf_pow_multiple gf_pow_divisors(2-4) by auto
qed

lemma gf_pow_inj: "i < 255 \<Longrightarrow> j < 255 \<Longrightarrow> gf_pow i = gf_pow j \<Longrightarrow> i = j"
proof (induction i j rule: linorder_wlog)
  case (le i j)
  show ?case
  proof (rule ccontr)
    assume "i \<noteq> j"
    then have ij: "i < j" using le by simp
    have "gf_mul (gf_pow (255 - i)) (gf_pow i) = 1"
      using le gf_pow_divisors(1) gf_ring.pow_add [of 2 "255 - i" i] by simp
    moreover have "gf_mul (gf_pow (255 - i)) (gf_pow j) = gf_pow (j - i)"
      using ij le gf_pow_divisors(1) gf_ring.pow_add [of 2 "255 - i" j] gf_ring.pow_add [of 2 255 "j - i"]
      by (simp add: gf_ring.mul_one)
    ultimately show False using le gf_pow_not_one [of "j - i"] ij by simp
  qed
qed simp

lemma gf_pow_nonzero: "gf_pow i \<noteq> 0"
proof
  assume "gf_pow i = 0"
  then have "gf_pow (i mod 255) = 0" using gf_pow_mod [OF gf_pow_divisors(1)] by simp
  moreover have "gf_mul (gf_pow (i mod 255)) (gf_pow (255 - i mod 255)) = 1"
    using gf_pow_divisors(1) gf_ring.pow_add [of 2 "i mod 255" "255 - i mod 255"] by (simp add: less_imp_le)
  ultimately show False by simp
qed

lemma gf_pow_onto: "x \<noteq> 0 \<Longrightarrow> \<exists>i < 255. x = gf_pow i"
proof -
  assume "x \<noteq> 0"
  have "gf_pow ` {..<255} = UNIV - {0}"
  proof (rule card_subset_eq)
    show "finite (UNIV - {0 :: u8})" by simp
    show "gf_pow ` {..<255} \<subseteq> UNIV - {0}" using gf_pow_nonzero by auto
    have "inj_on gf_pow {..<255}" by (auto simp: inj_on_def intro: gf_pow_inj)
    then show "card (gf_pow ` {..<255}) = card (UNIV - {0 :: u8})"
      by (simp add: card_image card_Diff_subset card_word)
  qed
  then have "x \<in> gf_pow ` {..<255}" using \<open>x \<noteq> 0\<close> by simp
  then show ?thesis by blast
qed

interpretation gf_field: byte_field gf_mul
proof
  fix x y
  assume "gf_mul x y = 0"
  then show "x = 0 \<or> y = 0"
    using gf_pow_onto [of x] gf_pow_onto [of y] gf_ring.pow_add [of 2] gf_pow_nonzero by metis
qed


section \<open>Parity\<close>

lemma divisor_turn_map2:
  assumes "out \<noteq> []"
  shows "divisor_turn root out = map2 (XOR) (map (gf_mul root) out) (tl out @ [0])"
  by (rule nth_equalityI) (use assms in \<open>auto simp: divisor_turn_def nth_append nth_tl gf_mul_comm [of _ root]\<close>)

lemma divisor_turn_length [simp]: "length (divisor_turn root out) = length out"
  by (simp add: divisor_turn_def)

lemma divisor_loop_length [simp]: "length (divisor_loop n root out) = length out"
  by (induction n root out rule: divisor_loop.induct) simp_all

lemma rs_divisor_length [simp]: "length (rs_divisor degree) = degree"
  by (simp add: rs_divisor_def)

text \<open>
  After some turns the array holds a monic polynomial that has grown from the right; its leading one reaches the
  left end before the last turn and is dropped there.
\<close>

definition next_tail :: "u8 \<Rightarrow> u8 list \<Rightarrow> u8 list" where
  "next_tail r q = map2 (XOR) (map (gf_mul r) (1 # q)) (q @ [0])"

lemma next_tail_length [simp]: "length (next_tail r q) = Suc (length q)"
  by (simp add: next_tail_def)

lemma next_tail_poly: "poly_at gf_mul a (1 # next_tail r q) = gf_mul (a XOR r) (poly_at gf_mul a (1 # q))"
  using gf_ring.poly_linear_factor [of "1 # q" a r] by (simp add: next_tail_def)

lemma divisor_turn_monic:
  "divisor_turn r (replicate (Suc k) 0 @ 1 # q) = replicate k 0 @ 1 # next_tail r q"
  "divisor_turn r (1 # q) = next_tail r q"
proof -
  have "zip (replicate (Suc k) 0 @ map (gf_mul r) (1 # q)) (replicate k 0 @ 1 # q @ [0]) =
      zip (replicate k 0) (replicate k 0) @ (0, 1) # zip (map (gf_mul r) (1 # q)) (q @ [0])"
    using zip_append [of "replicate k (0::u8)" "replicate k (0::u8)" "0 # map (gf_mul r) (1 # q)" "1 # q @ [0]"]
    by (simp add: replicate_append_same [symmetric])
  then show "divisor_turn r (replicate (Suc k) 0 @ 1 # q) = replicate k 0 @ 1 # next_tail r q"
    by (simp add: divisor_turn_map2 next_tail_def zip_replicate)
  show "divisor_turn r (1 # q) = next_tail r q"
    by (simp add: divisor_turn_map2 next_tail_def)
qed

lemma divisor_loop_roots:
  assumes "\<And>j. j < length q \<Longrightarrow> poly_at gf_mul (gf_pow j) (1 # q) = 0"
  shows "j \<le> length q + n \<Longrightarrow>
    poly_at gf_mul (gf_pow j) (1 # divisor_loop (Suc n) (gf_pow (length q)) (replicate n 0 @ 1 # q)) = 0"
  using assms
proof (induction n arbitrary: q)
  case 0
  then show ?case
    by (cases "j = length q") (simp_all add: divisor_turn_monic next_tail_poly)
next
  case (Suc n)
  let ?q = "next_tail (gf_pow (length q)) q"
  have "poly_at gf_mul (gf_pow j) (1 # ?q) = 0" if "j < length ?q" for j
    using that Suc.prems(2) [of j] by (cases "j = length q") (simp_all add: next_tail_poly)
  then have "poly_at gf_mul (gf_pow j) (1 # divisor_loop (Suc n) (gf_pow (length ?q)) (replicate n 0 @ 1 # ?q)) = 0"
    using Suc.IH [of ?q] Suc.prems(1) by simp
  then show ?case
    by (simp add: divisor_turn_monic(1) del: replicate_Suc)
qed

lemma rs_divisor_roots:
  "j < degree \<Longrightarrow> poly_at gf_mul (gf_pow j) (1 # rs_divisor degree) = 0"
proof -
  assume j: "j < degree"
  then obtain n where n: "degree = Suc n" by (cases degree) auto
  have "(replicate (Suc n) (0::u8))[n := 1] = replicate n 0 @ [1]"
    using list_update_length [of "replicate n (0::u8)" 0 "[]" 1] by (simp add: replicate_append_same)
  then show ?thesis using divisor_loop_roots [of "[]" j n] j n by (simp add: rs_divisor_def)
qed

lemma remainder_turn_map2:
  assumes "length out = length dvs" "out \<noteq> []"
  shows "remainder_turn dvs out b = map2 (XOR) (tl out @ [0]) (map (gf_mul (b XOR hd out)) dvs)"
  by (rule nth_equalityI)
    (use assms in \<open>auto simp: remainder_turn_def Let_def nth_append nth_tl hd_conv_nth gf_mul_comm [of _ "b XOR out ! 0"]\<close>)

lemma rs_remainder_length [simp]: "length (rs_remainder data dvs degree) = degree"
proof -
  have "length (foldl (remainder_turn dvs) out data) = length out" for out
    by (induction data arbitrary: out) (simp_all add: remainder_turn_def Let_def)
  then show ?thesis by (simp add: rs_remainder_def)
qed

lemma rs_remainder_root:
  assumes "poly_at gf_mul a (1 # dvs) = 0" "length dvs = degree" "0 < degree"
  shows "poly_at gf_mul a (data @ rs_remainder data dvs degree) = 0"
proof (induction data rule: rev_induct)
  case Nil
  then show ?case by (simp add: rs_remainder_def)
next
  case (snoc b data)
  let ?out = "rs_remainder data dvs degree"
  have l: "length ?out = length dvs" and n: "?out \<noteq> []"
    using assms by (simp_all flip: length_0_conv)
  have "rs_remainder (data @ [b]) dvs degree = remainder_turn dvs ?out b" by (simp add: rs_remainder_def)
  then show ?case
    using gf_ring.poly_division_turn [OF assms(1) l n snoc.IH, of b] by (simp add: remainder_turn_map2 [OF l n])
qed

section \<open>What the parity bytes are good for\<close>

definition rs_codeword :: "nat \<Rightarrow> u8 list \<Rightarrow> u8 list" where
  "rs_codeword degree data = data @ rs_remainder data (rs_divisor degree) degree"

definition differing :: "'a list \<Rightarrow> 'a list \<Rightarrow> nat" where
  "differing xs ys = length (filter (\<lambda>(x, y). x \<noteq> y) (zip xs ys))"

lemma rs_codeword_roots:
  "j < degree \<Longrightarrow> poly_at gf_mul (gf_pow j) (rs_codeword degree data) = 0"
  unfolding rs_codeword_def by (rule rs_remainder_root) (simp_all add: rs_divisor_roots)


fun codeword_terms :: "u8 list \<Rightarrow> (u8 \<times> u8) list" where
  "codeword_terms [] = []"
| "codeword_terms (c # cs) = (if c = 0 then codeword_terms cs else (c, gf_pow (length cs)) # codeword_terms cs)"

lemma gf_pow_pow: "pow_at gf_mul (gf_pow a) b = gf_pow (a * b)"
  by (induction b) (simp_all add: gf_ring.pow_add gf_mul_comm)

lemma codeword_terms_sum: "gf_field.power_sum j (codeword_terms p) = poly_at gf_mul (gf_pow j) p"
  by (induction p) (simp_all add: gf_field.power_sum_Cons gf_ring.poly_Cons gf_pow_pow mult.commute)

lemma codeword_terms_positions: "x \<in> snd ` set (codeword_terms p) \<Longrightarrow> \<exists>k < length p. x = gf_pow k"
  by (induction p) (auto split: if_splits intro: less_SucI)

lemma codeword_terms_distinct: "length p \<le> 255 \<Longrightarrow> distinct (map snd (codeword_terms p))"
proof (induction p)
  case (Cons c cs)
  have "gf_pow (length cs) \<notin> snd ` set (codeword_terms cs)"
  proof
    assume "gf_pow (length cs) \<in> snd ` set (codeword_terms cs)"
    then obtain k where "k < length cs" "gf_pow (length cs) = gf_pow k" using codeword_terms_positions by blast
    then show False using gf_pow_inj [of "length cs" k] Cons.prems by simp
  qed
  then show ?case using Cons by simp
qed simp

lemma codeword_terms_nonzero: "t \<in> set (codeword_terms p) \<Longrightarrow> fst t \<noteq> 0"
  by (induction p) (auto split: if_splits)

lemma codeword_terms_differing:
  "length xs = length ys \<Longrightarrow> length (codeword_terms (map2 (XOR) xs ys)) = differing xs ys"
  by (induction xs ys rule: list_induct2) (simp_all add: differing_def)

lemma differing_zero: "length xs = length ys \<Longrightarrow> differing xs ys = 0 \<Longrightarrow> xs = ys"
  by (induction xs ys rule: list_induct2) (auto simp: differing_def split: if_splits)

lemma codewords_apart:
  assumes "length d1 = length d2" "d1 \<noteq> d2" "length d1 + degree \<le> 255"
  shows "degree < differing (rs_codeword degree d1) (rs_codeword degree d2)"
proof (rule ccontr)
  let ?c1 = "rs_codeword degree d1" and ?c2 = "rs_codeword degree d2"
  let ?p = "map2 (XOR) ?c1 ?c2"
  assume "\<not> degree < differing ?c1 ?c2"
  moreover have l: "length ?c1 = length ?c2" using assms(1) by (simp add: rs_codeword_def)
  ultimately have few: "length (codeword_terms ?p) \<le> degree" by (simp add: codeword_terms_differing)
  have "gf_field.power_sum j (codeword_terms ?p) = 0" if "j < length (codeword_terms ?p)" for j
    using that few l rs_codeword_roots [of j degree] by (simp add: codeword_terms_sum gf_ring.poly_xor)
  moreover have "distinct (map snd (codeword_terms ?p))"
    by (rule codeword_terms_distinct) (use assms l in \<open>simp add: rs_codeword_def\<close>)
  ultimately have "codeword_terms ?p = []"
    using gf_field.few_terms_do_not_vanish [of "codeword_terms ?p"] codeword_terms_nonzero
    by (metis last_in_set)
  then have "?c1 = ?c2" using l codeword_terms_differing [OF l] differing_zero by simp
  then show False using assms(1,2) by (simp add: rs_codeword_def)
qed

section \<open>Properties\<close>

text \<open>
  The byte multiplication of the symbol's error correction is that of a field: it commutes, associates,
  distributes over exclusive or, has one as its unit, and every byte but zero is a power of two,
  so that no product of two such bytes is zero.
\<close>

theorem gf_mul_is_a_field:
  "gf_mul x y = gf_mul y x \<and> gf_mul (gf_mul x y) z = gf_mul x (gf_mul y z) \<and>
   gf_mul x (y XOR z) = gf_mul x y XOR gf_mul x z \<and> gf_mul 1 x = x \<and>
   (gf_mul x y = 0 \<longleftrightarrow> x = 0 \<or> y = 0) \<and> (x = 0 \<or> x \<in> gf_pow ` {..<255})"
  using gf_field.mul_eq_zero [of x y] gf_pow_onto [of x]
  by (intro conjI gf_mul_comm gf_ring.mul_assoc gf_ring.mul_xor gf_ring.mul_one) auto

text \<open>
  C14: Parity bytes tell blocks apart. Two different data blocks of the same length, followed by the parity bytes
  the camera computes for them, differ in more places than there are parity bytes, as long as a
  block and its parity have at most 255 bytes; half as many damaged bytes can therefore be put right.
\<close>

theorem parity_separates_blocks:
  assumes "length d1 = length d2" "d1 \<noteq> d2" "length d1 + degree \<le> 255"
  shows "degree < differing (d1 @ rs_remainder d1 (rs_divisor degree) degree)
                            (d2 @ rs_remainder d2 (rs_divisor degree) degree)"
  using codewords_apart [OF assms] by (simp add: rs_codeword_def)

theorem parity_separates_blocks_witness:
  "10 < differing ([1, 2] @ rs_remainder [1, 2] (rs_divisor 10) 10) ([1, 3] @ rs_remainder [1, 3] (rs_divisor 10) 10)"
  using parity_separates_blocks [of "[1, 2]" "[1, 3]" 10] by simp

end
