(* ===== verification/Qr_Symbol.thy ===== *)
theory Qr_Symbol
  imports Kino_Prelude
begin

text \<open>
  The modules of the join code's symbol, from \<^verbatim>\<open>firmware/p4/main/qr.c\<close>: packed grids of modules, the function
  patterns every symbol has, the format word, the data masks and the penalty score.

  A grid is the C array of rows of bytes. The interface \<open>module_grid\<close> says what reading a module after
  writing another gives; sequences of writes are understood there, and the packed grids are its
  interpretation.
\<close>

section \<open>Packed grids\<close>

definition QR_MAX_VERSION :: nat where "QR_MAX_VERSION = 10"
definition QR_MAX_SIZE :: nat where "QR_MAX_SIZE = 57"
definition QR_ROW_BYTES :: nat where "QR_ROW_BYTES = 8"

type_synonym grid = "u8 list list"

definition empty_grid :: grid where
  "empty_grid = replicate QR_MAX_SIZE (replicate QR_ROW_BYTES 0)"

definition gget :: "grid \<Rightarrow> nat \<Rightarrow> nat \<Rightarrow> bool" where
  "gget g x y \<longleftrightarrow> drop_bit (7 - x mod 8) (g ! y ! (x div 8)) AND 1 = 1"

definition gset :: "grid \<Rightarrow> nat \<Rightarrow> nat \<Rightarrow> bool \<Rightarrow> grid" where
  "gset g x y v =
    (let m = drop_bit (x mod 8) 0x80; old = g ! y ! (x div 8)
     in g[y := (g ! y)[x div 8 := if v then old OR m else old AND NOT m]])"

section \<open>Function patterns\<close>

definition mark :: "nat \<Rightarrow> grid \<times> grid \<Rightarrow> int \<times> int \<times> bool \<Rightarrow> grid \<times> grid" where
  "mark sz s = (\<lambda>(x, y, dark).
    if x < 0 \<or> y < 0 \<or> x \<ge> int sz \<or> y \<ge> int sz then s
    else (gset (fst s) (nat x) (nat y) dark, gset (snd s) (nat x) (nat y) True))"

text \<open>The square of marks around a corner or a centre, row by row, as the two inner loops draw it.\<close>

definition square_marks :: "(int \<Rightarrow> int \<Rightarrow> bool) \<Rightarrow> int \<Rightarrow> int \<Rightarrow> int \<times> int \<Rightarrow> (int \<times> int \<times> bool) list" where
  "square_marks dark lo hi c = [(fst c + dx, snd c + dy, dark dx dy). dy \<leftarrow> [lo..hi], dx \<leftarrow> [lo..hi]]"

definition finder_dark :: "int \<Rightarrow> int \<Rightarrow> bool" where
  "finder_dark dx dy =
    (let inner = dx \<ge> 0 \<and> dx \<le> 6 \<and> dy \<ge> 0 \<and> dy \<le> 6;
         ring = dx = 0 \<or> dx = 6 \<or> dy = 0 \<or> dy = 6;
         core = dx \<ge> 2 \<and> dx \<le> 4 \<and> dy \<ge> 2 \<and> dy \<le> 4
     in inner \<and> (ring \<or> core))"

definition finder_marks :: "nat \<Rightarrow> (int \<times> int \<times> bool) list" where
  "finder_marks sz =
    concat (map (square_marks finder_dark (-1) 7) [(0, 0), (int sz - 7, 0), (0, int sz - 7)])"

definition timing_turn :: "nat \<Rightarrow> grid \<times> grid \<Rightarrow> nat \<Rightarrow> grid \<times> grid" where
  "timing_turn sz s i =
    (let s1 = (if \<not> gget (snd s) i 6 then mark sz s (int i, 6, i mod 2 = 0) else s)
     in if \<not> gget (snd s1) 6 i then mark sz s1 (6, int i, i mod 2 = 0) else s1)"

definition kAlign :: "nat list list" where
  "kAlign = [[0, 0, 0], [0, 0, 0], [6, 18, 0], [6, 22, 0], [6, 26, 0], [6, 30, 0],
             [6, 34, 0], [6, 22, 38], [6, 24, 42], [6, 26, 46], [6, 28, 50]]"

definition align_count :: "nat \<Rightarrow> nat" where
  "align_count v = (if v \<ge> 7 then 3 else if v \<ge> 2 then 2 else 0)"

definition align_centres :: "nat \<Rightarrow> (nat \<times> nat) list" where
  "align_centres v =
    (let n = align_count v in
     [(kAlign ! v ! i, kAlign ! v ! j). i \<leftarrow> [0..<n], j \<leftarrow> [0..<n],
      \<not> (i = 0 \<and> j = 0 \<or> i = 0 \<and> j = n - 1 \<or> i = n - 1 \<and> j = 0)])"

definition align_dark :: "int \<Rightarrow> int \<Rightarrow> bool" where
  "align_dark dx dy = (let edge = dx = -2 \<or> dx = 2 \<or> dy = -2 \<or> dy = 2 in edge \<or> dx = 0 \<and> dy = 0)"

definition align_marks :: "nat \<Rightarrow> (int \<times> int \<times> bool) list" where
  "align_marks v = concat (map (\<lambda>(cx, cy). square_marks align_dark (-2) 2 (int cx, int cy)) (align_centres v))"

definition format_marks :: "nat \<Rightarrow> (int \<times> int \<times> bool) list" where
  "format_marks sz =
    concat [[(8, i, False), (i, 8, False)]. i \<leftarrow> [0..8], i \<noteq> 6] @
    [(int sz - 1 - i, 8, False). i \<leftarrow> [0..7]] @
    [(8, int sz - 1 - i, False). i \<leftarrow> [0..6]] @
    [(8, int sz - 8, True)]"

definition version_word :: "nat \<Rightarrow> u32" where
  "version_word v =
    (let rem = foldl (\<lambda>r _. push_bit 1 r XOR (drop_bit 11 r AND 1) * 0x1F25) (of_nat v) [0..<12]
     in push_bit 12 (of_nat v) OR rem AND 0xFFF)"

definition version_marks :: "nat \<Rightarrow> nat \<Rightarrow> (int \<times> int \<times> bool) list" where
  "version_marks v sz =
    (if v \<ge> 7
     then concat [let b = bit (version_word v) i; across = int sz - 11 + int (i mod 3); along = int (i div 3)
                  in [(across, along, b), (along, across, b)]. i \<leftarrow> [0..<18]]
     else [])"

definition draw_function_patterns :: "nat \<Rightarrow> nat \<Rightarrow> grid \<times> grid \<Rightarrow> grid \<times> grid" where
  "draw_function_patterns v sz s0 =
    (let s1 = foldl (mark sz) s0 (finder_marks sz);
         s2 = foldl (timing_turn sz) s1 [0..<sz];
         s3 = foldl (mark sz) s2 (align_marks v);
         s4 = foldl (mark sz) s3 (format_marks sz)
     in foldl (mark sz) s4 (version_marks v sz))"

section \<open>Format, masks and rendering\<close>

definition format_word :: "nat \<Rightarrow> u32" where
  "format_word m =
    (let rem = foldl (\<lambda>r _. push_bit 1 r XOR (drop_bit 9 r AND 1) * 0x537) (of_nat m) [0..<10]
     in (push_bit 10 (of_nat m) OR rem AND 0x3FF) XOR 0x5412)"

definition format_writes :: "nat \<Rightarrow> u32 \<Rightarrow> (nat \<times> nat \<times> bool) list" where
  "format_writes sz bits =
    [(8, i, bit bits i). i \<leftarrow> [0..<6]] @
    [(8, 7, bit bits 6), (8, 8, bit bits 7), (7, 8, bit bits 8)] @
    [(14 - i, 8, bit bits i). i \<leftarrow> [9..<15]] @
    [(sz - 1 - i, 8, bit bits i). i \<leftarrow> [0..<8]] @
    [(8, sz - 15 + i, bit bits i). i \<leftarrow> [8..<15]] @
    [(8, sz - 8, True)]"

definition gset_all :: "grid \<Rightarrow> (nat \<times> nat \<times> bool) list \<Rightarrow> grid" where
  "gset_all = foldl (\<lambda>g (x, y, v). gset g x y v)"

definition draw_format :: "nat \<Rightarrow> nat \<Rightarrow> grid \<Rightarrow> grid" where
  "draw_format sz m g = gset_all g (format_writes sz (format_word m))"

definition mask_at :: "nat \<Rightarrow> nat \<Rightarrow> nat \<Rightarrow> bool" where
  "mask_at m x y =
    (if m = 0 then (y + x) mod 2 = 0
     else if m = 1 then y mod 2 = 0
     else if m = 2 then x mod 3 = 0
     else if m = 3 then (y + x) mod 3 = 0
     else if m = 4 then (y div 2 + x div 3) mod 2 = 0
     else if m = 5 then (y * x) mod 2 + (y * x) mod 3 = 0
     else if m = 6 then ((y * x) mod 2 + (y * x) mod 3) mod 2 = 0
     else ((y + x) mod 2 + (y * x) mod 3) mod 2 = 0)"

definition all_cells :: "nat \<Rightarrow> (nat \<times> nat) list" where
  "all_cells sz = [(x, y). y \<leftarrow> [0..<sz], x \<leftarrow> [0..<sz]]"

definition mask_cell :: "nat \<Rightarrow> grid \<Rightarrow> grid \<Rightarrow> nat \<times> nat \<Rightarrow> grid" where
  "mask_cell m rsv g = (\<lambda>(x, y).
    if gget rsv x y then g
    else if mask_at m x y then gset g x y (\<not> gget g x y) else g)"

definition render :: "grid \<Rightarrow> grid \<Rightarrow> nat \<Rightarrow> nat \<Rightarrow> grid" where
  "render base rsv sz m = draw_format sz m (foldl (mask_cell m rsv) base (all_cells sz))"

section \<open>Penalty\<close>

text \<open>One direction of a sweep: the colour of the running module, the run's length and the last eleven modules.\<close>

record sweep_line =
  prev :: bool
  run :: nat
  win :: nat

definition run_score :: "nat \<Rightarrow> nat" where
  "run_score r = (if r \<ge> 5 then 3 + r - 5 else 0)"

definition run_turn :: "bool \<Rightarrow> nat \<times> sweep_line \<Rightarrow> nat \<times> sweep_line" where
  "run_turn v = (\<lambda>(p, l).
    if v = prev l then (p, l\<lparr>run := run l + 1\<rparr>)
    else (p + run_score (run l), l\<lparr>prev := v, run := 1\<rparr>))"

definition win_turn :: "bool \<Rightarrow> sweep_line \<Rightarrow> sweep_line" where
  "win_turn v l = l\<lparr>win := (2 * win l) mod 2048 + (if v then 1 else 0)\<rparr>"

definition win_score :: "sweep_line \<Rightarrow> nat" where
  "win_score l = (if win l = 0x5D0 \<or> win l = 0x05D then 40 else 0)"

definition sweep_turn :: "grid \<Rightarrow> nat \<Rightarrow> nat \<times> nat \<times> sweep_line \<times> sweep_line \<Rightarrow> nat \<Rightarrow> nat \<times> nat \<times> sweep_line \<times> sweep_line" where
  "sweep_turn g a = (\<lambda>(p, dark, lh, lv) b.
    let h = gget g b a; v = gget g a b;
        (p1, h1) = run_turn h (p, lh);
        (p2, v1) = run_turn v (p1, lv);
        h2 = win_turn h h1; v2 = win_turn v v1;
        p3 = (if b \<ge> 10 then p2 + win_score h2 + win_score v2 else p2)
    in (p3, dark + (if h then 1 else 0), h2, v2))"

definition sweep :: "grid \<Rightarrow> nat \<Rightarrow> nat \<times> nat \<Rightarrow> nat \<Rightarrow> nat \<times> nat" where
  "sweep g sz = (\<lambda>(p, dark) a.
    let lh = \<lparr>prev = gget g 0 a, run = 0, win = 0\<rparr>; lv = \<lparr>prev = gget g a 0, run = 0, win = 0\<rparr>;
        (p1, dark1, lh1, lv1) = foldl (sweep_turn g a) (p, dark, lh, lv) [0..<sz]
    in (p1 + run_score (run lh1) + run_score (run lv1), dark1))"

definition block_score :: "grid \<Rightarrow> nat \<Rightarrow> nat \<Rightarrow> nat" where
  "block_score g x y =
    (let s = (if gget g x y then 1 else 0) + (if gget g (x + 1) y then 1 else 0) +
             (if gget g x (y + 1) then 1 else 0) + (if gget g (x + 1) (y + 1) then 1 else 0 :: nat)
     in if s = 0 \<or> s = 4 then 3 else 0)"

definition penalty :: "grid \<Rightarrow> nat \<Rightarrow> nat" where
  "penalty g sz =
    (let (p, dark) = foldl (sweep g sz) (0, 0) [0..<sz];
         p2 = foldl (\<lambda>q (x, y). q + block_score g x y) p (all_cells (sz - 1));
         tot = sz * sz;
         dev = \<bar>int dark * 100 - int tot * 50\<bar>
     in p2 + nat (dev div (5 * int tot)) * 10)"

section \<open>Reading after writing\<close>

locale module_grid =
  fixes get :: "'g \<Rightarrow> nat \<Rightarrow> nat \<Rightarrow> bool"
    and put :: "'g \<Rightarrow> nat \<Rightarrow> nat \<Rightarrow> bool \<Rightarrow> 'g"
    and ok :: "'g \<Rightarrow> bool"
    and lim :: nat
  assumes put_ok: "ok g \<Longrightarrow> ok (put g x y v)"
    and get_put: "ok g \<Longrightarrow> x < lim \<Longrightarrow> y < lim \<Longrightarrow> x' < lim \<Longrightarrow> y' < lim \<Longrightarrow>
      get (put g x y v) x' y' = (if x = x' \<and> y = y' then v else get g x' y')"
begin

definition put_all :: "'g \<Rightarrow> (nat \<times> nat \<times> bool) list \<Rightarrow> 'g" where
  "put_all = foldl (\<lambda>g (x, y, v). put g x y v)"

lemma put_all_simps [simp]:
  "put_all g [] = g" "put_all g ((x, y, v) # ws) = put_all (put g x y v) ws"
  "put_all g (ws @ ws') = put_all (put_all g ws) ws'"
  by (simp_all add: put_all_def)

lemma put_all_ok: "ok g \<Longrightarrow> ok (put_all g ws)"
  by (induction ws arbitrary: g) (auto simp: put_ok)

lemma get_put_all:
  assumes "ok g" "\<And>x y v. (x, y, v) \<in> set ws \<Longrightarrow> x < lim \<and> y < lim" "x < lim" "y < lim"
  shows "get (put_all g ws) x y =
    (case map_of (rev (map (\<lambda>(x, y, v). ((x, y), v)) ws)) (x, y) of None \<Rightarrow> get g x y | Some v \<Rightarrow> v)"
  using assms(2)
proof (induction ws rule: rev_induct)
  case (snoc w ws)
  obtain a b v where w: "w = (a, b, v)" by (cases w)
  have "get (put_all g ws) x y =
    (case map_of (rev (map (\<lambda>(x, y, v). ((x, y), v)) ws)) (x, y) of None \<Rightarrow> get g x y | Some v \<Rightarrow> v)"
    using snoc by auto
  then show ?case
    using snoc.prems [of a b v] assms put_all_ok [OF assms(1)] w by (auto simp: get_put)
qed simp

lemma get_put_all_untouched:
  assumes "ok g" "\<And>x y v. (x, y, v) \<in> set ws \<Longrightarrow> x < lim \<and> y < lim" "x < lim" "y < lim"
    "\<And>v. (x, y, v) \<notin> set ws"
  shows "get (put_all g ws) x y = get g x y"
proof -
  have "map_of (rev (map (\<lambda>(x, y, v). ((x, y), v)) ws)) (x, y) = None"
    using assms(5) by (force simp: map_of_eq_None_iff)
  then show ?thesis using get_put_all [OF assms(1-4)] by simp
qed

end

definition wf_grid :: "grid \<Rightarrow> bool" where
  "wf_grid g \<longleftrightarrow> length g = 57 \<and> list_all (\<lambda>r. length r = 8) g"

lemma gget_bit: "gget g x y = bit (g ! y ! (x div 8)) (7 - x mod 8)"
proof -
  have "(w AND 1 = 1) = bit w 0" for w :: u8
    by (simp add: and_one_eq bit_0 odd_iff_mod_2_eq_one flip: of_bool_def)
  then show ?thesis by (simp add: gget_def bit_simps)
qed

lemma row_length: "wf_grid g \<Longrightarrow> y < 57 \<Longrightarrow> length (g ! y) = 8"
  by (simp add: wf_grid_def list_all_length)

lemma mask_bit: "i < 8 \<Longrightarrow> j < 8 \<Longrightarrow> bit (drop_bit i 0x80 :: u8) (7 - j) = (i = j)"
proof -
  assume ij: "i < 8" "j < 8"
  have "bit (2 ^ 7 :: u8) n = (n = 7)" for n by (auto simp: bit_exp_iff simp del: power_numeral_even power_numeral_odd power_numeral)
  then have "bit (drop_bit i 0x80 :: u8) (7 - j) = (i + (7 - j) = 7)" by (simp add: bit_simps)
  then show ?thesis using ij by auto
qed

interpretation packed: module_grid gget gset wf_grid 57
proof
  fix g :: grid and x y :: nat and v
  assume "wf_grid g"
  then show "wf_grid (gset g x y v)"
    by (cases "y < 57") (auto simp: wf_grid_def gset_def Let_def list_all_length nth_list_update)
next
  fix g :: grid and x y x' y' :: nat and v
  assume g: "wf_grid g" and xy: "x < 57" "y < 57" "x' < 57" "y' < 57"
  show "gget (gset g x y v) x' y' = (if x = x' \<and> y = y' then v else gget g x' y')"
  proof (cases "y = y' \<and> x div 8 = x' div 8")
    case True
    then have "x = x' \<longleftrightarrow> x mod 8 = x' mod 8" by (metis div_mult_mod_eq)
    moreover have "7 - x' mod 8 < 8" by simp
    ultimately show ?thesis
      using True g xy row_length [OF g, of y]
      by (auto simp: gget_bit gset_def Let_def wf_grid_def bit_or_iff bit_and_iff bit_not_iff mask_bit)
  next
    case False
    then show ?thesis
      using g xy by (cases "y = y'") (auto simp: gget_bit gset_def Let_def nth_list_update wf_grid_def)
  qed
qed

lemma empty_grid_ok: "wf_grid empty_grid" "x < 57 \<Longrightarrow> y < 57 \<Longrightarrow> \<not> gget empty_grid x y"
  by (simp_all add: empty_grid_def wf_grid_def QR_MAX_SIZE_def QR_ROW_BYTES_def gget_bit list_all_length)


section \<open>Which modules are taken\<close>

text \<open>
  A module belongs to a function pattern when it is in one of the three corner squares, on a timing line, within
  two modules of an alignment centre, or in a version block.
\<close>

definition near :: "nat \<Rightarrow> nat \<Rightarrow> nat \<times> nat \<Rightarrow> bool" where
  "near x y = (\<lambda>(cx, cy). cx \<le> x + 2 \<and> x \<le> cx + 2 \<and> cy \<le> y + 2 \<and> y \<le> cy + 2)"

definition corner :: "nat \<Rightarrow> nat \<Rightarrow> nat \<Rightarrow> nat \<Rightarrow> bool" where
  "corner k sz x y \<longleftrightarrow> x < k \<and> y < k \<or> sz \<le> x + 8 \<and> y < k \<or> x < k \<and> sz \<le> y + 8"

definition reserved :: "nat \<Rightarrow> nat \<Rightarrow> nat \<Rightarrow> nat \<Rightarrow> bool" where
  "reserved v sz x y \<longleftrightarrow> corner 9 sz x y \<or> x = 6 \<or> y = 6 \<or> list_ex (near x y) (align_centres v) \<or>
     v \<ge> 7 \<and> (y < 6 \<and> sz \<le> x + 11 \<or> x < 6 \<and> sz \<le> y + 11)"

definition marked :: "(int \<times> int \<times> bool) list \<Rightarrow> nat \<Rightarrow> nat \<Rightarrow> bool" where
  "marked ms x y \<longleftrightarrow> (\<exists>d. (int x, int y, d) \<in> set ms)"

definition wf_pair :: "grid \<times> grid \<Rightarrow> bool" where
  "wf_pair s \<longleftrightarrow> wf_grid (fst s) \<and> wf_grid (snd s)"

lemma mark_ok: "wf_pair s \<Longrightarrow> wf_pair (mark sz s m)"
  by (auto simp: wf_pair_def mark_def packed.put_ok split: prod.splits)

lemma marks_ok: "wf_pair s \<Longrightarrow> wf_pair (foldl (mark sz) s ms)"
  by (induction ms arbitrary: s) (simp_all add: mark_ok)

lemma mark_reserves:
  assumes "wf_pair s" "sz \<le> 57" "x < sz" "y < sz"
  shows "gget (snd (mark sz s (a, b, d))) x y \<longleftrightarrow> gget (snd s) x y \<or> (int x, int y) = (a, b)"
  using assms by (auto simp: mark_def wf_pair_def packed.get_put split: if_splits)

lemma marks_reserve:
  assumes "wf_pair s" "sz \<le> 57" "x < sz" "y < sz"
  shows "gget (snd (foldl (mark sz) s ms)) x y \<longleftrightarrow> gget (snd s) x y \<or> marked ms x y"
  using assms(1)
proof (induction ms arbitrary: s)
  case (Cons m ms)
  obtain a b d where m: "m = (a, b, d)" by (cases m)
  show ?case
    using Cons.IH [OF mark_ok [OF Cons.prems]] mark_reserves [OF Cons.prems assms(2-4), of a b d] m
    by (auto simp: marked_def)
qed (simp add: marked_def)

lemma timing_turn_ok: "wf_pair s \<Longrightarrow> wf_pair (timing_turn sz s i)"
  by (simp add: timing_turn_def Let_def mark_ok)

lemma timing_reserves:
  assumes "wf_pair s" "sz \<le> 57" "6 < sz" "x < sz" "y < sz"
  shows "n \<le> sz \<Longrightarrow> wf_pair (foldl (timing_turn sz) s [0..<n]) \<and>
    (gget (snd (foldl (timing_turn sz) s [0..<n])) x y \<longleftrightarrow> gget (snd s) x y \<or> y = 6 \<and> x < n \<or> x = 6 \<and> y < n)"
proof (induction n)
  case 0
  then show ?case using assms by simp
next
  case (Suc n)
  let ?s = "foldl (timing_turn sz) s [0..<n]"
  have ok: "wf_pair ?s" and n: "n < sz" using Suc by auto
  let ?s1 = "if \<not> gget (snd ?s) n 6 then mark sz ?s (int n, 6, n mod 2 = 0) else ?s"
  have ok1: "wf_pair ?s1" using ok by (simp add: mark_ok)
  have one: "gget (snd ?s1) a b \<longleftrightarrow> gget (snd ?s) a b \<or> a = n \<and> b = 6" if "a < sz" "b < sz" for a b
    using mark_reserves [OF ok assms(2) that, of "int n" 6] by auto
  have "gget (snd (timing_turn sz ?s n)) x y \<longleftrightarrow> gget (snd ?s1) x y \<or> x = 6 \<and> y = n"
    using mark_reserves [OF ok1 assms(2,4,5), of 6 "int n"] by (auto simp: timing_turn_def Let_def)
  then show ?case
    using Suc one [OF assms(4,5)] timing_turn_ok [OF ok] by (auto simp: less_Suc_eq)
qed

lemma marked_append: "marked (ms @ ns) x y \<longleftrightarrow> marked ms x y \<or> marked ns x y"
  by (auto simp: marked_def)

lemma marked_concat: "marked (concat mss) x y \<longleftrightarrow> list_ex (\<lambda>ms. marked ms x y) mss"
  by (auto simp: marked_def list_ex_iff)

lemma marked_map: "marked (map (\<lambda>i. (f i, g i, h i)) is) x y \<longleftrightarrow> (\<exists>i \<in> set is. int x = f i \<and> int y = g i)"
  by (auto simp: marked_def)

lemma ex_shift: "(\<exists>d \<in> {a..b}. (x :: int) = c + d) \<longleftrightarrow> c + a \<le> x \<and> x \<le> c + b"
proof
  assume "c + a \<le> x \<and> x \<le> c + b"
  then show "\<exists>d \<in> {a..b}. x = c + d" by (intro bexI [of _ "x - c"]) auto
qed auto

lemma square_marked:
  "marked (square_marks dark lo hi c) x y \<longleftrightarrow>
    fst c + lo \<le> int x \<and> int x \<le> fst c + hi \<and> snd c + lo \<le> int y \<and> int y \<le> snd c + hi"
proof -
  have "marked (square_marks dark lo hi c) x y \<longleftrightarrow>
      (\<exists>dy \<in> {lo..hi}. int y = snd c + dy) \<and> (\<exists>dx \<in> {lo..hi}. int x = fst c + dx)"
    unfolding square_marks_def marked_concat list_ex_iff set_map by (auto simp: marked_map)
  then show ?thesis unfolding ex_shift by blast
qed

lemma finder_marked:
  assumes "x < sz" "y < sz"
  shows "marked (finder_marks sz) x y \<longleftrightarrow> corner 8 sz x y"
  using assms by (auto simp: finder_marks_def marked_append square_marked corner_def)

lemma align_marked: "marked (align_marks v) x y \<longleftrightarrow> list_ex (near x y) (align_centres v)"
proof -
  have "marked (square_marks align_dark (-2) 2 (int cx, int cy)) x y = near x y (cx, cy)" for cx cy
    unfolding square_marked near_def by auto
  then show ?thesis
    unfolding align_marks_def marked_concat by (simp add: list_ex_iff case_prod_unfold)
qed

lemma format_marked:
  assumes "x < sz" "y < sz" "21 \<le> sz"
  shows "marked (format_marks sz) x y \<longleftrightarrow>
    x = 8 \<and> y \<le> 8 \<and> y \<noteq> 6 \<or> y = 8 \<and> x \<le> 8 \<and> x \<noteq> 6 \<or> y = 8 \<and> sz \<le> x + 8 \<or> x = 8 \<and> sz \<le> y + 8"
proof -
  have "marked (concat [[(8, i, False), (i, 8, False)]. i \<leftarrow> [0..8], i \<noteq> 6]) x y \<longleftrightarrow>
      x = 8 \<and> y \<le> 8 \<and> y \<noteq> 6 \<or> y = 8 \<and> x \<le> 8 \<and> x \<noteq> 6" (is "?m = _")
  proof -
    have "?m \<longleftrightarrow> (\<exists>i \<in> {0..8}. i \<noteq> 6 \<and> int x = 8 \<and> int y = i) \<or> (\<exists>i \<in> {0..8}. i \<noteq> 6 \<and> int y = 8 \<and> int x = i)"
      unfolding marked_concat list_ex_iff by (auto simp: marked_def split: if_splits)
    then show ?thesis by auto
  qed
  moreover have "marked [(int sz - 1 - i, 8, False). i \<leftarrow> [0..7]] x y \<longleftrightarrow> y = 8 \<and> sz \<le> x + 8"
    unfolding marked_map using assms by (auto intro!: bexI [of _ "int sz - 1 - int x"])
  moreover have "marked [(8, int sz - 1 - i, False). i \<leftarrow> [0..6]] x y \<longleftrightarrow> x = 8 \<and> sz \<le> y + 7"
    unfolding marked_map using assms by (auto intro!: bexI [of _ "int sz - 1 - int y"])
  moreover have "marked [(8, int sz - 8, True)] x y \<longleftrightarrow> x = 8 \<and> sz = y + 8"
    using assms by (auto simp: marked_def)
  ultimately show ?thesis unfolding format_marks_def marked_append by auto
qed

lemma third_and_rest: "(\<exists>i < 18. b = i mod 3 \<and> a = i div 3) \<longleftrightarrow> a < 6 \<and> b < (3 :: nat)"
proof
  assume "a < 6 \<and> b < 3"
  then show "\<exists>i < 18. b = i mod 3 \<and> a = i div 3" by (intro exI [of _ "3 * a + b"]) auto
qed auto

lemma version_marked:
  assumes "x < sz" "y < sz" "21 \<le> sz" "7 \<le> v"
  shows "marked (version_marks v sz) x y \<longleftrightarrow>
    y < 6 \<and> sz \<le> x + 11 \<and> x + 8 < sz \<or> x < 6 \<and> sz \<le> y + 11 \<and> y + 8 < sz"
proof -
  have block: "(\<exists>i < 18. int a = int sz - 11 + int (i mod 3) \<and> b = i div 3) \<longleftrightarrow> b < 6 \<and> sz \<le> a + 11 \<and> a + 8 < sz"
    if "a < sz" for a b :: nat
  proof -
    have "(\<exists>i < 18. int a = int sz - 11 + int (i mod 3) \<and> b = i div 3) \<longleftrightarrow>
        sz \<le> a + 11 \<and> (\<exists>i < 18. a + 11 - sz = i mod 3 \<and> b = i div 3)"
      using assms(3) by fastforce
    then show ?thesis unfolding third_and_rest using assms(3) by auto
  qed
  have "marked (version_marks v sz) x y \<longleftrightarrow>
      (\<exists>i < 18. int x = int sz - 11 + int (i mod 3) \<and> y = i div 3) \<or>
      (\<exists>i < 18. int y = int sz - 11 + int (i mod 3) \<and> x = i div 3)"
  proof -
    have "marked (version_marks v sz) x y \<longleftrightarrow>
        (\<exists>i \<in> {0..<18}. marked (let b = bit (version_word v) i; across = int sz - 11 + int (i mod 3); along = int (i div 3)
                  in [(across, along, b), (along, across, b)]) x y)"
      using assms(4) by (simp only: version_marks_def if_True marked_concat list_ex_iff set_map set_upt bex_simps)
    then show ?thesis by (auto simp: marked_def Let_def)
  qed
  then show ?thesis unfolding block [OF assms(1)] block [OF assms(2)] .
qed

lemma empty_pair_ok: "wf_pair (empty_grid, empty_grid)"
  by (simp add: wf_pair_def empty_grid_ok)

lemma patterns_ok: "wf_pair s \<Longrightarrow> wf_pair (draw_function_patterns v sz s)"
proof -
  have "wf_pair s \<Longrightarrow> wf_pair (foldl (timing_turn sz) s ks)" for s ks
    by (induction ks arbitrary: s) (simp_all add: timing_turn_ok)
  then show "wf_pair s \<Longrightarrow> wf_pair (draw_function_patterns v sz s)"
    by (simp add: draw_function_patterns_def Let_def marks_ok)
qed

lemma corner_with_format:
  assumes "21 \<le> sz"
  shows "corner 9 sz x y \<or> y = 6 \<or> x = 6 \<longleftrightarrow> corner 8 sz x y \<or> y = 6 \<or> x = 6 \<or>
    x = 8 \<and> y \<le> 8 \<and> y \<noteq> 6 \<or> y = 8 \<and> x \<le> 8 \<and> x \<noteq> 6 \<or> y = 8 \<and> sz \<le> x + 8 \<or> x = 8 \<and> sz \<le> y + 8"
proof -
  have x: "x < 9 \<longleftrightarrow> x < 8 \<or> x = 8" and y: "y < 9 \<longleftrightarrow> y < 8 \<or> y = 8" by auto
  have xy: "x \<le> 8 \<longleftrightarrow> x < 8 \<or> x = 8" "y \<le> 8 \<longleftrightarrow> y < 8 \<or> y = 8" by auto
  show ?thesis unfolding corner_def x y xy by blast
qed

lemma patterns_reserve:
  assumes "21 \<le> sz" "sz \<le> 57" "x < sz" "y < sz"
  shows "gget (snd (draw_function_patterns v sz (empty_grid, empty_grid))) x y \<longleftrightarrow> reserved v sz x y"
proof -
  let ?s1 = "foldl (mark sz) (empty_grid, empty_grid) (finder_marks sz)"
  let ?s2 = "foldl (timing_turn sz) ?s1 [0..<sz]"
  let ?s3 = "foldl (mark sz) ?s2 (align_marks v)"
  let ?s4 = "foldl (mark sz) ?s3 (format_marks sz)"
  have ok1: "wf_pair ?s1" by (rule marks_ok [OF empty_pair_ok])
  have ok2: "wf_pair ?s2" using timing_reserves [OF ok1 assms(2) _ assms(3,4), of sz] assms(1) by auto
  have ok3: "wf_pair ?s3" by (rule marks_ok [OF ok2])
  have ok4: "wf_pair ?s4" by (rule marks_ok [OF ok3])
  have s1: "gget (snd ?s1) x y \<longleftrightarrow> corner 8 sz x y"
    using marks_reserve [OF empty_pair_ok assms(2-4)] finder_marked [OF assms(3,4)] empty_grid_ok(2) assms by simp
  have s2: "gget (snd ?s2) x y \<longleftrightarrow> corner 8 sz x y \<or> y = 6 \<or> x = 6"
    using timing_reserves [OF ok1 assms(2) _ assms(3,4), of sz] assms s1 by auto
  have s4: "gget (snd ?s4) x y \<longleftrightarrow> corner 9 sz x y \<or> y = 6 \<or> x = 6 \<or> list_ex (near x y) (align_centres v)"
    using corner_with_format [OF assms(1), of x y]
    unfolding marks_reserve [OF ok3 assms(2-4)] marks_reserve [OF ok2 assms(2-4)] s2 align_marked
      format_marked [OF assms(3,4,1)] by blast
  show ?thesis
  proof (cases "7 \<le> v")
    case True
    then show ?thesis
      unfolding draw_function_patterns_def Let_def marks_reserve [OF ok4 assms(2-4)] s4
        version_marked [OF assms(3,4,1) True] reserved_def corner_def by linarith
  next
    case False
    then show ?thesis
      unfolding draw_function_patterns_def Let_def marks_reserve [OF ok4 assms(2-4)] s4 reserved_def
      by (simp add: version_marks_def marked_def) blast
  qed
qed


section \<open>What rendering leaves\<close>

lemma gset_all_put_all: "gset_all = packed.put_all"
  by (simp add: gset_all_def packed.put_all_def)

lemma mask_cell_ok: "wf_grid g \<Longrightarrow> wf_grid (foldl (mask_cell m rsv) g cs)"
  by (induction cs arbitrary: g) (auto simp: mask_cell_def packed.put_ok)

lemma mask_cells_get:
  assumes "wf_grid g" "distinct cs" "\<And>a b. (a, b) \<in> set cs \<Longrightarrow> a < 57 \<and> b < 57" "x < 57" "y < 57"
  shows "gget (foldl (mask_cell m rsv) g cs) x y \<longleftrightarrow>
    gget g x y \<noteq> ((x, y) \<in> set cs \<and> \<not> gget rsv x y \<and> mask_at m x y)"
  using assms(1-3)
proof (induction cs arbitrary: g)
  case (Cons c cs)
  obtain a b where c: "c = (a, b)" by (cases c)
  have ab: "a < 57" "b < 57" using Cons.prems(3) [of a b] c by auto
  have ok: "wf_grid (mask_cell m rsv g (a, b))" using Cons.prems(1) by (simp add: mask_cell_def packed.put_ok)
  have "gget (mask_cell m rsv g (a, b)) x y \<longleftrightarrow> gget g x y \<noteq> ((x, y) = (a, b) \<and> \<not> gget rsv x y \<and> mask_at m x y)"
    using Cons.prems(1) ab assms(4,5) by (auto simp: mask_cell_def packed.get_put)
  then show ?case using Cons.IH [OF ok] Cons.prems c by auto
qed simp

lemma all_cells_set: "set (all_cells sz) = {(x, y). x < sz \<and> y < sz}"
  by (auto simp: all_cells_def)

lemma all_cells_distinct: "distinct (all_cells sz)"
proof -
  have "distinct (concat (map (\<lambda>y. map (\<lambda>x. (x, y)) [0..<sz]) ys))" if "distinct ys" for ys :: "nat list"
    using that by (induction ys) (auto simp: distinct_map inj_on_def)
  then show ?thesis by (simp add: all_cells_def)
qed

lemma format_writes_range:
  assumes "(x, y, v) \<in> set (format_writes sz bits)" "21 \<le> sz"
  shows "x < sz \<and> y < sz \<and> (x = 8 \<and> (y < 9 \<or> sz \<le> y + 8) \<or> y = 8 \<and> (x < 9 \<or> sz \<le> x + 8))"
  using assms unfolding format_writes_def set_append set_map by (elim UnE imageE) auto

lemma format_writes_reserved:
  assumes "(x, y, v) \<in> set (format_writes sz bits)" "21 \<le> sz"
  shows "reserved u sz x y"
  using format_writes_range [OF assms] by (auto simp: reserved_def corner_def)

lemma draw_format_ok: "wf_grid g \<Longrightarrow> wf_grid (draw_format sz m g)"
  by (simp add: draw_format_def gset_all_put_all packed.put_all_ok)

lemma draw_format_untouched:
  assumes "wf_grid g" "21 \<le> sz" "sz \<le> 57" "x < sz" "y < sz" "\<not> reserved u sz x y"
  shows "gget (draw_format sz m g) x y = gget g x y"
  unfolding draw_format_def gset_all_put_all
  by (rule packed.get_put_all_untouched)
    (use assms format_writes_range format_writes_reserved in \<open>fastforce+\<close>)

lemma render_ok: "wf_grid base \<Longrightarrow> wf_grid (render base rsv sz m)"
  by (simp add: render_def draw_format_ok mask_cell_ok)

lemma render_free:
  assumes "wf_grid base" "21 \<le> sz" "sz \<le> 57" "x < sz" "y < sz" "\<not> reserved u sz x y" "\<not> gget rsv x y"
  shows "gget (render base rsv sz m) x y \<longleftrightarrow> gget base x y \<noteq> mask_at m x y"
proof -
  have "gget (render base rsv sz m) x y = gget (foldl (mask_cell m rsv) base (all_cells sz)) x y"
    unfolding render_def using assms by (intro draw_format_untouched mask_cell_ok)
  then show ?thesis
    using mask_cells_get [OF assms(1) all_cells_distinct, of sz x y m rsv] assms(2-7)
    by (auto simp: all_cells_set)
qed

text \<open>The mask's number, read from the first copy of the format word as a reader of the symbol does.\<close>

definition read_mask :: "grid \<Rightarrow> nat" where
  "read_mask g =
    (let unmasked = (\<lambda>i. gget g (14 - i) 8 \<noteq> bit (0x5412 :: u32) i)
     in (if unmasked 10 then 1 else 0) + (if unmasked 11 then 2 else 0) + (if unmasked 12 then 4 else 0))"

lemma format_word_mask:
  "i \<in> {10, 11, 12} \<Longrightarrow> bit (format_word m) i = (bit (of_nat m :: u32) (i - 10) \<noteq> bit (0x5412 :: u32) i)"
  unfolding format_word_def Let_def
  by (auto simp: bit_xor_iff bit_or_iff bit_and_iff bit_push_bit_iff)

lemma draw_format_word:
  assumes "wf_grid g" "21 \<le> sz" "sz \<le> 57" "i \<in> {9..14}"
  shows "gget (draw_format sz m g) (14 - i) 8 = bit (format_word m) i"
proof -
  let ?b = "format_word m"
  let ?early = "[(8, i, bit ?b i). i \<leftarrow> [0..<6]] @ [(8, 7, bit ?b 6), (8, 8, bit ?b 7), (7, 8, bit ?b 8)]"
  let ?mid = "[(14 - i, 8, bit ?b i). i \<leftarrow> [9..<15]]"
  let ?late = "[(sz - 1 - i, 8, bit ?b i). i \<leftarrow> [0..<8]] @ [(8, sz - 15 + i, bit ?b i). i \<leftarrow> [8..<15]] @ [(8, sz - 8, True)]"
  have ok: "wf_grid (packed.put_all g ?early)" by (rule packed.put_all_ok [OF assms(1)])
  have ok': "wf_grid (packed.put_all (packed.put_all g ?early) ?mid)" using ok by (rule packed.put_all_ok)
  have "draw_format sz m g = packed.put_all (packed.put_all (packed.put_all g ?early) ?mid) ?late"
    by (simp only: draw_format_def gset_all_put_all format_writes_def append_assoc packed.put_all_simps(3))
  moreover have "gget (packed.put_all (packed.put_all (packed.put_all g ?early) ?mid) ?late) (14 - i) 8 =
      gget (packed.put_all (packed.put_all g ?early) ?mid) (14 - i) 8"
    by (rule packed.get_put_all_untouched [OF ok']) (use assms in auto)
  moreover have "gget (packed.put_all (packed.put_all g ?early) ?mid) (14 - i) 8 = bit ?b i"
    using assms(4) ok by (auto simp: packed.get_put packed.put_ok upt_rec numeral_eq_Suc le_Suc_eq)
  ultimately show ?thesis by simp
qed

lemma read_mask_format:
  assumes "wf_grid g" "21 \<le> sz" "sz \<le> 57" "m < 8"
  shows "read_mask (draw_format sz m g) = m"
proof -
  have b: "(gget (draw_format sz m g) (14 - i) 8 \<noteq> bit (0x5412 :: u32) i) = bit (of_nat m :: u32) (i - 10)"
    if "i \<in> {10, 11, 12}" for i
    using that draw_format_word [OF assms(1-3), of i m] format_word_mask [of i m] by auto
  have "read_mask (draw_format sz m g) =
      (if bit (of_nat m :: u32) (10 - 10) then 1 else 0) + (if bit (of_nat m :: u32) (11 - 10) then 2 else 0) + (if bit (of_nat m :: u32) (12 - 10) then 4 else 0)"
    unfolding read_mask_def Let_def by (subst b, simp)+ (rule refl)
  moreover have "m \<in> {0, 1, 2, 3, 4, 5, 6, 7}" using assms(4) by auto
  ultimately show ?thesis by auto
qed

end
