(* ===== verification/Qr_Code.thy ===== *)
theory Qr_Code
  imports Qr_Field Qr_Symbol
begin

text \<open>
  The encoder of the join code, \<^verbatim>\<open>firmware/p4/main/qr.c\<close>: the version that fits, the bit stream with its
  padding, the blocks with their parity, the interleaving, the walk of the codewords over the free
  modules and the choice of the mask. A reader of the symbol, written from the standard and
  independent of the encoder's buffers, is the specification: it gets the text back.
\<close>

section \<open>The code\<close>

record qr_ver =
  data_cw :: nat
  ec_cw :: nat
  g1_blocks :: nat
  g1_cw :: nat
  g2_blocks :: nat

definition kVer :: "qr_ver list" where
  "kVer = map (\<lambda>(d, e, b, c, b2). \<lparr>data_cw = d, ec_cw = e, g1_blocks = b, g1_cw = c, g2_blocks = b2\<rparr>)
    [(0, 0, 0, 0, 0),
     (16, 10, 1, 16, 0), (28, 16, 1, 28, 0), (44, 26, 1, 44, 0),
     (64, 18, 2, 32, 0), (86, 24, 2, 43, 0), (108, 16, 4, 27, 0),
     (124, 18, 4, 31, 0), (154, 22, 2, 38, 2), (182, 22, 3, 36, 2),
     (216, 26, 4, 43, 1)]"

definition QR_MAX_DATA_CW :: nat where "QR_MAX_DATA_CW = 216"

record qr =
  qr_version :: nat
  qr_size :: nat
  modules :: grid

fun put_bits :: "u8 list \<times> nat \<Rightarrow> u32 \<Rightarrow> nat \<Rightarrow> u8 list \<times> nat" where
  "put_bits (buf, pos) val 0 = (buf, pos)"
| "put_bits (buf, pos) val (Suc i) =
    put_bits (if bit val i then buf[pos div 8 := buf ! (pos div 8) OR drop_bit (pos mod 8) 0x80] else buf, pos + 1) val i"

definition count_bits :: "nat \<Rightarrow> nat" where
  "count_bits v = (if v \<le> 9 then 8 else 16)"

definition byte_capacity :: "nat \<Rightarrow> nat" where
  "byte_capacity v = (let bits = data_cw (kVer ! v) * 8 - 4 - count_bits v in bits div 8)"

definition pick_version :: "nat \<Rightarrow> nat" where
  "pick_version len =
    (case find (\<lambda>v. len \<le> byte_capacity v) [1..<QR_MAX_VERSION + 1] of None \<Rightarrow> 0 | Some v \<Rightarrow> v)"

definition data_stream :: "nat \<Rightarrow> string \<Rightarrow> u8 list" where
  "data_stream v text =
    (let s1 = put_bits (replicate QR_MAX_DATA_CW 0, 0) 4 4;
         s2 = put_bits s1 (of_nat (length text)) (count_bits v);
         (buf, pos) = foldl (\<lambda>s c. put_bits s (of_char c) 8) s2 text;
         cap_bits = data_cw (kVer ! v) * 8;
         pos1 = (if pos + 4 < cap_bits then pos + 4 else cap_bits);
         pos2 = (pos1 + 7) div 8 * 8
     in foldl (\<lambda>d i. d[i := if (i - pos2 div 8) mod 2 = 0 then 0xEC else 0x11]) buf
          [pos2 div 8..<data_cw (kVer ! v)])"

definition block_count :: "nat \<Rightarrow> nat" where
  "block_count v = g1_blocks (kVer ! v) + g2_blocks (kVer ! v)"

definition block_len :: "nat \<Rightarrow> nat \<Rightarrow> nat" where
  "block_len v b = (if b < g1_blocks (kVer ! v) then g1_cw (kVer ! v) else g1_cw (kVer ! v) + 1)"

text \<open>The running \<^verbatim>\<open>off\<close> of the loops over the blocks.\<close>

definition block_off :: "nat \<Rightarrow> nat \<Rightarrow> nat" where
  "block_off v b = sum_list (map (block_len v) [0..<b])"

definition block_ecc :: "nat \<Rightarrow> u8 list \<Rightarrow> nat \<Rightarrow> u8 list" where
  "block_ecc v data b =
    (let necc = ec_cw (kVer ! v)
     in rs_remainder (take (block_len v b) (drop (block_off v b) data)) (rs_divisor necc) necc)"

definition codewords :: "nat \<Rightarrow> u8 list \<Rightarrow> u8 list" where
  "codewords v data =
    [data ! (block_off v b + i). i \<leftarrow> [0..<g1_cw (kVer ! v) + 1], b \<leftarrow> [0..<block_count v], i < block_len v b] @
    [block_ecc v data b ! i. i \<leftarrow> [0..<ec_cw (kVer ! v)], b \<leftarrow> [0..<block_count v]]"

function columns :: "nat \<Rightarrow> nat list" where
  "columns right = (if right \<ge> 1 then (let r = (if right = 6 then 5 else right) in r # columns (r - 2)) else [])"
  by pat_completeness auto
termination
  by (relation "measure id") (auto simp: Let_def)

declare columns.simps [simp del]

definition walk_row :: "nat \<Rightarrow> nat \<Rightarrow> nat \<Rightarrow> nat" where
  "walk_row sz right vert =
    (let upward = (right + 1) div 2 mod 2 = 0 in if upward then sz - 1 - vert else vert)"

definition column_cells :: "nat \<Rightarrow> nat \<Rightarrow> (nat \<times> nat) list" where
  "column_cells sz right = [(right - j, walk_row sz right vert). vert \<leftarrow> [0..<sz], j \<leftarrow> [0, 1]]"

definition walk_cells :: "nat \<Rightarrow> (nat \<times> nat) list" where
  "walk_cells sz = concat (map (column_cells sz) (columns (sz - 1)))"

definition stream_bit :: "u8 list \<Rightarrow> nat \<Rightarrow> bool" where
  "stream_bit buf k = bit (buf ! (k div 8)) (7 - k mod 8)"

definition place :: "grid \<Rightarrow> u8 list \<Rightarrow> grid \<times> nat \<Rightarrow> nat \<times> nat \<Rightarrow> grid \<times> nat" where
  "place rsv cws = (\<lambda>(base, k) (x, y).
    if gget rsv x y \<or> k \<ge> length cws * 8 then (base, k) else (gset base x y (stream_bit cws k), k + 1))"

definition best_mask :: "grid \<Rightarrow> grid \<Rightarrow> nat \<Rightarrow> nat \<times> nat" where
  "best_mask base rsv sz =
    foldl (\<lambda>(best, best_score) m.
      let s = penalty (render base rsv sz m) sz
      in if m = 0 \<or> s < best_score then (m, s) else (best, best_score)) (0, 0) [0..<8]"

definition qr_blank :: qr where
  "qr_blank = \<lparr>qr_version = 0, qr_size = 0, modules = empty_grid\<rparr>"

definition qr_symbol :: "nat \<Rightarrow> string \<Rightarrow> grid \<times> grid" where
  "qr_symbol v text =
    (let sz = 17 + 4 * v;
         cws = codewords v (data_stream v text);
         (base, rsv) = draw_function_patterns v sz (empty_grid, empty_grid)
     in (fst (foldl (place rsv cws) (base, 0) (walk_cells sz)), rsv))"

definition qr_encode :: "string option \<Rightarrow> bool \<times> qr" where
  "qr_encode t =
    (case t of None \<Rightarrow> (False, qr_blank)
     | Some text \<Rightarrow>
       if length text = 0 then (False, qr_blank)
       else (let v = pick_version (length text) in
         if v = 0 then (False, qr_blank)
         else (let sz = 17 + 4 * v; (base, rsv) = qr_symbol v text;
                   m = fst (best_mask base rsv sz)
               in (True, \<lparr>qr_version = v, qr_size = sz, modules = render base rsv sz m\<rparr>))))"

definition qr_module :: "qr \<Rightarrow> int \<Rightarrow> int \<Rightarrow> bool" where
  "qr_module q x y =
    (if qr_version q = 0 then False
     else if x < 0 \<or> y < 0 \<or> x \<ge> int (qr_size q) \<or> y \<ge> int (qr_size q) then False
     else gget (modules q) (nat x) (nat y))"

section \<open>A reader of the symbol\<close>

text \<open>
  The reader looks at the modules only: it takes the mask's number from the format word, walks the modules
  outside the function patterns in the standard's order, takes the mask off, deals the codewords back
  to their blocks and reads the byte segment. It does not use the parity.
\<close>

definition bits_value :: "bool list \<Rightarrow> nat" where
  "bits_value bs = horner_sum of_bool 2 (rev bs)"

definition read_modules :: "qr \<Rightarrow> bool list" where
  "read_modules q =
    (let sz = qr_size q; m = read_mask (modules q)
     in map (\<lambda>(x, y). qr_module q (int x) (int y) \<noteq> mask_at m x y)
          (filter (\<lambda>(x, y). \<not> reserved (qr_version q) sz x y) (walk_cells sz)))"

definition read_codewords :: "nat \<Rightarrow> bool list \<Rightarrow> nat list" where
  "read_codewords n bs = map (\<lambda>k. bits_value (take 8 (drop (8 * k) bs))) [0..<n]"

definition codeword_order :: "nat \<Rightarrow> (nat \<times> nat) list" where
  "codeword_order v = [(b, i). i \<leftarrow> [0..<g1_cw (kVer ! v) + 1], b \<leftarrow> [0..<block_count v], i < block_len v b]"

definition block_order :: "nat \<Rightarrow> (nat \<times> nat) list" where
  "block_order v = [(b, i). b \<leftarrow> [0..<block_count v], i \<leftarrow> [0..<block_len v b]]"

definition deal_back :: "nat \<Rightarrow> nat list \<Rightarrow> nat list" where
  "deal_back v cws = map (\<lambda>p. the (map_of (zip (codeword_order v) cws) p)) (block_order v)"

definition byte_to_bits :: "nat \<Rightarrow> bool list" where
  "byte_to_bits w = map (\<lambda>i. bit w (7 - i)) [0..<8]"

definition read_segment :: "nat \<Rightarrow> bool list \<Rightarrow> string option" where
  "read_segment v bs =
    (if bits_value (take 4 bs) \<noteq> 4 then None
     else (let len = bits_value (take (count_bits v) (drop 4 bs));
               body = drop (4 + count_bits v) bs
           in Some (map (\<lambda>k. char_of (bits_value (take 8 (drop (8 * k) body)))) [0..<len])))"

definition qr_read :: "qr \<Rightarrow> string option" where
  "qr_read q =
    (let v = qr_version q; row = kVer ! v;
         cws = read_codewords (data_cw row) (read_modules q)
     in read_segment v (concat (map byte_to_bits (deal_back v cws))))"


section \<open>The walk over the modules\<close>

lemma columns_range: "r \<in> set (columns n) \<Longrightarrow> 1 \<le> r \<and> r \<le> n"
proof (induction n rule: columns.induct)
  case (1 n)
  show ?case
  proof (cases "n \<ge> 1")
    case True
    let ?r = "if n = 6 then 5 else n"
    have "columns n = ?r # columns (?r - 2)" using True by (subst columns.simps) (simp add: Let_def)
    then have "r = ?r \<or> r \<in> set (columns (?r - 2))" using 1(2) by simp
    then show ?thesis using 1(1) [OF True refl] True by (auto split: if_splits)
  next
    case False
    then show ?thesis using 1(2) by (simp add: columns.simps)
  qed
qed

lemma walk_row_bij: "bij_betw (walk_row sz r) {0..<sz} {0..<sz}"
proof (rule bij_betw_imageI)
  show inj: "inj_on (walk_row sz r) {0..<sz}" by (auto simp: inj_on_def walk_row_def Let_def split: if_splits)
  have "walk_row sz r ` {0..<sz} \<subseteq> {0..<sz}" by (auto simp: walk_row_def Let_def)
  then show "walk_row sz r ` {0..<sz} = {0..<sz}" by (intro endo_inj_surj inj) simp
qed

lemma column_cells_set: "set (column_cells sz r) = {(x, y). (x = r \<or> x = r - 1) \<and> y < sz}"
proof -
  have "set (column_cells sz r) = {r, r - 1} \<times> walk_row sz r ` {0..<sz}"
    by (auto simp: column_cells_def)
  then show ?thesis using bij_betw_imp_surj_on [OF walk_row_bij] by auto
qed

lemma column_cells_distinct: "1 \<le> r \<Longrightarrow> distinct (column_cells sz r)"
proof -
  assume r: "1 \<le> r"
  have "distinct (concat (map (\<lambda>k. [(r, f k), (r - 1, f k)]) ks))" if "distinct ks" "inj_on f (set ks)" for f ks
    using that r by (induction ks) (auto simp: inj_on_def)
  from this [of "[0..<sz]" "walk_row sz r"] show ?thesis
    using bij_betw_imp_inj_on [OF walk_row_bij] by (simp add: column_cells_def)
qed

lemma walk_distinct: "distinct (concat (map (column_cells sz) (columns n)))"
proof (induction n rule: columns.induct)
  case (1 n)
  show ?case
  proof (cases "n \<ge> 1")
    case True
    let ?r = "if n = 6 then 5 else n"
    have c: "columns n = ?r # columns (?r - 2)" using True by (subst columns.simps) (simp add: Let_def)
    have "set (column_cells sz ?r) \<inter> set (column_cells sz q) = {}" if "q \<in> set (columns (?r - 2))" for q
      using columns_range [OF that] by (auto simp: column_cells_set)
    then have "set (column_cells sz ?r) \<inter> set (concat (map (column_cells sz) (columns (?r - 2)))) = {}"
      unfolding set_concat set_map by blast
    then show ?thesis
      unfolding c using 1 [OF True refl] column_cells_distinct [of ?r] True by simp
  qed (simp add: columns.simps)
qed

lemma columns_cover:
  "even n \<Longrightarrow> 6 \<le> n \<Longrightarrow> (\<exists>r \<in> set (columns n). x = r \<or> x = r - 1) \<longleftrightarrow> x \<le> n \<and> x \<noteq> 6"
proof (induction n rule: less_induct)
  case (less n)
  show ?case
  proof (cases "n = 6")
    case True
    have "columns 6 = [5, 3, 1]" by (simp add: columns.simps)
    then show ?thesis using True by auto
  next
    case False
    then have n: "8 \<le> n" using less.prems by presburger
    have "columns n = n # columns (n - 2)" using False n by (subst columns.simps) (simp add: Let_def)
    then show ?thesis using less.IH [of "n - 2"] n less.prems by auto
  qed
qed

lemma walk_cells_set:
  "sz = 17 + 4 * v \<Longrightarrow> set (walk_cells sz) = {(x, y). x < sz \<and> y < sz \<and> x \<noteq> 6}"
proof -
  assume sz: "sz = 17 + 4 * v"
  have "even (sz - 1)" "6 \<le> sz - 1" using sz by auto
  from columns_cover [OF this]
  have c: "(\<exists>r \<in> set (columns (sz - 1)). x = r \<or> x = r - 1) \<longleftrightarrow> x < sz \<and> x \<noteq> 6" for x using sz by auto
  have "(x, y) \<in> set (walk_cells sz) \<longleftrightarrow> (\<exists>r \<in> set (columns (sz - 1)). x = r \<or> x = r - 1) \<and> y < sz" for x y
    by (auto simp: walk_cells_def column_cells_set)
  then show ?thesis unfolding c by auto
qed

text \<open>The free modules are as many as the rectangles that cover the function patterns leave.\<close>

definition in_rect :: "nat \<times> nat \<Rightarrow> nat \<times> nat \<times> nat \<times> nat \<Rightarrow> bool" where
  "in_rect = (\<lambda>(x, y) (x0, x1, y0, y1). x0 \<le> x \<and> x < x1 \<and> y0 \<le> y \<and> y < y1)"

definition rect_area :: "nat \<times> nat \<times> nat \<times> nat \<Rightarrow> nat" where
  "rect_area = (\<lambda>(x0, x1, y0, y1). (x1 - x0) * (y1 - y0))"

lemma rects_card: "finite {c. list_ex (in_rect c) rs} \<and> card {c. list_ex (in_rect c) rs} \<le> sum_list (map rect_area rs)"
proof (induction rs)
  case (Cons r rs)
  obtain x0 x1 y0 y1 where r: "r = (x0, x1, y0, y1)" by (cases r)
  have "{c. in_rect c r} = {x0..<x1} \<times> {y0..<y1}" by (auto simp: r in_rect_def)
  then have f: "finite {c. in_rect c r}" "card {c. in_rect c r} = rect_area r" by (simp_all add: r rect_area_def)
  have "{c. list_ex (in_rect c) (r # rs)} = {c. in_rect c r} \<union> {c. list_ex (in_rect c) rs}" by auto
  then show ?case using Cons f card_Un_le [of "{c. in_rect c r}" "{c. list_ex (in_rect c) rs}"] by auto
qed simp

definition free_cells :: "nat \<Rightarrow> (nat \<times> nat) list" where
  "free_cells v = filter (\<lambda>(x, y). \<not> reserved v (17 + 4 * v) x y) (walk_cells (17 + 4 * v))"

lemma free_cells_many:
  assumes "\<And>x y. x < 17 + 4 * v \<Longrightarrow> y < 17 + 4 * v \<Longrightarrow> reserved v (17 + 4 * v) x y \<Longrightarrow> list_ex (in_rect (x, y)) rs"
  shows "(17 + 4 * v) * (17 + 4 * v) \<le> length (free_cells v) + sum_list (map rect_area rs)"
proof -
  let ?sz = "17 + 4 * v"
  have "distinct (free_cells v)" by (simp add: free_cells_def walk_cells_def walk_distinct)
  then have l: "length (free_cells v) = card (set (free_cells v))" by (rule distinct_card [symmetric])
  have "{..<?sz} \<times> {..<?sz} \<subseteq> set (free_cells v) \<union> {c. list_ex (in_rect c) rs}"
  proof (intro subsetI)
    fix c assume c: "c \<in> {..<?sz} \<times> {..<?sz}"
    then obtain x y where xy: "c = (x, y)" "x < ?sz" "y < ?sz" by auto
    then show "c \<in> set (free_cells v) \<union> {c. list_ex (in_rect c) rs}"
      using assms [of x y] by (auto simp: free_cells_def walk_cells_set reserved_def)
  qed
  moreover have "finite (set (free_cells v) \<union> {c. list_ex (in_rect c) rs})" using rects_card [of rs] by simp
  ultimately have "card ({..<?sz} \<times> {..<?sz}) \<le> card (set (free_cells v) \<union> {c. list_ex (in_rect c) rs})"
    by (meson card_mono)
  also have "\<dots> \<le> length (free_cells v) + sum_list (map rect_area rs)"
    using card_Un_le [of "set (free_cells v)" "{c. list_ex (in_rect c) rs}"] rects_card [of rs] l by linarith
  finally show ?thesis by simp
qed

end
