(* ===== verification/Qr_Reader.thy ===== *)
theory Qr_Reader
  imports Qr_Code
begin

text \<open>
  The join code's symbol says what it was made from: the reader of \<^verbatim>\<open>Qr_Code\<close> gets the text back from every
  symbol \<^verbatim>\<open>qr_encode\<close> draws.
\<close>

section \<open>There is room for every codeword\<close>

definition codeword_total :: "nat \<Rightarrow> nat" where
  "codeword_total v = data_cw (kVer ! v) + block_count v * ec_cw (kVer ! v)"

definition frame_rects :: "nat \<Rightarrow> (nat \<times> nat \<times> nat \<times> nat) list" where
  "frame_rects sz = [(0, 9, 0, 9), (sz - 8, sz, 0, 9), (0, 9, sz - 8, sz), (6, 7, 9, sz - 8), (9, sz - 8, 6, 7)]"

definition version_rects :: "nat \<Rightarrow> nat \<Rightarrow> (nat \<times> nat \<times> nat \<times> nat) list" where
  "version_rects v sz = (if v \<ge> 7 then [(sz - 11, sz - 8, 0, 6), (0, 6, sz - 11, sz - 8)] else [])"

text \<open>The part of an alignment square that is not on a timing line.\<close>

definition align_rects :: "nat \<times> nat \<Rightarrow> (nat \<times> nat \<times> nat \<times> nat) list" where
  "align_rects = (\<lambda>(cx, cy).
    if cx = 6 then [(4, 6, cy - 2, cy + 3), (7, 9, cy - 2, cy + 3)]
    else if cy = 6 then [(cx - 2, cx + 3, 4, 6), (cx - 2, cx + 3, 7, 9)]
    else [(cx - 2, cx + 3, cy - 2, cy + 3)])"

definition pattern_rects :: "nat \<Rightarrow> nat \<Rightarrow> (nat \<times> nat \<times> nat \<times> nat) list" where
  "pattern_rects v sz = frame_rects sz @ version_rects v sz @ concat (map align_rects (align_centres v))"

lemma frame_covers:
  "x < sz \<Longrightarrow> y < sz \<Longrightarrow> corner 9 sz x y \<or> x = 6 \<or> y = 6 \<Longrightarrow> list_ex (in_rect (x, y)) (frame_rects sz)"
  by (auto simp: corner_def in_rect_def frame_rects_def)

lemma version_covers:
  "x < sz \<Longrightarrow> y < sz \<Longrightarrow> \<not> corner 9 sz x y \<Longrightarrow> 7 \<le> v \<Longrightarrow> y < 6 \<and> sz \<le> x + 11 \<or> x < 6 \<and> sz \<le> y + 11 \<Longrightarrow>
   list_ex (in_rect (x, y)) (version_rects v sz)"
  by (auto simp: corner_def in_rect_def version_rects_def)

lemma align_covers: "near x y c \<Longrightarrow> x \<noteq> 6 \<Longrightarrow> y \<noteq> 6 \<Longrightarrow> list_ex (in_rect (x, y)) (align_rects c)"
  by (cases c) (auto simp: near_def in_rect_def align_rects_def)

lemma patterns_covered:
  assumes "x < sz" "y < sz" "reserved v sz x y"
  shows "list_ex (in_rect (x, y)) (pattern_rects v sz)"
proof (cases "corner 9 sz x y \<or> x = 6 \<or> y = 6")
  case True
  then show ?thesis using frame_covers [OF assms(1,2)] by (simp add: pattern_rects_def)
next
  case False
  then have "list_ex (near x y) (align_centres v) \<or> 7 \<le> v \<and> (y < 6 \<and> sz \<le> x + 11 \<or> x < 6 \<and> sz \<le> y + 11)"
    using assms(3) by (auto simp: reserved_def)
  then show ?thesis
  proof
    assume "list_ex (near x y) (align_centres v)"
    then obtain c where c: "c \<in> set (align_centres v)" "near x y c" by (auto simp: list_ex_iff)
    then show ?thesis using align_covers [OF c(2)] False by (auto simp: pattern_rects_def list_ex_iff)
  next
    assume "7 \<le> v \<and> (y < 6 \<and> sz \<le> x + 11 \<or> x < 6 \<and> sz \<le> y + 11)"
    then show ?thesis using version_covers [OF assms(1,2)] False by (simp add: pattern_rects_def)
  qed
qed

lemma free_cells_suffice: "1 \<le> v \<Longrightarrow> v \<le> 10 \<Longrightarrow> 8 * codeword_total v \<le> length (free_cells v)"
proof -
  assume v: "1 \<le> v" "v \<le> 10"
  have "\<forall>v \<in> set [1..<11]. 8 * codeword_total v + sum_list (map rect_area (pattern_rects v (17 + 4 * v))) \<le> (17 + 4 * v) * (17 + 4 * v)"
    by code_simp
  then have "8 * codeword_total v + sum_list (map rect_area (pattern_rects v (17 + 4 * v))) \<le> (17 + 4 * v) * (17 + 4 * v)"
    using v by auto
  moreover have "(17 + 4 * v) * (17 + 4 * v) \<le> length (free_cells v) + sum_list (map rect_area (pattern_rects v (17 + 4 * v)))"
    by (rule free_cells_many) (rule patterns_covered)
  ultimately show ?thesis by linarith
qed

section \<open>The codewords on the symbol\<close>

lemma place_simp:
  "place rsv cws (g, n) (a, b) =
    (if gget rsv a b \<or> length cws * 8 \<le> n then (g, n) else (gset g a b (stream_bit cws n), n + 1))"
  by (simp add: place_def)

lemma place_ok: "wf_grid g \<Longrightarrow> wf_grid (fst (foldl (place rsv cws) (g, n) cs))"
proof (induction cs arbitrary: g n)
  case (Cons c cs)
  then show ?case by (cases c) (auto simp: place_simp packed.put_ok)
qed simp

lemma place_elsewhere:
  assumes "wf_grid g" "\<And>a b. (a, b) \<in> set cs \<Longrightarrow> a < 57 \<and> b < 57" "x < 57" "y < 57" "(x, y) \<notin> set cs"
  shows "gget (fst (foldl (place rsv cws) (g, n) cs)) x y = gget g x y"
  using assms(1,2,5)
proof (induction cs arbitrary: g n)
  case (Cons c cs)
  obtain a b where c: "c = (a, b)" by (cases c)
  have ab: "a < 57" "b < 57" "(x, y) \<noteq> (a, b)" using Cons.prems c by auto
  have rest: "\<And>a b. (a, b) \<in> set cs \<Longrightarrow> a < 57 \<and> b < 57" "(x, y) \<notin> set cs" using Cons.prems by auto
  have "gget (gset g a b (stream_bit cws n)) x y = gget g x y"
    using Cons.prems(1) ab assms(3,4) by (auto simp: packed.get_put)
  then show ?case
    using Cons.IH [OF Cons.prems(1) rest, of n] Cons.IH [OF packed.put_ok [OF Cons.prems(1)] rest, of a b "stream_bit cws n" "n + 1"] c
    by (simp add: place_simp)
qed simp

lemma place_stream:
  assumes "wf_grid g" "distinct cs" "\<And>a b. (a, b) \<in> set cs \<Longrightarrow> a < 57 \<and> b < 57"
    and F: "F = filter (\<lambda>(a, b). \<not> gget rsv a b) cs"
  shows "k < length F \<Longrightarrow> n + k < length cws * 8 \<Longrightarrow>
    gget (fst (foldl (place rsv cws) (g, n) cs)) (fst (F ! k)) (snd (F ! k)) = stream_bit cws (n + k)"
  using assms
proof (induction cs arbitrary: g n k F)
  case (Cons c cs)
  obtain a b where c: "c = (a, b)" by (cases c)
  have ab: "a < 57" "b < 57" using Cons.prems(5) [of a b] c by auto
  have rest: "distinct cs" "\<And>a b. (a, b) \<in> set cs \<Longrightarrow> a < 57 \<and> b < 57" using Cons.prems by auto
  show ?case
  proof (cases "gget rsv a b")
    case True
    then show ?thesis
      using Cons.IH [OF _ _ Cons.prems(3) rest refl, of k n] Cons.prems(1,2,6) c by (simp add: place_simp)
  next
    case False
    let ?g = "gset g a b (stream_bit cws n)"
    have ok: "wf_grid ?g" using Cons.prems(3) by (rule packed.put_ok)
    have n: "n < length cws * 8" using Cons.prems(2) by simp
    show ?thesis
    proof (cases k)
      case 0
      have "gget (fst (foldl (place rsv cws) (?g, n + 1) cs)) a b = gget ?g a b"
        by (rule place_elsewhere [OF ok rest(2) ab]) (use Cons.prems(4) c in auto)
      then show ?thesis using 0 False n c ab Cons.prems(3,6) by (simp add: place_simp packed.get_put)
    next
      case (Suc j)
      then show ?thesis
        using Cons.IH [OF _ _ ok rest refl, of j "n + 1"] Cons.prems(1,2,6) c False n by (simp add: place_simp)
    qed
  qed
qed simp


section \<open>The bit stream\<close>

lemma stream_bit_set:
  assumes "q < 8 * length buf" "p < 8 * length buf"
  shows "stream_bit (buf[q div 8 := buf ! (q div 8) OR drop_bit (q mod 8) 0x80]) p \<longleftrightarrow> stream_bit buf p \<or> p = q"
proof (cases "p div 8 = q div 8")
  case True
  then have "p = q \<longleftrightarrow> q mod 8 = p mod 8" by (metis div_mult_mod_eq)
  moreover have "q div 8 < length buf" using assms(1) by auto
  ultimately show ?thesis using True by (auto simp: stream_bit_def bit_or_iff mask_bit)
next
  case False
  then show ?thesis by (auto simp: stream_bit_def)
qed

lemma put_bits_spec:
  assumes "pos + n \<le> 8 * length buf"
  shows "snd (put_bits (buf, pos) val n) = pos + n \<and> length (fst (put_bits (buf, pos) val n)) = length buf \<and>
    (\<forall>p < 8 * length buf. stream_bit (fst (put_bits (buf, pos) val n)) p \<longleftrightarrow>
       stream_bit buf p \<or> pos \<le> p \<and> p < pos + n \<and> bit val (n - 1 - (p - pos)))"
  using assms
proof (induction n arbitrary: buf pos)
  case (Suc i)
  let ?buf = "if bit val i then buf[pos div 8 := buf ! (pos div 8) OR drop_bit (pos mod 8) 0x80] else buf"
  have l: "length ?buf = length buf" by simp
  have now: "stream_bit ?buf p \<longleftrightarrow> stream_bit buf p \<or> p = pos \<and> bit val i" if "p < 8 * length buf" for p
    using that stream_bit_set [of pos buf p] Suc.prems by simp
  have s: "put_bits (buf, pos) val (Suc i) = put_bits (?buf, pos + 1) val i" by simp
  have IH: "snd (put_bits (?buf, pos + 1) val i) = pos + 1 + i"
    "length (fst (put_bits (?buf, pos + 1) val i)) = length buf"
    "\<And>p. p < 8 * length buf \<Longrightarrow> stream_bit (fst (put_bits (?buf, pos + 1) val i)) p \<longleftrightarrow>
       stream_bit ?buf p \<or> pos + 1 \<le> p \<and> p < pos + 1 + i \<and> bit val (i - 1 - (p - (pos + 1)))"
    using Suc.IH [of "pos + 1" ?buf] Suc.prems by simp_all
  show ?case
  proof (intro conjI allI impI)
    show "snd (put_bits (buf, pos) val (Suc i)) = pos + Suc i" "length (fst (put_bits (buf, pos) val (Suc i))) = length buf"
      unfolding s using IH(1,2) by simp_all
    fix p assume p: "p < 8 * length buf"
    have "pos \<le> p \<and> p < pos + Suc i \<and> bit val (Suc i - 1 - (p - pos)) \<longleftrightarrow>
        p = pos \<and> bit val i \<or> pos + 1 \<le> p \<and> p < pos + 1 + i \<and> bit val (i - 1 - (p - (pos + 1)))"
    proof (cases "pos + 1 \<le> p")
      case True
      then have "Suc i - 1 - (p - pos) = i - 1 - (p - (pos + 1))" by simp
      then show ?thesis using True by auto
    next
      case False
      then have "pos \<le> p \<longleftrightarrow> p = pos" by auto
      then show ?thesis using False by auto
    qed
    then show "stream_bit (fst (put_bits (buf, pos) val (Suc i))) p \<longleftrightarrow>
        stream_bit buf p \<or> pos \<le> p \<and> p < pos + Suc i \<and> bit val (Suc i - 1 - (p - pos))"
      unfolding s IH(3) [OF p] now [OF p] by blast
  qed
qed auto

definition put_text :: "u8 list \<times> nat \<Rightarrow> string \<Rightarrow> u8 list \<times> nat" where
  "put_text = foldl (\<lambda>s c. put_bits s (of_char c) 8)"

lemma put_text_spec:
  assumes "pos + 8 * length msg \<le> 8 * length buf"
  shows "snd (put_text (buf, pos) msg) = pos + 8 * length msg \<and> length (fst (put_text (buf, pos) msg)) = length buf \<and>
    (\<forall>p < 8 * length buf. stream_bit (fst (put_text (buf, pos) msg)) p \<longleftrightarrow> stream_bit buf p \<or>
       pos \<le> p \<and> p < pos + 8 * length msg \<and> bit (of_char (msg ! ((p - pos) div 8)) :: u32) (7 - (p - pos) mod 8))"
  using assms
proof (induction msg arbitrary: buf pos)
  case (Cons c msg)
  obtain buf' pos' where s: "put_bits (buf, pos) (of_char c) 8 = (buf', pos')" by fastforce
  have one: "pos' = pos + 8" "length buf' = length buf"
    "\<And>p. p < 8 * length buf \<Longrightarrow> stream_bit buf' p \<longleftrightarrow>
       stream_bit buf p \<or> pos \<le> p \<and> p < pos + 8 \<and> bit (of_char c :: u32) (7 - (p - pos))"
    using put_bits_spec [of pos 8 buf "of_char c"] Cons.prems s by auto
  have t: "put_text (buf, pos) (c # msg) = put_text (buf', pos') msg" by (simp add: put_text_def s)
  have shift: "(p - pos) div 8 = Suc ((p - pos') div 8)" "(p - pos) mod 8 = (p - pos') mod 8" if "pos' \<le> p" for p
  proof -
    have "p - pos = (p - pos') + 8" using that one(1) by simp
    then show "(p - pos) div 8 = Suc ((p - pos') div 8)" "(p - pos) mod 8 = (p - pos') mod 8" by simp_all
  qed
  show ?case
  proof (intro conjI allI impI)
    show "snd (put_text (buf, pos) (c # msg)) = pos + 8 * length (c # msg)"
      "length (fst (put_text (buf, pos) (c # msg))) = length buf"
      unfolding t using Cons.IH [of pos' buf'] Cons.prems one by auto
    fix p assume p: "p < 8 * length buf"
    have "stream_bit (fst (put_text (buf', pos') msg)) p \<longleftrightarrow> stream_bit buf' p \<or>
       pos' \<le> p \<and> p < pos' + 8 * length msg \<and> bit (of_char (msg ! ((p - pos') div 8)) :: u32) (7 - (p - pos') mod 8)"
      using Cons.IH [of pos' buf'] Cons.prems one(1,2) p by auto
    then show "stream_bit (fst (put_text (buf, pos) (c # msg))) p \<longleftrightarrow> stream_bit buf p \<or> pos \<le> p \<and>
        p < pos + 8 * length (c # msg) \<and> bit (of_char ((c # msg) ! ((p - pos) div 8)) :: u32) (7 - (p - pos) mod 8)"
      unfolding t one(3) [OF p] using one(1) shift [of p] by (cases "pos' \<le> p") auto
  qed
qed (auto simp: put_text_def)

lemma pad_keeps:
  assumes "p div 8 < lo"
  shows "length (foldl (\<lambda>d i. d[i := f i]) buf [lo..<hi]) = length buf \<and>
    stream_bit (foldl (\<lambda>d i. d[i := f i]) buf [lo..<hi]) p = stream_bit buf p"
proof (induction hi)
  case (Suc hi)
  then show ?case using assms by (simp add: stream_bit_def)
qed simp

lemma capacity_fits:
  assumes "1 \<le> v" "v \<le> 10" "n \<le> byte_capacity v"
  shows "4 + count_bits v + 8 * n \<le> 8 * data_cw (kVer ! v)" "data_cw (kVer ! v) \<le> 216"
    "n < 256"
proof -
  have "\<forall>v \<in> set [1..<11]. 16 \<le> data_cw (kVer ! v) \<and> data_cw (kVer ! v) \<le> 216" by code_simp
  then have d: "16 \<le> data_cw (kVer ! v) \<and> data_cw (kVer ! v) \<le> 216"
    by (rule bspec) (use assms(1,2) in simp)
  let ?bits = "data_cw (kVer ! v) * 8 - 4 - count_bits v"
  have "8 * n \<le> ?bits"
    using assms(3) div_times_less_eq_dividend [of ?bits 8] by (simp add: byte_capacity_def Let_def)
  moreover have "count_bits v \<le> 16" by (simp add: count_bits_def)
  ultimately show "4 + count_bits v + 8 * n \<le> 8 * data_cw (kVer ! v)" "data_cw (kVer ! v) \<le> 216" "n < 256"
    using d by linarith+
qed

lemma data_stream_bits:
  assumes "1 \<le> v" "v \<le> 10" "length msg \<le> byte_capacity v"
  defines "cc \<equiv> count_bits v" and "d \<equiv> data_stream v msg"
  shows "length d = 216"
    and "p < 4 \<Longrightarrow> stream_bit d p = bit (4 :: u32) (3 - p)"
    and "p < cc \<Longrightarrow> stream_bit d (4 + p) = bit (of_nat (length msg) :: u32) (cc - 1 - p)"
    and "p < 8 * length msg \<Longrightarrow> stream_bit d (4 + cc + p) = bit (of_char (msg ! (p div 8)) :: u32) (7 - p mod 8)"
proof -
  note fits = capacity_fits [OF assms(1-3)]
  let ?zero = "replicate 216 (0 :: u8)"
  obtain b1 p1 where s1: "put_bits (?zero, 0) 4 4 = (b1, p1)" by fastforce
  obtain b2 p2 where s2: "put_bits (b1, p1) (of_nat (length msg)) cc = (b2, p2)" by fastforce
  obtain b3 p3 where s3: "put_text (b2, p2) msg = (b3, p3)" by fastforce
  have zero: "\<not> stream_bit ?zero p" if "p < 1728" for p using that by (simp add: stream_bit_def)
  have r1: "p1 = 4" "length b1 = 216" "\<And>p. p < 1728 \<Longrightarrow> stream_bit b1 p \<longleftrightarrow> p < 4 \<and> bit (4 :: u32) (3 - p)"
    using put_bits_spec [of 0 4 ?zero 4] s1 zero by auto
  have r2: "p2 = 4 + cc" "length b2 = 216" "\<And>p. p < 1728 \<Longrightarrow> stream_bit b2 p \<longleftrightarrow> stream_bit b1 p \<or>
      4 \<le> p \<and> p < 4 + cc \<and> bit (of_nat (length msg) :: u32) (cc - 1 - (p - 4))"
    using put_bits_spec [of 4 cc b1 "of_nat (length msg)"] s2 r1(1,2) fits(1,2) unfolding cc_def by auto
  have r3: "p3 = 4 + cc + 8 * length msg" "length b3 = 216" "\<And>p. p < 1728 \<Longrightarrow> stream_bit b3 p \<longleftrightarrow> stream_bit b2 p \<or>
      4 + cc \<le> p \<and> p < 4 + cc + 8 * length msg \<and>
      bit (of_char (msg ! ((p - (4 + cc)) div 8)) :: u32) (7 - (p - (4 + cc)) mod 8)"
    using put_text_spec [of "4 + cc" msg b2] s3 r2(1,2) fits(1,2) unfolding cc_def by auto
  let ?cap = "data_cw (kVer ! v) * 8"
  let ?q1 = "if p3 + 4 < ?cap then p3 + 4 else ?cap"
  let ?q2 = "(?q1 + 7) div 8 * 8"
  have d: "d = foldl (\<lambda>d i. d[i := if (i - ?q2 div 8) mod 2 = 0 then 0xEC else 0x11]) b3 [?q2 div 8..<data_cw (kVer ! v)]"
    unfolding d_def data_stream_def Let_def QR_MAX_DATA_CW_def s1 s2 [unfolded cc_def] put_text_def [symmetric] s3 by simp
  have q: "p < ?q2" if "p < p3" for p
  proof -
    have "p3 \<le> ?q1" using r3(1) fits(1) cc_def by auto
    moreover have "n \<le> (n + 7) div 8 * 8" for n :: nat by presburger
    then have "?q1 \<le> ?q2" .
    ultimately show ?thesis using that by linarith
  qed
  have pad: "length d = length b3 \<and> (p < p3 \<longrightarrow> stream_bit d p = stream_bit b3 p)" for p
  proof (cases "p < p3")
    case True
    have "p div 8 < ?q2 div 8" using q [OF True] by (simp add: div_less_iff_less_mult)
    from pad_keeps [OF this, of "\<lambda>i. if (i - ?q2 div 8) mod 2 = 0 then 0xEC else 0x11" b3 "data_cw (kVer ! v)"] True show ?thesis unfolding d by blast
  next
    case False
    have "0 div 8 < ?q2 div 8" using q [of 0] r3(1) by (simp add: div_greater_zero_iff)
    from pad_keeps [OF this, of "\<lambda>i. if (i - ?q2 div 8) mod 2 = 0 then 0xEC else 0x11" b3 "data_cw (kVer ! v)"] False show ?thesis unfolding d by blast
  qed
  show "length d = 216" using pad [of 0] r3(2) by simp
  have small: "p3 \<le> 1728" using r3(1) fits(1,2) cc_def by linarith
  show "stream_bit d p = bit (4 :: u32) (3 - p)" if "p < 4"
    using that pad [of p] r3 r2 r1 small by auto
  show "stream_bit d (4 + p) = bit (of_nat (length msg) :: u32) (cc - 1 - p)" if "p < cc"
    using that pad [of "4 + p"] r3 r2 r1 small by auto
  show "stream_bit d (4 + cc + p) = bit (of_char (msg ! (p div 8)) :: u32) (7 - p mod 8)" if "p < 8 * length msg"
    using that pad [of "4 + cc + p"] r3 r2 r1 small by auto
qed


section \<open>Reading bits as numbers\<close>

lemma bits_value_bits: "bits_value (map (\<lambda>i. bit (a :: nat) (n - 1 - i)) [0..<n]) = take_bit n a"
proof -
  have "rev (map (\<lambda>i. bit a (n - 1 - i)) [0..<n]) = map (bit a) [0..<n]"
    by (rule nth_equalityI) (auto simp: rev_nth)
  then show ?thesis by (simp add: bits_value_def horner_sum_bit_eq_take_bit)
qed

lemma bits_value_eq:
  assumes "\<And>i. i < n \<Longrightarrow> f i = bit (a :: nat) (n - 1 - i)" "a < 2 ^ n"
  shows "bits_value (map f [0..<n]) = a"
proof -
  have m: "map f [0..<n] = map (\<lambda>i. bit a (n - 1 - i)) [0..<n]" using assms(1) by simp
  show ?thesis unfolding m bits_value_bits using assms(2) by (simp add: take_bit_nat_eq_self)
qed

lemma take_drop_map_upt:
  "k + n \<le> N \<Longrightarrow> take n (drop k (map f [0..<N])) = map (\<lambda>i. f (k + i)) [0..<n]"
  by (rule nth_equalityI) auto

lemma bit_unat: "bit (unat w) i = bit w i" for w :: "'a::len word"
  by (simp add: bit_unsigned_iff)

lemma map_upt_add: "map f [0..<a + b] = map f [0..<a] @ map (\<lambda>i. f (a + i)) [0..<b]"
  by (induction b) simp_all

lemma stream_bytes: "concat (map byte_to_bits (map unat ws)) = map (stream_bit ws) [0..<8 * length ws]"
proof (induction ws rule: rev_induct)
  case (snoc w ws)
  have "map (stream_bit (ws @ [w])) [0..<8 * length (ws @ [w])] =
      map (stream_bit (ws @ [w])) [0..<8 * length ws] @ map (\<lambda>i. stream_bit (ws @ [w]) (8 * length ws + i)) [0..<8]"
    using map_upt_add [of "stream_bit (ws @ [w])" "8 * length ws" 8] by (simp add: algebra_simps)
  also have "map (stream_bit (ws @ [w])) [0..<8 * length ws] = map (stream_bit ws) [0..<8 * length ws]"
    by (auto simp: stream_bit_def nth_append)
  also have "map (\<lambda>i. stream_bit (ws @ [w]) (8 * length ws + i)) [0..<8] = byte_to_bits (unat w)"
    by (auto simp: stream_bit_def nth_append byte_to_bits_def bit_unat)
  finally show ?case using snoc by simp
qed simp

lemma read_codewords_stream:
  assumes "n \<le> length ws" "8 * n \<le> length bs" "\<And>k. k < 8 * n \<Longrightarrow> bs ! k = stream_bit ws k"
  shows "read_codewords n bs = map unat (take n ws)"
proof (rule nth_equalityI)
  show "length (read_codewords n bs) = length (map unat (take n ws))" using assms(1) by (simp add: read_codewords_def)
  fix k assume "k < length (read_codewords n bs)"
  then have k: "k < n" by (simp add: read_codewords_def)
  have "take 8 (drop (8 * k) bs) = map (\<lambda>i. stream_bit ws (8 * k + i)) [0..<8]"
    by (rule nth_equalityI) (use assms(2,3) k in auto)
  moreover have "bits_value (map (\<lambda>i. stream_bit ws (8 * k + i)) [0..<8]) = unat (ws ! k)"
    by (rule bits_value_eq) (use unsigned_less [of "ws ! k", where 'a = nat] in \<open>simp_all add: stream_bit_def bit_unat\<close>)
  ultimately show "read_codewords n bs ! k = map unat (take n ws) ! k"
    using k assms(1) by (simp add: read_codewords_def)
qed

section \<open>Dealing the codewords back\<close>

lemma orders_agree: "set (block_order v) \<subseteq> set (codeword_order v)"
  by (auto simp: block_order_def codeword_order_def block_len_def split: if_splits)

lemma order_length: "1 \<le> v \<Longrightarrow> v \<le> 10 \<Longrightarrow>
   length (codeword_order v) = data_cw (kVer ! v) \<and> block_off v (block_count v) = data_cw (kVer ! v)"
proof -
  have "\<forall>v \<in> set [1..<11]. length (codeword_order v) = data_cw (kVer ! v) \<and> block_off v (block_count v) = data_cw (kVer ! v)"
    by code_simp
  then show "1 \<le> v \<Longrightarrow> v \<le> 10 \<Longrightarrow>
      length (codeword_order v) = data_cw (kVer ! v) \<and> block_off v (block_count v) = data_cw (kVer ! v)"
    by (elim bspec) simp
qed

lemma codewords_split:
  "codewords v data = map (\<lambda>(b, i). data ! (block_off v b + i)) (codeword_order v) @
    [block_ecc v data b ! i. i \<leftarrow> [0..<ec_cw (kVer ! v)], b \<leftarrow> [0..<block_count v]]"
  by (simp add: codewords_def codeword_order_def map_concat comp_def if_distrib cong: if_cong)

lemma parity_length:
  "length [block_ecc v data b ! i. i \<leftarrow> [0..<n], b \<leftarrow> [0..<m]] = m * n"
  by (induction n) simp_all

lemma codewords_length: "1 \<le> v \<Longrightarrow> v \<le> 10 \<Longrightarrow> length (codewords v data) = codeword_total v"
  by (simp add: codewords_split order_length parity_length codeword_total_def)

lemma blocks_in_order:
  "block_off v n \<le> length data \<Longrightarrow>
    concat (map (\<lambda>b. map (\<lambda>i. data ! (block_off v b + i)) [0..<block_len v b]) [0..<n]) = take (block_off v n) data"
proof (induction n)
  case (Suc n)
  have off: "block_off v (Suc n) = block_off v n + block_len v n" by (simp add: block_off_def)
  have "map (\<lambda>i. data ! (block_off v n + i)) [0..<block_len v n] = take (block_len v n) (drop (block_off v n) data)"
    by (rule nth_equalityI) (use Suc.prems off in auto)
  then show ?case using Suc off by (simp add: take_add)
qed (simp add: block_off_def)

lemma deal_back_codewords:
  assumes "1 \<le> v" "v \<le> 10" "data_cw (kVer ! v) \<le> length data"
  shows "deal_back v (map unat (take (data_cw (kVer ! v)) (codewords v data))) = map unat (take (data_cw (kVer ! v)) data)"
proof -
  let ?f = "\<lambda>(b, i). data ! (block_off v b + i)" and ?n = "data_cw (kVer ! v)"
  have t: "take ?n (codewords v data) = map ?f (codeword_order v)"
    using order_length [OF assms(1,2)] by (simp add: codewords_split)
  have "the (map_of (zip (codeword_order v) (map unat (map ?f (codeword_order v)))) p) = unat (?f p)"
    if "p \<in> set (block_order v)" for p
  proof -
    have "p \<in> set (codeword_order v)" using that orders_agree by blast
    then show ?thesis by (simp add: map_of_zip_map)
  qed
  then have "deal_back v (map unat (map ?f (codeword_order v))) = map unat (map ?f (block_order v))"
    by (simp add: deal_back_def)
  also have "map ?f (block_order v) = take ?n data"
    using blocks_in_order [of v "block_count v" data] order_length [OF assms(1,2)] assms(3)
    by (simp add: block_order_def map_concat comp_def)
  finally show ?thesis using t by simp
qed

section \<open>Reading the segment\<close>

lemma bit_u32_of_nat: "i < 32 \<Longrightarrow> bit (of_nat n :: u32) i = bit n i"
  by (simp add: bit_of_nat_iff)

lemma bit_char_u32: "i < 8 \<Longrightarrow> bit (of_char c :: u32) i = bit (of_char c :: nat) i"
proof -
  assume i: "i < 8"
  have "(of_char c :: u32) = of_nat (of_char c)" by (simp add: of_nat_of_char)
  then show ?thesis using i by (simp only: bit_u32_of_nat)
qed

lemma read_segment_stream:
  assumes "1 \<le> v" "v \<le> 10" "length msg \<le> byte_capacity v"
  shows "read_segment v (map (stream_bit (data_stream v msg)) [0..<8 * data_cw (kVer ! v)]) = Some msg"
proof -
  let ?d = "data_stream v msg" and ?cc = "count_bits v" and ?N = "8 * data_cw (kVer ! v)"
  let ?bs = "map (stream_bit ?d) [0..<?N]"
  note fits = capacity_fits [OF assms] and bits = data_stream_bits [OF assms]
  have "take 4 ?bs = map (\<lambda>i. stream_bit ?d (0 + i)) [0..<4]"
    using take_drop_map_upt [of 0 4 ?N "stream_bit ?d"] fits(1) by simp
  moreover have "bits_value (map (\<lambda>i. stream_bit ?d (0 + i)) [0..<4]) = 4"
  proof (rule bits_value_eq)
    fix i :: nat assume "i < 4"
    moreover from this have "i \<in> {0, 1, 2, 3}" by auto
    ultimately show "stream_bit ?d (0 + i) = bit (4 :: nat) (4 - 1 - i)" by (auto simp: bits(2) bit_0)
  qed simp
  moreover have "take ?cc (drop 4 ?bs) = map (\<lambda>i. stream_bit ?d (4 + i)) [0..<?cc]"
    by (rule take_drop_map_upt) (use fits(1) in linarith)
  moreover have "bits_value (map (\<lambda>i. stream_bit ?d (4 + i)) [0..<?cc]) = length msg"
  proof (rule bits_value_eq)
    show "length msg < 2 ^ ?cc" using fits(3) by (simp add: count_bits_def)
    show "stream_bit ?d (4 + i) = bit (length msg) (?cc - 1 - i)" if "i < ?cc" for i
      using that by (simp add: bits(3) bit_u32_of_nat count_bits_def split: if_splits)
  qed
  moreover have "char_of (bits_value (take 8 (drop (8 * k) (drop (4 + ?cc) ?bs)))) = msg ! k" if "k < length msg" for k
  proof -
    have "take 8 (drop (8 * k) (drop (4 + ?cc) ?bs)) = map (\<lambda>i. stream_bit ?d (4 + ?cc + 8 * k + i)) [0..<8]"
      unfolding drop_drop by (subst take_drop_map_upt) (use fits(1) that in \<open>simp_all add: ac_simps\<close>)
    moreover have "bits_value (map (\<lambda>i. stream_bit ?d (4 + ?cc + 8 * k + i)) [0..<8]) = of_char (msg ! k)"
    proof (rule bits_value_eq)
      show "(of_char (msg ! k) :: nat) < 2 ^ 8" by simp
      show "stream_bit ?d (4 + ?cc + 8 * k + i) = bit (of_char (msg ! k) :: nat) (8 - 1 - i)" if "i < 8" for i
        using that \<open>k < length msg\<close> bits(4) [of "8 * k + i"] by (simp add: bit_char_u32 add.assoc)
    qed
    ultimately show ?thesis by simp
  qed
  then have "map (\<lambda>k. char_of (bits_value (take 8 (drop (8 * k) (drop (4 + ?cc) ?bs))))) [0..<length msg] = msg"
    by (intro nth_equalityI) simp_all
  ultimately show ?thesis by (simp add: read_segment_def Let_def)
qed


section \<open>The choice of the mask and of the version\<close>

lemma best_mask_prefix:
  fixes score :: "nat \<Rightarrow> nat"
  defines "turn \<equiv> \<lambda>(best, best_score) m. if m = 0 \<or> score m < best_score then (m, score m) else (best, best_score)"
  shows "fst (foldl turn (0, 0) [0..<Suc n]) \<le> n \<and>
    snd (foldl turn (0, 0) [0..<Suc n]) = score (fst (foldl turn (0, 0) [0..<Suc n])) \<and>
    (\<forall>j \<le> n. snd (foldl turn (0, 0) [0..<Suc n]) \<le> score j)"
proof (induction n)
  case 0
  then show ?case by (simp add: turn_def)
next
  case (Suc n)
  obtain m p where mp: "foldl turn (0, 0) [0..<Suc n] = (m, p)" by fastforce
  have s: "foldl turn (0, 0) [0..<Suc (Suc n)] = (if score (Suc n) < p then (Suc n, score (Suc n)) else (m, p))"
    using mp by (simp add: turn_def)
  show ?case unfolding s using Suc mp by (auto simp: le_Suc_eq)
qed

lemma best_mask_best:
  "fst (best_mask base rsv sz) < 8"
  "m < 8 \<Longrightarrow> penalty (render base rsv sz (fst (best_mask base rsv sz))) sz \<le> penalty (render base rsv sz m) sz"
  using best_mask_prefix [of "\<lambda>m. penalty (render base rsv sz m) sz" 7]
  unfolding best_mask_def Let_def eval_nat_numeral by (auto simp: less_Suc_eq_le)

lemma version_table: "map byte_capacity [1..<11] = [14, 26, 42, 62, 84, 106, 122, 152, 180, 213]"
  by (simp add: upt_rec byte_capacity_def kVer_def count_bits_def)

lemma pick_version_ten:
  "pick_version n = (case find (\<lambda>v. n \<le> byte_capacity v) [1..<11] of None \<Rightarrow> 0 | Some v \<Rightarrow> v)"
  by (simp add: pick_version_def QR_MAX_VERSION_def)

lemma pick_version_spec:
  assumes "pick_version n = v" "v \<noteq> 0"
  shows "1 \<le> v \<and> v \<le> 10 \<and> n \<le> byte_capacity v"
proof -
  have "find (\<lambda>v. n \<le> byte_capacity v) [1..<11] = Some v"
    using assms by (auto simp: pick_version_ten split: option.splits)
  then show ?thesis unfolding find_Some_iff by auto
qed

lemma pick_version_found: "n \<le> 213 \<Longrightarrow> pick_version n \<noteq> 0"
proof -
  assume n: "n \<le> 213"
  have "byte_capacity 10 = 213" by (simp add: byte_capacity_def kVer_def count_bits_def)
  then have "find (\<lambda>v. n \<le> byte_capacity v) [1..<11] \<noteq> None"
    using n unfolding find_None_iff by (auto intro!: exI [of _ 10])
  then show ?thesis by (auto simp: pick_version_ten find_Some_iff split: option.splits)
qed

lemma pick_version_too_long: "213 < n \<Longrightarrow> pick_version n = 0"
proof -
  assume n: "213 < n"
  have "list_all (\<lambda>c. c \<le> 213) (map byte_capacity [1..<11])" unfolding version_table by simp
  then have "\<forall>v \<in> set [1..<11]. byte_capacity v \<le> 213" by (simp only: list_all_iff set_map ball_simps)
  then have "find (\<lambda>v. n \<le> byte_capacity v) [1..<11] = None"
    using n unfolding find_None_iff by (metis le_trans not_le)
  then show ?thesis by (simp add: pick_version_ten)
qed

section \<open>The symbol read back\<close>

lemma symbol_stream:
  fixes msg :: string
  assumes "1 \<le> v" "v \<le> 10" "k < 8 * codeword_total v"
  defines "pair \<equiv> qr_symbol v msg" and "c \<equiv> free_cells v ! k"
  shows "k < length (free_cells v)" "fst c < 17 + 4 * v" "snd c < 17 + 4 * v" "\<not> reserved v (17 + 4 * v) (fst c) (snd c)"
    "wf_grid (fst pair)" "\<not> gget (snd pair) (fst c) (snd c)"
    "gget (fst pair) (fst c) (snd c) = stream_bit (codewords v (data_stream v msg)) k"
proof -
  let ?sz = "17 + 4 * v" and ?cws = "codewords v (data_stream v msg)"
  let ?s = "draw_function_patterns v ?sz (empty_grid, empty_grid)"
  have sz: "21 \<le> ?sz" "?sz \<le> 57" using assms(1,2) by auto
  have ok: "wf_pair ?s" by (rule patterns_ok [OF empty_pair_ok])
  have pair: "fst pair = fst (foldl (place (snd ?s) ?cws) (fst ?s, 0) (walk_cells ?sz))" "snd pair = snd ?s"
    by (simp_all add: pair_def qr_symbol_def Let_def case_prod_unfold)
  show k: "k < length (free_cells v)" using free_cells_suffice [OF assms(1,2)] assms(3) by linarith
  have "c \<in> set (free_cells v)" using k c_def by simp
  then have cc: "fst c < ?sz \<and> snd c < ?sz \<and> \<not> reserved v ?sz (fst c) (snd c)"
    by (auto simp: free_cells_def walk_cells_set)
  then show "fst c < ?sz" "snd c < ?sz" "\<not> reserved v ?sz (fst c) (snd c)" by auto
  show "wf_grid (fst pair)" unfolding pair using ok by (auto intro: place_ok simp: wf_pair_def)
  have F: "free_cells v = filter (\<lambda>(a, b). \<not> gget (snd ?s) a b) (walk_cells ?sz)"
    unfolding free_cells_def by (rule filter_cong) (auto simp: walk_cells_set patterns_reserve [OF sz])
  show "\<not> gget (snd pair) (fst c) (snd c)" unfolding pair using patterns_reserve [OF sz] cc by blast
  have "gget (fst (foldl (place (snd ?s) ?cws) (fst ?s, 0) (walk_cells ?sz))) (fst c) (snd c) = stream_bit ?cws (0 + k)"
    unfolding c_def
  proof (rule place_stream)
    show "wf_grid (fst ?s)" using ok by (simp add: wf_pair_def)
    show "distinct (walk_cells ?sz)" by (simp add: walk_cells_def walk_distinct)
    show "\<And>a b. (a, b) \<in> set (walk_cells ?sz) \<Longrightarrow> a < 57 \<and> b < 57" using sz by (auto simp: walk_cells_set)
    show "0 + k < length ?cws * 8" using assms codewords_length by simp
  qed (use F k in auto)
  then show "gget (fst pair) (fst c) (snd c) = stream_bit ?cws k" unfolding pair by simp
qed

lemma read_modules_stream:
  fixes msg :: string
  assumes "1 \<le> v" "v \<le> 10" "m < 8"
  defines "pair \<equiv> qr_symbol v msg"
  defines "q \<equiv> \<lparr>qr_version = v, qr_size = 17 + 4 * v, modules = render (fst pair) (snd pair) (17 + 4 * v) m\<rparr>"
  shows "length (read_modules q) = length (free_cells v)"
    and "k < 8 * codeword_total v \<Longrightarrow> read_modules q ! k = stream_bit (codewords v (data_stream v msg)) k"
proof -
  let ?sz = "17 + 4 * v"
  have sz: "21 \<le> ?sz" "?sz \<le> 57" using assms(1,2) by auto
  have "0 < codeword_total v" using order_length [OF assms(1,2)] capacity_fits(1) [OF assms(1,2), of 0] by (simp add: codeword_total_def)
  then have "wf_grid (fst pair)" unfolding pair_def using symbol_stream(5) [OF assms(1,2), of 0] by simp
  then have "wf_grid (foldl (mask_cell m (snd pair)) (fst pair) (all_cells ?sz))" by (rule mask_cell_ok)
  then have mask: "read_mask (modules q) = m" using read_mask_format [OF _ sz assms(3)] by (simp add: q_def render_def)
  have r: "read_modules q = map (\<lambda>(x, y). qr_module q (int x) (int y) \<noteq> mask_at m x y) (free_cells v)"
    unfolding read_modules_def Let_def mask free_cells_def by (simp add: q_def)
  show "length (read_modules q) = length (free_cells v)" by (simp add: r)
  assume k: "k < 8 * codeword_total v"
  let ?c = "free_cells v ! k"
  note st = symbol_stream(1-4) [OF assms(1,2) k] symbol_stream(5-7) [OF assms(1,2) k, where msg = msg, folded pair_def]
  have "qr_module q (int (fst ?c)) (int (snd ?c)) = gget (modules q) (fst ?c) (snd ?c)"
    using st(2,3) assms(1) by (simp add: qr_module_def q_def)
  also have "\<dots> = (gget (fst pair) (fst ?c) (snd ?c) \<noteq> mask_at m (fst ?c) (snd ?c))"
    unfolding q_def qr.simps by (rule render_free [OF st(5) sz st(2,3,4,6)])
  finally show "read_modules q ! k = stream_bit (codewords v (data_stream v msg)) k"
    unfolding r using st(1,7) by (simp add: case_prod_unfold) blast
qed

lemma qr_read_symbol:
  fixes msg :: string
  assumes "1 \<le> v" "v \<le> 10" "m < 8" "length msg \<le> byte_capacity v"
  defines "pair \<equiv> qr_symbol v msg"
  shows "qr_read \<lparr>qr_version = v, qr_size = 17 + 4 * v, modules = render (fst pair) (snd pair) (17 + 4 * v) m\<rparr> = Some msg"
proof -
  let ?q = "\<lparr>qr_version = v, qr_size = 17 + 4 * v, modules = render (fst pair) (snd pair) (17 + 4 * v) m\<rparr>"
  let ?d = "data_stream v msg" and ?n = "data_cw (kVer ! v)"
  note rd = read_modules_stream [OF assms(1-3), where msg = msg, folded pair_def]
  have n: "?n \<le> codeword_total v" by (simp add: codeword_total_def)
  have d: "length ?d = 216" "?n \<le> 216" using data_stream_bits(1) [OF assms(1,2,4)] capacity_fits(2) [OF assms(1,2,4)] by auto
  have "read_codewords ?n (read_modules ?q) = map unat (take ?n (codewords v ?d))"
  proof (rule read_codewords_stream)
    show "?n \<le> length (codewords v ?d)" using n codewords_length [OF assms(1,2)] by simp
    show "8 * ?n \<le> length (read_modules ?q)" using n free_cells_suffice [OF assms(1,2)] rd(1) by simp
    show "\<And>k. k < 8 * ?n \<Longrightarrow> read_modules ?q ! k = stream_bit (codewords v ?d) k" using rd(2) n by simp
  qed
  then have "deal_back v (read_codewords ?n (read_modules ?q)) = map unat (take ?n ?d)"
    using deal_back_codewords [OF assms(1,2), of ?d] d by simp
  moreover have "concat (map byte_to_bits (map unat (take ?n ?d))) = map (stream_bit ?d) [0..<8 * ?n]"
    unfolding stream_bytes using d by (auto simp: stream_bit_def min_def)
  ultimately show ?thesis
    using read_segment_stream [OF assms(1,2,4)] by (simp add: qr_read_def Let_def)
qed

section \<open>Properties\<close>



text \<open>
  The mask the encoder settles on has the lowest penalty of the eight.
\<close>

theorem chosen_mask_is_best:
  assumes "fst (qr_encode (Some msg))" "m < 8"
  defines "pair \<equiv> qr_symbol (pick_version (length msg)) msg" and "sz \<equiv> 17 + 4 * pick_version (length msg)"
  shows "penalty (modules (snd (qr_encode (Some msg)))) sz \<le> penalty (render (fst pair) (snd pair) sz m) sz"
  using assms(1) best_mask_best(2) [OF assms(2), of "fst pair" "snd pair" sz]
  by (auto simp: qr_encode_def Let_def case_prod_unfold pair_def sz_def split: if_splits)

theorem chosen_mask_is_best_witness:
  "penalty (modules (snd (qr_encode (Some ''KINO'')))) 21 \<le>
   penalty (render (fst (qr_symbol 1 ''KINO'')) (snd (qr_symbol 1 ''KINO'')) 21 3) 21"
proof -
  have p: "pick_version (length ''KINO'') = 1"
    by (simp add: pick_version_def QR_MAX_VERSION_def upt_rec byte_capacity_def kVer_def count_bits_def)
  then have "fst (qr_encode (Some ''KINO''))" by (simp add: qr_encode_def Let_def case_prod_unfold)
  from chosen_mask_is_best [OF this, of 3] show ?thesis unfolding p by simp
qed

end
