(* ===== verification/Qr_Penalty.thy ===== *)
theory Qr_Penalty
  imports Qr_Code
begin

text \<open>
  The penalty score of the join code's symbol against the four rules of the standard. \<^verbatim>\<open>penalty\<close> of
  \<^verbatim>\<open>firmware/p4/main/qr.c\<close> works rules one and three out in a single sweep with running lengths and a shifting
  window; here the rules are written on the lines of the symbol, and the sweep computes them.
\<close>

section \<open>The rules on a line\<close>

function run_lengths :: "bool list \<Rightarrow> nat list" where
  "run_lengths [] = []"
| "run_lengths (b # bs) = Suc (length (takeWhile (\<lambda>c. c = b) bs)) # run_lengths (dropWhile (\<lambda>c. c = b) bs)"
  by pat_completeness auto
termination
  by (relation "measure length") (auto simp: less_Suc_eq_le length_dropWhile_le)

definition rule_runs :: "bool list \<Rightarrow> nat" where
  "rule_runs ls = sum_list (map run_score (run_lengths ls))"

definition finder_like :: "bool list set" where
  "finder_like = {[True, False, True, True, True, False, True, False, False, False, False],
                  [False, False, False, False, True, False, True, True, True, False, True]}"

definition windows :: "bool list \<Rightarrow> bool list list" where
  "windows ls = map (\<lambda>i. take 11 (drop i ls)) [0..<length ls - 10]"

definition rule_finder :: "bool list \<Rightarrow> nat" where
  "rule_finder ls = 40 * length (filter (\<lambda>w. w \<in> finder_like) (windows ls))"

lemma run_lengths_Nil [simp]: "run_lengths xs = [] \<longleftrightarrow> xs = []"
  by (cases xs) simp_all

lemma run_lengths_snoc:
  "xs \<noteq> [] \<Longrightarrow> run_lengths (xs @ [y]) =
    (if last xs = y then butlast (run_lengths xs) @ [Suc (last (run_lengths xs))] else run_lengths xs @ [1])"
proof (induction xs rule: run_lengths.induct)
  case (2 b bs)
  show ?case
  proof (cases "dropWhile (\<lambda>c. c = b) bs")
    case Nil
    then have all: "\<forall>c \<in> set bs. c = b" by simp
    then have l: "last (b # bs) = b" by (cases bs rule: rev_cases) auto
    have "takeWhile (\<lambda>c. c = b) bs = bs" using all by simp
    then have r: "run_lengths (b # bs) = [Suc (length bs)]" by (simp only: run_lengths.simps Nil)
    have "takeWhile (\<lambda>c. c = b) (bs @ [y]) = (if y = b then bs @ [y] else bs)"
      "dropWhile (\<lambda>c. c = b) (bs @ [y]) = (if y = b then [] else [y])" using all by auto
    then have ry: "run_lengths ((b # bs) @ [y]) = (if y = b then [Suc (Suc (length bs))] else [Suc (length bs), 1])"
      by (simp only: append_Cons run_lengths.simps) simp
    show ?thesis unfolding l r ry by auto
  next
    case (Cons c cs)
    let ?d = "dropWhile (\<lambda>c. c = b) bs"
    have ne: "?d \<noteq> []" using Cons by simp
    then have ex: "\<exists>c \<in> set bs. c \<noteq> b" unfolding dropWhile_eq_Nil_conv by blast
    have l: "last (b # bs) = last ?d"
      using ne by (metis last_ConsR last_append takeWhile_dropWhile_id dropWhile.simps(1))
    have IH: "run_lengths (?d @ [y]) = (if last ?d = y then butlast (run_lengths ?d) @ [Suc (last (run_lengths ?d))] else run_lengths ?d @ [1])"
      by (rule 2(1) [OF ne])
    have tw: "takeWhile (\<lambda>c. c = b) (bs @ [y]) = takeWhile (\<lambda>c. c = b) bs" "dropWhile (\<lambda>c. c = b) (bs @ [y]) = ?d @ [y]"
      using ex by auto
    have "run_lengths ?d \<noteq> []" using ne by simp
    then show ?thesis
      unfolding append_Cons run_lengths.simps tw IH l by (cases "last ?d = y") (simp_all only: refl if_True if_False butlast.simps last.simps append_Cons)
  qed
qed simp

lemma rule_runs_snoc:
  assumes "xs \<noteq> []"
  shows "rule_runs (xs @ [y]) + run_score (last (run_lengths xs)) =
    (if last xs = y then rule_runs xs + run_score (Suc (last (run_lengths xs)))
     else rule_runs xs + run_score (last (run_lengths xs)) + run_score 1)"
proof -
  obtain us u where "run_lengths xs = us @ [u]" using assms by (cases "run_lengths xs" rule: rev_cases) auto
  then show ?thesis by (simp add: rule_runs_def run_lengths_snoc [OF assms])
qed

lemma windows_snoc:
  "windows (xs @ [y]) = windows xs @ (if 10 \<le> length xs then [drop (length xs - 10) xs @ [y]] else [])"
proof (cases "10 \<le> length xs")
  case True
  then have "length (xs @ [y]) - 10 = Suc (length xs - 10)" by simp
  then have "[0..<length (xs @ [y]) - 10] = [0..<length xs - 10] @ [length xs - 10]" by (simp only: upt_Suc_append le0)
  then show ?thesis using True by (auto simp: windows_def)
qed (simp add: windows_def)

section \<open>One line of the sweep\<close>

definition scan_turn :: "nat \<times> sweep_line \<Rightarrow> nat \<times> bool \<Rightarrow> nat \<times> sweep_line" where
  "scan_turn = (\<lambda>(p, l) (b, v).
    let (p1, l1) = run_turn v (p, l); l2 = win_turn v l1
    in (if b \<ge> 10 then p1 + win_score l2 else p1, l2))"

definition scan_line :: "bool list \<Rightarrow> nat \<times> sweep_line" where
  "scan_line ls = foldl scan_turn (0, \<lparr>prev = hd ls, run = 0, win = 0\<rparr>) (enumerate 0 ls)"

lemma bits_value_snoc: "bits_value (xs @ [y]) = 2 * bits_value xs + (if y then 1 else 0)"
  by (simp add: bits_value_def)

lemma bits_value_less: "bits_value xs < 2 ^ length xs"
  by (induction xs rule: rev_induct) (auto simp: bits_value_snoc, simp add: bits_value_def)

lemma bits_value_Cons: "bits_value (x # xs) = (if x then 2 ^ length xs else 0) + bits_value xs"
proof (induction xs rule: rev_induct)
  case (snoc y ys)
  then show ?case using bits_value_snoc [of "x # ys" y] by (simp add: bits_value_snoc)
qed (simp add: bits_value_def)

lemma bits_value_inj: "length xs = length ys \<Longrightarrow> bits_value xs = bits_value ys \<Longrightarrow> xs = ys"
proof (induction xs ys rule: list_induct2)
  case (Cons x xs y ys)
  have "bits_value xs < 2 ^ length xs" "bits_value ys < 2 ^ length xs" using bits_value_less Cons(1) by metis+
  then show ?case using Cons by (auto simp: bits_value_Cons split: if_splits)
qed simp

lemma finder_like_value: "length w = 11 \<Longrightarrow> (bits_value w = 0x5D0 \<or> bits_value w = 0x05D) = (w \<in> finder_like)"
proof -
  assume l: "length w = 11"
  let ?l = "[True, False, True, True, True, False, True, False, False, False, False]"
  let ?r = "[False, False, False, False, True, False, True, True, True, False, True]"
  have v: "bits_value ?l = 0x5D0" "bits_value ?r = 0x05D" by (simp_all add: bits_value_def)
  have "(bits_value w = bits_value ?l) = (w = ?l)" using bits_value_inj [of w ?l] l by auto
  moreover have "(bits_value w = bits_value ?r) = (w = ?r)" using bits_value_inj [of w ?r] l by auto
  ultimately show ?thesis unfolding v finder_like_def by blast
qed

lemma window_value: "(2 * bits_value w) mod 2048 = 2 * bits_value (drop (length w - 10) w)" if "length w \<le> 11"
proof (cases "length w = 11")
  case True
  then obtain x xs where w: "w = x # xs" "length xs = 10" by (cases w) auto
  then have "bits_value xs < 1024" using bits_value_less [of xs] by simp
  then show ?thesis using w by (simp add: bits_value_Cons)
next
  case False
  then have "length w \<le> 10" using that by simp
  moreover have "bits_value w < 1024"
    using bits_value_less [of w] power_increasing [OF calculation, of "2 :: nat"] by simp
  ultimately show ?thesis by simp
qed

lemma scan_line_snoc:
  "ls \<noteq> [] \<Longrightarrow> scan_line (ls @ [y]) = scan_turn (scan_line ls) (length ls, y)"
  by (simp add: scan_line_def enumerate_append_eq hd_append)

lemma scan_line_state:
  assumes "ls \<noteq> []"
  shows "prev (snd (scan_line ls)) = last ls \<and> run (snd (scan_line ls)) = last (run_lengths ls) \<and>
    win (snd (scan_line ls)) = bits_value (drop (length ls - 11) ls) \<and>
    fst (scan_line ls) + run_score (run (snd (scan_line ls))) = rule_runs ls + rule_finder ls"
  using assms
proof (induction ls rule: rev_nonempty_induct)
  case (single x)
  have "scan_line [x] = (0, \<lparr>prev = x, run = 1, win = if x then 1 else 0\<rparr>)"
    by (simp add: scan_line_def scan_turn_def run_turn_def win_turn_def)
  then show ?case by (simp add: rule_runs_def rule_finder_def windows_def bits_value_def)
next
  case (snoc y ls)
  obtain p l where pl: "scan_line ls = (p, l)" by fastforce
  have IH: "prev l = last ls" "run l = last (run_lengths ls)" "win l = bits_value (drop (length ls - 11) ls)"
    "p + run_score (run l) = rule_runs ls + rule_finder ls" using snoc pl by auto
  let ?w = "drop (length (ls @ [y]) - 11) (ls @ [y])"
  have w: "(2 * win l) mod 2048 + (if y then 1 else 0) = bits_value ?w"
  proof -
    let ?v = "drop (length ls - 11) ls"
    have "drop (length ?v - 10) ?v = drop (length ls - 10) ls"
      unfolding drop_drop length_drop by (rule arg_cong [where f = "\<lambda>n. drop n ls"]) arith
    then have "(2 * win l) mod 2048 = 2 * bits_value (drop (length ls - 10) ls)"
      using window_value [of ?v] IH(3) by simp
    moreover have "?w = drop (length ls - 10) ls @ [y]" by simp
    ultimately show ?thesis by (simp only: bits_value_snoc)
  qed
  have f: "rule_finder (ls @ [y]) = rule_finder ls + (if 10 \<le> length ls \<and> (bits_value ?w = 0x5D0 \<or> bits_value ?w = 0x05D) then 40 else 0)"
    using finder_like_value [of ?w] by (auto simp: rule_finder_def windows_snoc)
  have r: "rule_runs (ls @ [y]) + rule_finder ls =
      (if prev l = y then p + run_score (run l + 1) else p + run_score (run l) + run_score 1)"
    using rule_runs_snoc [OF snoc(1), of y] IH by (auto split: if_splits)
  show ?case
    unfolding scan_line_snoc [OF snoc(1)] pl
    using IH(1,2) w f r run_lengths_snoc [OF snoc(1), of y]
    by (auto simp: scan_turn_def run_turn_def win_turn_def win_score_def Let_def)
qed


lemma scan_line_rules:
  assumes "ls \<noteq> []"
  shows "fst (scan_line ls) + run_score (run (snd (scan_line ls))) = rule_runs ls + rule_finder ls"
  using scan_line_state [OF assms] by blast

section \<open>The sweep over both directions\<close>

definition row_of :: "grid \<Rightarrow> nat \<Rightarrow> nat \<Rightarrow> bool list" where
  "row_of g sz a = map (\<lambda>b. gget g b a) [0..<sz]"

definition column_of :: "grid \<Rightarrow> nat \<Rightarrow> nat \<Rightarrow> bool list" where
  "column_of g sz a = map (\<lambda>b. gget g a b) [0..<sz]"

definition line_start :: "bool \<Rightarrow> sweep_line" where
  "line_start v = \<lparr>prev = v, run = 0, win = 0\<rparr>"

lemma enumerate_map_upt: "enumerate 0 (map f [0..<n]) = map (\<lambda>b. (b, f b)) [0..<n]"
  by (rule nth_equalityI) (simp_all add: nth_enumerate_eq)

lemma scan_turn_adds: "scan_turn (p, l) x = (p + fst (scan_turn (0, l) x), snd (scan_turn (0, l) x))"
  by (cases x) (simp add: scan_turn_def run_turn_def Let_def)

lemma sweep_turn_scan:
  "sweep_turn g a (p, dark, lh, lv) b =
    (p + fst (scan_turn (0, lh) (b, gget g b a)) + fst (scan_turn (0, lv) (b, gget g a b)),
     dark + (if gget g b a then 1 else 0),
     snd (scan_turn (0, lh) (b, gget g b a)), snd (scan_turn (0, lv) (b, gget g a b)))"
  by (simp add: sweep_turn_def scan_turn_def run_turn_def Let_def)

lemma sweep_turns:
  "foldl (sweep_turn g a) (p, dark, lh, lv) [0..<n] =
    (p + fst (foldl scan_turn (0, lh) (map (\<lambda>b. (b, gget g b a)) [0..<n])) +
       fst (foldl scan_turn (0, lv) (map (\<lambda>b. (b, gget g a b)) [0..<n])),
     dark + length (filter id (row_of g n a)),
     snd (foldl scan_turn (0, lh) (map (\<lambda>b. (b, gget g b a)) [0..<n])),
     snd (foldl scan_turn (0, lv) (map (\<lambda>b. (b, gget g a b)) [0..<n])))"
proof (induction n)
  case (Suc n)
  obtain ph h where h: "foldl scan_turn (0, lh) (map (\<lambda>b. (b, gget g b a)) [0..<n]) = (ph, h)" by fastforce
  obtain pv v where v: "foldl scan_turn (0, lv) (map (\<lambda>b. (b, gget g a b)) [0..<n]) = (pv, v)" by fastforce
  have "foldl scan_turn (0, lh) (map (\<lambda>b. (b, gget g b a)) [0..<Suc n]) = scan_turn (ph, h) (n, gget g n a)"
    "foldl scan_turn (0, lv) (map (\<lambda>b. (b, gget g a b)) [0..<Suc n]) = scan_turn (pv, v) (n, gget g a n)"
    using h v by simp_all
  then show ?case
    using Suc h v scan_turn_adds [of ph h] scan_turn_adds [of pv v]
    by (simp add: sweep_turn_scan row_of_def)
qed (simp add: row_of_def)

lemma sweep_line_rules:
  assumes "0 < sz"
  shows "sweep g sz (p, dark) a =
    (p + (rule_runs (row_of g sz a) + rule_finder (row_of g sz a)) + (rule_runs (column_of g sz a) + rule_finder (column_of g sz a)),
     dark + length (filter id (row_of g sz a)))"
proof -
  have hd: "hd (row_of g sz a) = gget g 0 a" "hd (column_of g sz a) = gget g a 0" "row_of g sz a \<noteq> []" "column_of g sz a \<noteq> []"
    using assms by (simp_all add: row_of_def column_of_def hd_map)
  have "scan_line (row_of g sz a) = foldl scan_turn (0, line_start (gget g 0 a)) (map (\<lambda>b. (b, gget g b a)) [0..<sz])"
    "scan_line (column_of g sz a) = foldl scan_turn (0, line_start (gget g a 0)) (map (\<lambda>b. (b, gget g a b)) [0..<sz])"
    unfolding scan_line_def hd by (simp_all add: row_of_def column_of_def enumerate_map_upt line_start_def)
  then show ?thesis
    using scan_line_rules [OF hd(3)] scan_line_rules [OF hd(4)]
    by (simp add: sweep_def Let_def sweep_turns line_start_def [symmetric])
qed

section \<open>The score\<close>

definition uniform_block :: "grid \<Rightarrow> nat \<times> nat \<Rightarrow> bool" where
  "uniform_block g = (\<lambda>(x, y). gget g (x + 1) y = gget g x y \<and> gget g x (y + 1) = gget g x y \<and> gget g (x + 1) (y + 1) = gget g x y)"

definition dark_modules :: "grid \<Rightarrow> nat \<Rightarrow> nat" where
  "dark_modules g sz = length (filter (\<lambda>(x, y). gget g x y) (all_cells sz))"

definition standard_penalty :: "grid \<Rightarrow> nat \<Rightarrow> nat" where
  "standard_penalty g sz =
    sum_list (map (\<lambda>a. rule_runs (row_of g sz a) + rule_finder (row_of g sz a) +
                       rule_runs (column_of g sz a) + rule_finder (column_of g sz a)) [0..<sz]) +
    3 * length (filter (uniform_block g) (all_cells (sz - 1))) +
    10 * nat (\<bar>100 * int (dark_modules g sz) - 50 * int (sz * sz)\<bar> div (5 * int (sz * sz)))"

lemma sweeps:
  assumes "0 < sz"
  shows "foldl (sweep g sz) (p, dark) as =
    (p + sum_list (map (\<lambda>a. rule_runs (row_of g sz a) + rule_finder (row_of g sz a) +
                       rule_runs (column_of g sz a) + rule_finder (column_of g sz a)) as),
     dark + sum_list (map (\<lambda>a. length (filter id (row_of g sz a))) as))"
  by (induction as arbitrary: p dark) (simp_all add: sweep_line_rules [OF assms])

lemma dark_by_rows: "dark_modules g sz = sum_list (map (\<lambda>a. length (filter id (row_of g sz a))) [0..<sz])"
proof -
  have "length (filter (\<lambda>(x, y). gget g x y) (concat (map (\<lambda>y. map (\<lambda>x. (x, y)) [0..<sz]) ys))) =
      sum_list (map (\<lambda>a. length (filter id (row_of g sz a))) ys)" for ys
    by (induction ys) (simp_all add: row_of_def filter_map comp_def)
  then show ?thesis by (simp add: dark_modules_def all_cells_def)
qed

lemma block_scores: "foldl (\<lambda>q (x, y). q + block_score g x y) p cs = p + 3 * length (filter (uniform_block g) cs)"
proof (induction cs arbitrary: p)
  case (Cons c cs)
  have "block_score g (fst c) (snd c) = (if uniform_block g c then 3 else 0)"
    by (auto simp: block_score_def uniform_block_def Let_def case_prod_unfold)
  then show ?case using Cons by (simp add: case_prod_unfold)
qed simp

text \<open>
  The penalty score is the standard's: for every grid, the encoder's single sweep computes three for every run
  of five and one for every further module of it, forty for every window that looks like a finder, three for every
  block of one colour and ten for every five percent the dark modules are off the half.
\<close>

theorem penalty_is_the_standard: "0 < sz \<Longrightarrow> penalty g sz = standard_penalty g sz"
  by (simp add: penalty_def standard_penalty_def sweeps dark_by_rows block_scores Let_def mult.commute)

theorem penalty_is_the_standard_witness: "penalty empty_grid 21 = standard_penalty empty_grid 21"
  using penalty_is_the_standard [of 21 empty_grid] by simp

end
