(* ===== verification/Klog.thy ===== *)
theory Klog
  imports Kino_Decimal
begin

text \<open>
  The device log, \<^verbatim>\<open>firmware/p4/main/klog.c\<close>: a ring of the last 600 lines with a count of all lines ever written,
  the line a reader may start at, the export of lines as text for the log file on the card and
  the choice of lines for a reply over the wire.

  The ring is compared with the whole history of lines. What a reader that keeps a cursor is promised
  is the interface \<open>line_source\<close>, which the log file's writer relies on.
\<close>

section \<open>The code\<close>

definition KLOG_CAPACITY :: nat where "KLOG_CAPACITY = 600"
definition KLOG_MSG_MAX :: nat where "KLOG_MSG_MAX = 96"

record klog_entry =
  t_ms :: int
  t_us :: nat
  src :: string
  msg :: string

record klog =
  ring :: "klog_entry list"
  log_count :: u32
  log_base :: u32
  log_ready :: bool
  emitter :: bool
  telemetry :: bool

definition blank_entry :: klog_entry where
  "blank_entry = \<lparr>t_ms = 0, t_us = 0, src = [], msg = []\<rparr>"

definition klog_boot :: klog where
  "klog_boot = \<lparr>ring = replicate KLOG_CAPACITY blank_entry, log_count = 0, log_base = 0, log_ready = False,
     emitter = False, telemetry = False\<rparr>"

definition klog_init :: "klog \<Rightarrow> klog" where
  "klog_init k = k\<lparr>log_ready := True\<rparr>"

definition klog_set_emitter :: "bool \<Rightarrow> klog \<Rightarrow> klog" where
  "klog_set_emitter fn k = k\<lparr>emitter := fn\<rparr>"

definition klog_set_telemetry :: "bool \<Rightarrow> klog \<Rightarrow> klog" where
  "klog_set_telemetry on k = k\<lparr>telemetry := on\<rparr>"

text \<open>\<^verbatim>\<open>strlcpy\<close> into the six bytes of the source and the 96 of the message; the result is the state and the entry pushed live.\<close>

definition make_entry :: "int \<Rightarrow> nat \<Rightarrow> string \<Rightarrow> string \<Rightarrow> klog_entry" where
  "make_entry t us s m = \<lparr>t_ms = t, t_us = us, src = take 5 s, msg = take (KLOG_MSG_MAX - 1) m\<rparr>"

definition klog_put :: "int \<Rightarrow> nat \<Rightarrow> string \<Rightarrow> string \<Rightarrow> klog \<Rightarrow> klog \<times> (int \<times> nat \<times> string \<times> string) option" where
  "klog_put t us s m k =
    (let k1 = (if log_ready k
               then k\<lparr>ring := (ring k)[unat (log_count k mod of_nat KLOG_CAPACITY) := make_entry t us s m],
                      log_count := log_count k + 1\<rparr>
               else k)
     in (k1, if emitter k then Some (t, us, s, m) else None))"

definition klog_write :: "int \<Rightarrow> nat \<Rightarrow> string \<Rightarrow> string \<Rightarrow> klog \<Rightarrow> klog \<times> (int \<times> nat \<times> string \<times> string) option" where
  "klog_write t us s formatted k = klog_put t us s (take (KLOG_MSG_MAX - 1) formatted) k"

definition klog_tel :: "int \<Rightarrow> nat \<Rightarrow> string \<Rightarrow> string \<Rightarrow> klog \<Rightarrow> klog \<times> (int \<times> nat \<times> string \<times> string) option" where
  "klog_tel t us s formatted k =
    (if \<not> telemetry k then (k, None) else klog_put t us s (take (KLOG_MSG_MAX - 1) formatted) k)"

text \<open>\<^verbatim>\<open>"%6lld.%03lld %-5s %s\<newline>"\<close>.\<close>

definition log_line :: "klog_entry \<Rightarrow> string" where
  "log_line e =
    (let s = dec (t_us e div 1000000)
     in replicate (6 - length s) (CHR '' '') @ s @ ''.'' @ pad0 3 (dec ((t_us e div 1000) mod 1000)) @ '' '' @
        src e @ replicate (5 - length (src e)) (CHR '' '') @ '' '' @ msg e @ [CHR 0x0A])"

definition first_shown :: "klog \<Rightarrow> u32" where
  "first_shown k =
    (let first = (if log_count k > of_nat KLOG_CAPACITY then log_count k - of_nat KLOG_CAPACITY else 0)
     in if first < log_base k then log_base k else first)"

lemma unat_inc: "w < c \<Longrightarrow> unat (w + 1) = Suc (unat w)" for w c :: u32
  using unsigned_less [of c, where 'a = nat] by (simp add: word_less_nat_alt unat_word_ariths(1))

function export_loop :: "klog \<Rightarrow> nat \<Rightarrow> u32 \<Rightarrow> string \<Rightarrow> string \<times> u32" where
  "export_loop k cap cursor used =
    (if cursor < log_count k
     then (let line = log_line (ring k ! unat (cursor mod of_nat KLOG_CAPACITY)) in
           if length line \<ge> cap - length used then (used, cursor)
           else export_loop k cap (cursor + 1) (used @ line))
     else (used, cursor))"
  by pat_completeness auto
termination
  by (relation "measure (\<lambda>(k, cap, cursor, used). unat (log_count k) - unat cursor)")
    (auto simp: unat_inc word_less_nat_alt)

declare export_loop.simps [simp del]

definition klog_export :: "u32 option \<Rightarrow> nat option \<Rightarrow> klog \<Rightarrow> string \<times> u32 option" where
  "klog_export cursor buf k =
    (case (cursor, buf) of
       (Some c, Some cap) \<Rightarrow>
         if \<not> log_ready k \<or> cap < 128 then ([], cursor)
         else (let c1 = (if c < first_shown k then first_shown k else c);
                   r = export_loop k cap c1 []
               in (fst r, Some (snd r)))
     | _ \<Rightarrow> ([], cursor))"

definition klog_clear :: "klog \<Rightarrow> klog" where
  "klog_clear k = (if \<not> log_ready k then k else k\<lparr>log_base := log_count k\<rparr>)"

fun json_char_len :: "char \<Rightarrow> nat" where
  "json_char_len c =
    (if c = CHR 0x22 \<or> c = CHR 0x5C \<or> c = CHR 0x08 \<or> c = CHR 0x0C \<or> c = CHR 0x0A \<or> c = CHR 0x0D \<or> c = CHR 0x09 then 2
     else if of_char c < (0x20 :: nat) then 6 else 1)"

definition json_string_len :: "string \<Rightarrow> nat" where
  "json_string_len s = sum_list (map json_char_len s)"

text \<open>\<^verbatim>\<open>%lld\<close>, with the sign a time before the epoch has.\<close>

definition signed_dec :: "int \<Rightarrow> string" where
  "signed_dec i = (if i < 0 then CHR ''-'' # dec (nat (- i)) else dec (nat i))"

definition entry_json_cost :: "klog_entry \<Rightarrow> nat" where
  "entry_json_cost e =
    32 + length (signed_dec (t_ms e)) + length (dec (t_us e)) + json_string_len (src e) + json_string_len (msg e)"

fun budget_loop :: "klog \<Rightarrow> nat \<Rightarrow> u32 \<Rightarrow> nat \<Rightarrow> nat \<Rightarrow> nat" where
  "budget_loop k budget start used 0 = 0"
| "budget_loop k budget start used (Suc first) =
    (let cost = entry_json_cost (ring k ! unat ((start + of_nat first) mod of_nat KLOG_CAPACITY))
     in if used + cost > budget then Suc first else budget_loop k budget start (used + cost) first)"

definition klog_entries_json :: "nat \<Rightarrow> klog \<Rightarrow> klog_entry list" where
  "klog_entries_json budget k =
    (if \<not> log_ready k then []
     else (let live = log_count k - log_base k;
               available = (if live < of_nat KLOG_CAPACITY then live else of_nat KLOG_CAPACITY);
               start = log_count k - available;
               first = budget_loop k budget start 0 (unat available)
           in map (\<lambda>i. ring k ! unat ((start + of_nat i) mod of_nat KLOG_CAPACITY)) [first..<unat available]))"


section \<open>Readers with a cursor\<close>

text \<open>
  What a reader that keeps a cursor is promised: an export gives the next few pending lines, at least one when there
  is any and the buffer has 128 bytes. Exporting until nothing comes then gives all of them.
\<close>

fun read_all :: "('c \<Rightarrow> string \<times> 'c) \<Rightarrow> nat \<Rightarrow> 'c \<Rightarrow> (string \<times> 'c) option" where
  "read_all export 0 c = None"
| "read_all export (Suc fuel) c =
    (let (t, c1) = export c
     in if t = [] then Some ([], c1) else map_option (\<lambda>(u, c2). (t @ u, c2)) (read_all export fuel c1))"

locale line_source =
  fixes export :: "nat \<Rightarrow> 's \<Rightarrow> 'c \<Rightarrow> string \<times> 'c"
    and pending :: "'s \<Rightarrow> 'c \<Rightarrow> string list"
    and ok :: "'s \<Rightarrow> bool"
  assumes export_takes: "ok s \<Longrightarrow> \<exists>n. fst (export cap s c) = concat (take n (pending s c)) \<and>
      pending s (snd (export cap s c)) = drop n (pending s c)"
    and export_progress: "ok s \<Longrightarrow> 128 \<le> cap \<Longrightarrow> pending s c \<noteq> [] \<Longrightarrow> fst (export cap s c) \<noteq> []"
begin

lemma export_shrinks:
  assumes "ok s" "fst (export cap s c) \<noteq> []"
  shows "length (pending s (snd (export cap s c))) < length (pending s c)"
proof -
  obtain n where n: "fst (export cap s c) = concat (take n (pending s c))" "pending s (snd (export cap s c)) = drop n (pending s c)"
    using export_takes [OF assms(1)] by blast
  then have "n \<noteq> 0" "pending s c \<noteq> []" using assms(2) by (auto intro: ccontr)
  then show ?thesis using n(2) by simp
qed

lemma drain_complete:
  assumes "ok s" "128 \<le> cap"
  shows "length (pending s c) < fuel \<Longrightarrow>
    \<exists>c1. read_all (export cap s) fuel c = Some (concat (pending s c), c1) \<and> pending s c1 = []"
proof (induction fuel arbitrary: c)
  case (Suc fuel)
  obtain t c1 where e: "export cap s c = (t, c1)" by fastforce
  obtain n where n: "t = concat (take n (pending s c))" "pending s c1 = drop n (pending s c)"
    using export_takes [OF assms(1), of cap c] e by auto
  show ?case
  proof (cases "t = []")
    case True
    then have "pending s c = []" using export_progress [OF assms, of c] e by auto
    then show ?thesis using True e n(2) by simp
  next
    case False
    then have "length (pending s c1) < fuel" using export_shrinks [OF assms(1), of cap c] e Suc.prems by simp
    then obtain c2 where "read_all (export cap s) fuel c1 = Some (concat (pending s c1), c2)" "pending s c2 = []"
      using Suc.IH by blast
    moreover have "t @ concat (pending s c1) = concat (pending s c)"
      unfolding n by (metis append_take_drop_id concat_append)
    ultimately show ?thesis using False e by simp
  qed
qed simp

end

section \<open>The ring against the history\<close>

definition log_entry_ok :: "klog_entry \<Rightarrow> bool" where
  "log_entry_ok e \<longleftrightarrow> t_us e < 2 ^ 63 \<and> length (src e) \<le> 5 \<and> length (msg e) \<le> 95"

definition holds :: "klog_entry list \<Rightarrow> klog \<Rightarrow> bool" where
  "holds h k \<longleftrightarrow> log_ready k \<and> length (ring k) = 600 \<and> length h < 2 ^ 32 \<and> log_count k = of_nat (length h) \<and>
     (\<forall>i < length h. length h \<le> i + 600 \<longrightarrow> ring k ! (i mod 600) = h ! i) \<and> unat (log_base k) \<le> length h \<and>
     list_all log_entry_ok h"

lemma unat_of_nat_u32: "n < 2 ^ 32 \<Longrightarrow> unat (of_nat n :: u32) = n"
  by (simp add: unat_of_nat take_bit_nat_eq_self)

lemma ring_index: "unat (c mod of_nat KLOG_CAPACITY :: u32) = unat c mod 600"
  by (simp add: KLOG_CAPACITY_def unat_mod)

lemma holds_count: "holds h k \<Longrightarrow> unat (log_count k) = length h"
  by (simp add: holds_def unat_of_nat_u32)

lemma holds_boot: "holds [] (klog_init klog_boot)"
  by (simp add: holds_def klog_init_def klog_boot_def KLOG_CAPACITY_def)

lemma make_entry_ok: "us < 2 ^ 63 \<Longrightarrow> log_entry_ok (make_entry t us s m)"
  by (simp add: log_entry_ok_def make_entry_def KLOG_MSG_MAX_def)

lemma holds_put:
  assumes "holds h k" "length h + 1 < 2 ^ 32" "us < 2 ^ 63"
  shows "holds (h @ [make_entry t us s m]) (fst (klog_put t us s m k))"
proof -
  let ?e = "make_entry t us s m" and ?n = "length h"
  have idx: "unat (log_count k mod of_nat KLOG_CAPACITY) = ?n mod 600"
    using holds_count [OF assms(1)] by (simp add: ring_index)
  have "(ring k)[?n mod 600 := ?e] ! (i mod 600) = (h @ [?e]) ! i" if "i < Suc ?n" "Suc ?n \<le> i + 600" for i
  proof (cases "i = ?n")
    case True
    then show ?thesis using assms(1) by (simp add: holds_def)
  next
    case False
    then have i: "i < ?n" using that by simp
    have "i mod 600 \<noteq> ?n mod 600"
    proof
      assume eq: "i mod 600 = ?n mod 600"
      then have "600 dvd ?n - i" using i by (metis mod_eq_dvd_iff_nat less_imp_le)
      then show False using i that(2) by (auto dest!: dvd_imp_le)
    qed
    then show ?thesis using assms(1) i that by (simp add: holds_def nth_append)
  qed
  then show ?thesis
    using assms idx make_entry_ok by (auto simp: holds_def klog_put_def Let_def)
qed

lemma holds_clear: "holds h k \<Longrightarrow> holds h (klog_clear k)"
  by (auto simp: holds_def klog_clear_def unat_of_nat_u32)

lemma first_shown_nat:
  assumes "holds h k"
  shows "unat (first_shown k) = max (length h - 600) (unat (log_base k))"
proof -
  have c: "unat (log_count k) = length h" by (rule holds_count [OF assms])
  have "(log_count k > of_nat KLOG_CAPACITY) = (length h > 600)"
    by (simp add: word_less_nat_alt c KLOG_CAPACITY_def)
  moreover have "length h > 600 \<Longrightarrow> unat (log_count k - of_nat KLOG_CAPACITY) = length h - 600"
    using c by (subst unat_sub) (simp_all add: word_le_nat_alt KLOG_CAPACITY_def)
  ultimately show ?thesis by (auto simp: first_shown_def Let_def word_less_nat_alt max_def)
qed


lemma length_dec_bound: "n < 10 ^ Suc j \<Longrightarrow> length (dec n) \<le> Suc j"
  using length_dec_le [of "Suc j" n] by simp

lemma log_line_fits: "log_entry_ok e \<Longrightarrow> length (log_line e) \<le> 120"
proof -
  assume e: "log_entry_ok e"
  have s: "length (dec (t_us e div 1000000)) \<le> Suc 12" by (rule length_dec_bound) (use e in \<open>simp add: log_entry_ok_def div_less_iff_less_mult\<close>)
  have "length (pad0 3 (dec ((t_us e div 1000) mod 1000))) = 3" by (rule length_pad0) simp_all
  then show ?thesis using e s by (auto simp: log_line_def Let_def log_entry_ok_def)
qed

lemma log_line_nonempty: "log_line e \<noteq> []"
  by (simp add: log_line_def Let_def)

lemma export_loop_spec:
  assumes "holds h k"
  shows "unat (first_shown k) \<le> unat c \<Longrightarrow> unat c \<le> length h \<Longrightarrow>
    \<exists>n. fst (export_loop k cap c used) = used @ concat (take n (map log_line (drop (unat c) h))) \<and>
      unat (snd (export_loop k cap c used)) = unat c + n \<and> unat c + n \<le> length h \<and>
      (unat c < length h \<and> length (log_line (h ! unat c)) < cap - length used \<longrightarrow> 0 < n)"
proof (induction "length h - unat c" arbitrary: c used)
  case 0
  then have "\<not> c < log_count k" using holds_count [OF assms] by (simp add: word_less_nat_alt)
  then show ?case using 0 by (subst export_loop.simps) (auto intro: exI [of _ 0] simp: export_loop.simps)
next
  case (Suc m)
  then have c: "c < log_count k" "unat c < length h" using holds_count [OF assms] by (simp_all add: word_less_nat_alt)
  have inc: "unat (c + 1) = Suc (unat c)" by (rule unat_inc [OF c(1)])
  have "length h \<le> unat c + 600" using Suc.prems(1) first_shown_nat [OF assms] by linarith
  then have line: "ring k ! unat (c mod of_nat KLOG_CAPACITY) = h ! unat c"
    using assms c(2) by (simp add: ring_index holds_def)
  show ?case
  proof (cases "length (log_line (h ! unat c)) \<ge> cap - length used")
    case True
    then have "export_loop k cap c used = (used, c)" using c(1) line by (subst export_loop.simps) (simp add: Let_def)
    then show ?thesis using True c(2) by (auto intro: exI [of _ 0])
  next
    case False
    let ?used = "used @ log_line (h ! unat c)"
    have e: "export_loop k cap c used = export_loop k cap (c + 1) ?used"
      using False c(1) line by (subst export_loop.simps) (simp add: Let_def)
    obtain n where n: "fst (export_loop k cap (c + 1) ?used) = ?used @ concat (take n (map log_line (drop (Suc (unat c)) h)))"
      "unat (snd (export_loop k cap (c + 1) ?used)) = Suc (unat c) + n" "Suc (unat c) + n \<le> length h"
    proof -
      have "m = length h - unat (c + 1)" using Suc.hyps(2) inc by simp
      from Suc.hyps(1) [OF this, of ?used] show ?thesis using Suc.prems c(2) that unfolding inc by auto
    qed
    have "concat (take (Suc n) (map log_line (drop (unat c) h))) =
        log_line (h ! unat c) @ concat (take n (map log_line (drop (Suc (unat c)) h)))"
      using c(2) by (simp add: Cons_nth_drop_Suc [symmetric])
    then show ?thesis unfolding e using n by (intro exI [of _ "Suc n"]) simp
  qed
qed

definition pending_lines :: "klog_entry list \<times> klog \<Rightarrow> u32 \<Rightarrow> string list" where
  "pending_lines = (\<lambda>(h, k) c. map log_line (drop (max (unat c) (unat (first_shown k))) h))"

definition export_from :: "nat \<Rightarrow> klog_entry list \<times> klog \<Rightarrow> u32 \<Rightarrow> string \<times> u32" where
  "export_from cap = (\<lambda>(h, k) c. map_prod id the (klog_export (Some c) (Some cap) k))"

interpretation log_lines: line_source export_from pending_lines "\<lambda>(h, k). holds h k"
proof
  fix s :: "klog_entry list \<times> klog" and cap c
  obtain h k where s: "s = (h, k)" by (cases s)
  let ?c = "if c < first_shown k then first_shown k else c"
  assume "case s of (h, k) \<Rightarrow> holds h k"
  then have hold: "holds h k" by (simp add: s)
  have ready: "log_ready k" using hold by (simp add: holds_def)
  have c: "unat ?c = max (unat c) (unat (first_shown k))" by (auto simp: word_less_nat_alt max_def)
  have shown: "unat (first_shown k) \<le> length h" using hold first_shown_nat [OF hold] by (simp add: holds_def)
  have e: "export_from cap s c = (if cap < 128 then ([], c) else export_loop k cap ?c [])"
    using ready by (simp add: export_from_def s klog_export_def Let_def)
  have spec: "\<exists>n. fst (export_loop k cap ?c []) = concat (take n (map log_line (drop (unat ?c) h))) \<and>
      unat (snd (export_loop k cap ?c [])) = unat ?c + n \<and> unat ?c + n \<le> length h \<and>
      (unat ?c < length h \<and> length (log_line (h ! unat ?c)) < cap \<longrightarrow> 0 < n)" if "unat ?c \<le> length h"
    using export_loop_spec [OF hold, of ?c cap "[]"] c that by auto
  have none: "export_loop k cap ?c [] = ([], ?c)" if "length h < unat ?c"
    using that holds_count [OF hold] by (subst export_loop.simps) (simp add: word_less_nat_alt)
  {
    show "\<exists>n. fst (export_from cap s c) = concat (take n (pending_lines s c)) \<and>
        pending_lines s (snd (export_from cap s c)) = drop n (pending_lines s c)"
    proof (cases "cap < 128 \<or> length h < unat ?c")
      case True
      then show ?thesis using none c e by (intro exI [of _ 0]) (auto simp: s pending_lines_def)
    next
      case False
      then obtain n where n: "fst (export_loop k cap ?c []) = concat (take n (map log_line (drop (unat ?c) h)))"
        "unat (snd (export_loop k cap ?c [])) = unat ?c + n" using spec by auto
      have "max (unat ?c + n) (unat (first_shown k)) = unat ?c + n" using c by simp
      then show ?thesis
        using False n c e by (intro exI [of _ n]) (auto simp: s pending_lines_def drop_map add.commute)
    qed
  next
    assume cap: "128 \<le> cap" and p: "pending_lines s c \<noteq> []"
    then have "\<not> length h \<le> max (unat c) (unat (first_shown k))" by (simp add: s pending_lines_def)
    then have l: "unat ?c < length h" by (simp only: c not_le)
    then have "log_entry_ok (h ! unat ?c)" using hold by (simp add: holds_def list_all_length)
    then have "length (log_line (h ! unat ?c)) < cap" using log_line_fits cap by fastforce
    then obtain n where n: "fst (export_loop k cap ?c []) = concat (take n (map log_line (drop (unat ?c) h)))" "0 < n"
      using spec l by auto
    moreover have "take n (map log_line (drop (unat ?c) h)) = log_line (h ! unat ?c) # take (n - 1) (map log_line (drop (Suc (unat ?c)) h))"
      using l n(2) by (cases n) (simp_all add: Cons_nth_drop_Suc [symmetric])
    ultimately show "fst (export_from cap s c) \<noteq> []" using e cap log_line_nonempty by simp
  }
qed


section \<open>The lines of a reply\<close>

definition shown :: "klog_entry list \<Rightarrow> klog \<Rightarrow> klog_entry list" where
  "shown h k = drop (unat (first_shown k)) h"

definition cost_sum :: "klog_entry list \<Rightarrow> nat" where
  "cost_sum es = sum_list (map entry_json_cost es)"

lemma budget_loop_spec:
  assumes "\<And>i. i < m \<Longrightarrow> ring k ! unat ((start + of_nat i) mod of_nat KLOG_CAPACITY) = v ! i" "m \<le> length v" "used \<le> budget"
  shows "budget_loop k budget start used m \<le> m \<and>
    used + cost_sum (drop (budget_loop k budget start used m) (take m v)) \<le> budget \<and>
    (0 < budget_loop k budget start used m \<longrightarrow>
      budget < used + cost_sum (drop (budget_loop k budget start used m - 1) (take m v)))"
  using assms
proof (induction m arbitrary: used)
  case (Suc m)
  let ?c = "entry_json_cost (v ! m)"
  have t: "take (Suc m) v = take m v @ [v ! m]" using Suc.prems(2) by (simp add: take_Suc_conv_app_nth)
  show ?case
  proof (cases "used + ?c > budget")
    case True
    then have "budget_loop k budget start used (Suc m) = Suc m" using Suc.prems(1) by (simp add: Let_def)
    then show ?thesis using True Suc.prems(2,3) by (simp add: t cost_sum_def)
  next
    case False
    let ?f = "budget_loop k budget start (used + ?c) m"
    have e: "budget_loop k budget start used (Suc m) = ?f" using False Suc.prems(1) by (simp add: Let_def)
    have IH: "?f \<le> m \<and> used + ?c + cost_sum (drop ?f (take m v)) \<le> budget \<and>
        (0 < ?f \<longrightarrow> budget < used + ?c + cost_sum (drop (?f - 1) (take m v)))"
      using Suc.IH [of "used + ?c"] Suc.prems(1,2) False by simp
    have more: "cost_sum (drop j (take (Suc m) v)) = cost_sum (drop j (take m v)) + ?c" if "j \<le> m" for j
      using that Suc.prems(2) by (simp add: t cost_sum_def)
    have "?f \<le> m" "?f - 1 \<le> m" using IH by auto
    then show ?thesis unfolding e more [OF \<open>?f \<le> m\<close>] more [OF \<open>?f - 1 \<le> m\<close>] using IH by linarith
  qed
qed (simp add: cost_sum_def)

lemma map_upt_drop: "(\<And>i. i < length v \<Longrightarrow> f i = v ! i) \<Longrightarrow> map f [n..<length v] = drop n v"
  by (rule nth_equalityI) auto

lemma entries_json_newest:
  assumes "holds h k"
  shows "\<exists>n. klog_entries_json budget k = drop n (shown h k) \<and> cost_sum (drop n (shown h k)) \<le> budget \<and>
    (0 < n \<longrightarrow> budget < cost_sum (drop (n - 1) (shown h k)))"
proof -
  let ?live = "log_count k - log_base k"
  let ?avail = "if ?live < of_nat KLOG_CAPACITY then ?live else of_nat KLOG_CAPACITY"
  let ?start = "log_count k - ?avail" and ?v = "shown h k"
  have c: "unat (log_count k) = length h" and b: "unat (log_base k) \<le> length h" and l: "length h < 2 ^ 32"
    using assms holds_count by (auto simp: holds_def)
  have live: "unat ?live = length h - unat (log_base k)" using b c by (subst unat_sub) (simp_all add: word_le_nat_alt)
  have avail: "unat ?avail = length ?v"
    using live b first_shown_nat [OF assms] by (auto simp: word_less_nat_alt KLOG_CAPACITY_def shown_def max_def)
  have le: "length ?v \<le> length h" by (simp add: shown_def)
  have start: "unat ?start = unat (first_shown k)"
    using avail c le first_shown_nat [OF assms] b by (subst unat_sub) (auto simp: word_le_nat_alt shown_def)
  have entry: "ring k ! unat ((?start + of_nat i) mod of_nat KLOG_CAPACITY) = ?v ! i" if "i < length ?v" for i
  proof -
    have i: "unat (first_shown k) + i < length h" using that by (simp add: shown_def)
    then have "unat (?start + of_nat i) = unat (first_shown k) + i"
      using start l by (simp add: unat_word_ariths(1) unat_of_nat_u32)
    moreover have "length h \<le> unat (first_shown k) + i + 600" using first_shown_nat [OF assms] by simp
    ultimately show ?thesis using assms i by (simp add: ring_index holds_def shown_def)
  qed
  let ?n = "budget_loop k budget ?start 0 (unat ?avail)"
  have spec: "?n \<le> length ?v \<and> 0 + cost_sum (drop ?n (take (length ?v) ?v)) \<le> budget \<and>
      (0 < ?n \<longrightarrow> budget < 0 + cost_sum (drop (?n - 1) (take (length ?v) ?v)))"
    unfolding avail by (rule budget_loop_spec) (use entry in auto)
  have "log_ready k" using assms by (simp add: holds_def)
  then have "klog_entries_json budget k = map (\<lambda>i. ring k ! unat ((?start + of_nat i) mod of_nat KLOG_CAPACITY)) [?n..<length ?v]"
    by (simp only: klog_entries_json_def Let_def if_False not_True_eq_False avail simp_thms)
  also have "\<dots> = drop ?n ?v"
    by (rule map_upt_drop) (rule entry)
  finally show ?thesis using spec by (intro exI [of _ ?n]) auto
qed

text \<open>The reply's text, as cJSON prints an array of such entries without blanks.\<close>

definition json_escape :: "char \<Rightarrow> string" where
  "json_escape c =
    (if c = CHR 0x22 \<or> c = CHR 0x5C then [CHR 0x5C, c]
     else if c = CHR 0x08 then [CHR 0x5C, CHR ''b''] else if c = CHR 0x0C then [CHR 0x5C, CHR ''f'']
     else if c = CHR 0x0A then [CHR 0x5C, CHR ''n''] else if c = CHR 0x0D then [CHR 0x5C, CHR ''r'']
     else if c = CHR 0x09 then [CHR 0x5C, CHR ''t'']
     else if of_char c < (0x20 :: nat)
       then [CHR 0x5C, CHR ''u'', CHR ''0'', CHR ''0'', if of_char c < (16 :: nat) then CHR ''0'' else CHR ''1'',
             (''0123456789abcdef'' ! (of_char c mod 16))]
     else [c])"

definition json_quoted :: "string \<Rightarrow> string" where
  "json_quoted s = [CHR 0x22] @ concat (map json_escape s) @ [CHR 0x22]"

definition entry_json :: "klog_entry \<Rightarrow> string" where
  "entry_json e = ''{'' @ json_quoted ''t'' @ '':'' @ signed_dec (t_ms e) @ '','' @ json_quoted ''us'' @ '':'' @ dec (t_us e) @ '','' @
     json_quoted ''src'' @ '':'' @ json_quoted (src e) @ '','' @ json_quoted ''msg'' @ '':'' @ json_quoted (msg e) @ ''}''"

fun json_joined :: "string list \<Rightarrow> string" where
  "json_joined [] = []"
| "json_joined [x] = x"
| "json_joined (x # y # xs) = x @ '','' @ json_joined (y # xs)"

definition reply_json :: "klog_entry list \<Rightarrow> string" where
  "reply_json es = ''['' @ json_joined (map entry_json es) @ '']''"

lemma json_text_length: "length (json_quoted s) = json_string_len s + 2"
proof -
  have "length (concat (map json_escape s)) = json_string_len s"
    by (induction s) (auto simp: json_string_len_def json_escape_def)
  then show ?thesis by (simp add: json_quoted_def)
qed

lemma entry_cost_over: "entry_json_cost e = length (entry_json e) + 2"
  unfolding entry_json_def entry_json_cost_def by (simp add: json_text_length json_string_len_def)

lemma joined_length: "es \<noteq> [] \<Longrightarrow> length (json_joined (map entry_json es)) + 2 \<le> cost_sum es"
proof (induction es rule: induct_list012)
  case (3 x y zs)
  then show ?case by (simp add: cost_sum_def entry_cost_over)
qed (simp_all add: cost_sum_def entry_cost_over)

section \<open>Properties\<close>



end
