(* ===== verification/Storage_Watch.thy ===== *)
theory Storage_Watch
  imports Klog "HOL-Library.List_Lexorder"
begin

text \<open>
  The watch over the card, \<^verbatim>\<open>firmware/p4/main/storage_watch.c\<close>: the news queue the screen drains, the task's pass every
  two seconds, the log file and the pruning of old log files. Whether a card is there, whether it
  answers, mounts and can be had, and the time are arguments of a pass; the directory is the
  list of its names.
\<close>

section \<open>The code\<close>

definition REMOUNT_EVERY :: nat where "REMOUNT_EVERY = 5"
definition LOG_FLUSH_EVERY :: nat where "LOG_FLUSH_EVERY = 15"
definition LOG_KEEP :: nat where "LOG_KEEP = 20"
definition LOG_BUF :: nat where "LOG_BUF = 4096"

datatype storage_event = STORAGE_EV_MOUNTED | STORAGE_EV_REMOVED

text \<open>The four slots of the news queue; a slot never written holds no event.\<close>

record news =
  s_events :: "storage_event option list"
  ev_head :: nat
  ev_tail :: nat

definition no_news :: news where
  "no_news = \<lparr>s_events = replicate 4 None, ev_head = 0, ev_tail = 0\<rparr>"

definition news_push :: "storage_event \<Rightarrow> news \<Rightarrow> news" where
  "news_push ev q =
    (let next = (ev_head q + 1) mod 4
     in if next = ev_tail q then q
        else q\<lparr>s_events := (s_events q)[ev_head q := Some ev], ev_head := next\<rparr>)"

definition storage_watch_take :: "news \<Rightarrow> (storage_event \<times> news) option" where
  "storage_watch_take q =
    (if ev_tail q = ev_head q then None
     else Some (the (s_events q ! ev_tail q), q\<lparr>ev_tail := (ev_tail q + 1) mod 4\<rparr>))"

definition log_name :: "nat \<Rightarrow> string" where
  "log_name boot = ''BOOT-'' @ pad0 5 (dec boot) @ ''.TXT''"

definition oldest_scan :: "nat \<times> string \<Rightarrow> string \<Rightarrow> nat \<times> string" where
  "oldest_scan = (\<lambda>(n, oldest) e.
    if take 5 e \<noteq> ''BOOT-'' then (n, oldest)
    else (n + 1, if oldest = [] \<or> e < oldest then take 31 e else oldest))"

fun prune_rounds :: "nat \<Rightarrow> string list \<Rightarrow> string list" where
  "prune_rounds 0 dir = dir"
| "prune_rounds (Suc round) dir =
    (let (n, oldest) = foldl oldest_scan (0, []) dir
     in if n \<le> LOG_KEEP \<or> oldest = [] then dir else prune_rounds round (remove1 oldest dir))"

definition prune_logs :: "bool \<Rightarrow> string list \<Rightarrow> string list" where
  "prune_logs opened dir = (if \<not> opened then dir else prune_rounds 8 dir)"

record watch =
  was_mounted :: bool
  tested :: bool
  tick :: nat
  news :: news
  log_buf :: bool
  log_path :: string
  log_cursor :: u32
  pruned :: bool
  announced :: bool
  log_dir :: "string list"
  log_file :: string

record flush_in =
  granted :: bool
  dir_opens :: bool
  file_opens :: bool
  at_ms :: int
  at_us :: nat

text \<open>
  The loop that writes what \<^verbatim>\<open>klog_export\<close> gives until it gives nothing. Its fuel is two more than the ring has lines, which is
  enough: every export but the last gives a line.
\<close>

definition export_all :: "klog \<Rightarrow> u32 \<Rightarrow> (string \<times> u32) option" where
  "export_all k = read_all (\<lambda>c. map_prod id the (klog_export (Some c) (Some LOG_BUF) k)) 602"

definition announce :: "flush_in \<Rightarrow> watch \<times> klog \<Rightarrow> watch \<times> klog" where
  "announce i = (\<lambda>(w, k).
    if \<not> announced w
    then (w\<lparr>announced := True\<rparr>, fst (klog_write (at_ms i) (at_us i) ''SD'' (''field log: '' @ log_path w) k))
    else (w, k))"

definition flush_log :: "flush_in \<Rightarrow> watch \<times> klog \<Rightarrow> (watch \<times> klog) option" where
  "flush_log i = (\<lambda>(w, k).
    if \<not> log_buf w \<or> \<not> granted i then Some (w, k)
    else (let w1 = (if \<not> pruned w then w\<lparr>log_dir := prune_logs (dir_opens i) (log_dir w), pruned := True\<rparr> else w) in
      if \<not> file_opens i then Some (w1, k)
      else (let (w2, k2) = announce i (w1, k) in
        case export_all k2 (log_cursor w2) of None \<Rightarrow> None
        | Some (t, c) \<Rightarrow> Some (w2\<lparr>log_file := log_file w2 @ t, log_cursor := c\<rparr>, k2))))"

datatype watch_action = Self_Test | Trash_Purge | Remount

record pass_in =
  present :: bool
  card_alive :: bool
  card_free :: bool
  remounts :: bool
  flushing :: flush_in

definition card_gone :: "pass_in \<Rightarrow> watch \<times> klog \<Rightarrow> watch \<times> klog" where
  "card_gone i = (\<lambda>(w, k).
    (w\<lparr>was_mounted := False, tested := False, news := news_push STORAGE_EV_REMOVED (news w)\<rparr>,
     fst (klog_write (at_ms (flushing i)) (at_us (flushing i)) ''SD'' ''card removed while running'' k)))"

definition watch_pass :: "pass_in \<Rightarrow> watch \<times> klog \<Rightarrow> ((watch \<times> klog) \<times> watch_action list) option" where
  "watch_pass i = (\<lambda>(w0, k).
    let w = w0\<lparr>tick := tick w0 + 1\<rparr> in
    if present i then
      (if \<not> card_alive i then Some (card_gone i (w, k), [])
       else (let w1 = (if \<not> was_mounted w then w\<lparr>was_mounted := True, news := news_push STORAGE_EV_MOUNTED (news w)\<rparr> else w);
                 acts = (if \<not> tested w1 \<and> card_free i then [Self_Test, Trash_Purge] else []);
                 w2 = (if \<not> tested w1 then w1\<lparr>tested := True\<rparr> else w1)
             in if tick w2 mod LOG_FLUSH_EVERY = 0
                then map_option (\<lambda>s. (s, acts)) (flush_log (flushing i) (w2, k))
                else Some ((w2, k), acts)))
    else if tick w mod REMOUNT_EVERY = 0 then
      Some ((w, if remounts i
                then fst (klog_write (at_ms (flushing i)) (at_us (flushing i)) ''SD'' ''card mounted while running'' k)
                else k), [Remount])
    else Some ((w, k), []))"

definition storage_watch_start :: "nat \<Rightarrow> bool \<Rightarrow> bool \<Rightarrow> string list \<Rightarrow> string \<Rightarrow> watch" where
  "storage_watch_start boot mounted buf dir file =
    \<lparr>was_mounted = mounted, tested = False, tick = 0, news = no_news, log_buf = buf,
     log_path = ''/sdcard/KINO/LOGS/'' @ log_name boot, log_cursor = 0, pruned = False, announced = False,
     log_dir = dir, log_file = file\<rparr>"

section \<open>The news queue\<close>

text \<open>A bounded queue, as its two ends see it.\<close>

locale bounded_queue =
  fixes put :: "'e \<Rightarrow> 'q \<Rightarrow> 'q"
    and get :: "'q \<Rightarrow> ('e \<times> 'q) option"
    and items :: "'q \<Rightarrow> 'e list"
    and ok :: "'q \<Rightarrow> bool"
    and room :: nat
  assumes put_ok: "ok q \<Longrightarrow> ok (put e q)"
    and put_items: "ok q \<Longrightarrow> items (put e q) = (if length (items q) < room then items q @ [e] else items q)"
    and get_none: "ok q \<Longrightarrow> get q = None \<longleftrightarrow> items q = []"
    and get_some: "ok q \<Longrightarrow> get q = Some (e, q1) \<Longrightarrow> ok q1 \<and> items q = e # items q1"
begin

lemma put_all_items:
  "ok q \<Longrightarrow> ok (foldl (\<lambda>q e. put e q) q es) \<and>
    items (foldl (\<lambda>q e. put e q) q es) = items q @ take (room - length (items q)) es"
proof (induction es arbitrary: q)
  case (Cons e es)
  show ?case
    using Cons.IH [OF put_ok [OF Cons.prems, of e]] put_items [OF Cons.prems, of e]
    by (cases "length (items q) < room") (auto simp: take_Cons' less_diff_conv diff_diff_left)
qed simp

lemma get_first: "ok q \<Longrightarrow> items q = e # es \<Longrightarrow> \<exists>q1. get q = Some (e, q1) \<and> items q1 = es \<and> ok q1"
  using get_none [of q] get_some [of q] by (cases "get q") auto

end

definition news_ok :: "news \<Rightarrow> bool" where
  "news_ok q \<longleftrightarrow> length (s_events q) = 4 \<and> ev_head q < 4 \<and> ev_tail q < 4"

definition news_count :: "nat \<Rightarrow> nat \<Rightarrow> nat" where
  "news_count h t = (h + 4 - t) mod 4"

definition news_items :: "news \<Rightarrow> storage_event list" where
  "news_items q = map (\<lambda>i. the (s_events q ! ((ev_tail q + i) mod 4))) [0..<news_count (ev_head q) (ev_tail q)]"

lemma news_count_push:
  assumes "h < 4" "t < 4"
  shows "(h + 1) mod 4 = t \<longleftrightarrow> news_count h t = 3"
    and "(h + 1) mod 4 \<noteq> t \<Longrightarrow> news_count ((h + 1) mod 4) t = Suc (news_count h t)"
    and "i < news_count h t \<Longrightarrow> (t + i) mod 4 \<noteq> h"
    and "(t + news_count h t) mod 4 = h"
proof -
  have "\<forall>h \<in> set [0..<4]. \<forall>t \<in> set [0..<4]. ((h + 1) mod 4 = t \<longleftrightarrow> news_count h t = 3) \<and>
      ((h + 1) mod 4 \<noteq> t \<longrightarrow> news_count ((h + 1) mod 4) t = Suc (news_count h t)) \<and>
      (\<forall>i \<in> set [0..<news_count h t]. (t + i) mod 4 \<noteq> h) \<and> (t + news_count h t) mod 4 = h"
    by code_simp
  then have "((h + 1) mod 4 = t \<longleftrightarrow> news_count h t = 3) \<and>
      ((h + 1) mod 4 \<noteq> t \<longrightarrow> news_count ((h + 1) mod 4) t = Suc (news_count h t)) \<and>
      (\<forall>i \<in> set [0..<news_count h t]. (t + i) mod 4 \<noteq> h) \<and> (t + news_count h t) mod 4 = h"
    using assms by simp
  then show "(h + 1) mod 4 = t \<longleftrightarrow> news_count h t = 3"
    "(h + 1) mod 4 \<noteq> t \<Longrightarrow> news_count ((h + 1) mod 4) t = Suc (news_count h t)"
    "i < news_count h t \<Longrightarrow> (t + i) mod 4 \<noteq> h" "(t + news_count h t) mod 4 = h" by auto
qed

lemma news_count_take:
  assumes "h < 4" "t < 4"
  shows "t = h \<longleftrightarrow> news_count h t = 0"
    and "t \<noteq> h \<Longrightarrow> news_count h t = Suc (news_count h ((t + 1) mod 4))"
    and "((t + 1) mod 4 + i) mod 4 = (t + Suc i) mod 4"
proof -
  have "\<forall>h \<in> set [0..<4]. \<forall>t \<in> set [0..<4]. (t = h \<longleftrightarrow> news_count h t = 0) \<and>
      (t \<noteq> h \<longrightarrow> news_count h t = Suc (news_count h ((t + 1) mod 4)))"
    by code_simp
  note all = this
  have m: "h \<in> set [0..<4]" "t \<in> set [0..<4]" using assms by auto
  note both = bspec [OF bspec [OF all m(1)] m(2)]
  show "t = h \<longleftrightarrow> news_count h t = 0" by (rule conjunct1 [OF both])
  show "t \<noteq> h \<Longrightarrow> news_count h t = Suc (news_count h ((t + 1) mod 4))" using conjunct2 [OF both] by (rule mp)
  show "((t + 1) mod 4 + i) mod 4 = (t + Suc i) mod 4" by (simp add: mod_simps)
qed

lemma news_count_less: "news_count h t < 4"
  by (simp add: news_count_def)

lemma news_push_ok: "news_ok q \<Longrightarrow> news_ok (news_push e q)"
  by (simp add: news_ok_def news_push_def Let_def)

lemma news_push_items:
  assumes "news_ok q"
  shows "news_items (news_push e q) = (if length (news_items q) < 3 then news_items q @ [e] else news_items q)"
proof (cases "(ev_head q + 1) mod 4 = ev_tail q")
  case True
  then show ?thesis using assms news_count_push(1) by (simp add: news_ok_def news_push_def news_items_def)
next
  case False
  have ok: "ev_head q < 4" "ev_tail q < 4" using assms by (simp_all add: news_ok_def)
  note n = news_count_push [OF ok]
  have "length (news_items q) < 3"
    using n(1) False news_count_less [of "ev_head q" "ev_tail q"] by (simp add: news_items_def)
  then show ?thesis
    using False n(2,4) n(3) [symmetric] assms
    by (auto simp: news_push_def Let_def news_items_def news_ok_def nth_list_update)
qed

lemma news_take_none: "news_ok q \<Longrightarrow> storage_watch_take q = None \<longleftrightarrow> news_items q = []"
  by (simp add: news_ok_def news_items_def storage_watch_take_def news_count_take(1))

lemma news_take_some:
  assumes "news_ok q" "storage_watch_take q = Some (e, q1)"
  shows "news_ok q1 \<and> news_items q = e # news_items q1"
proof -
  have ok: "ev_head q < 4" "ev_tail q < 4" using assms by (simp_all add: news_ok_def)
  have ne: "ev_tail q \<noteq> ev_head q" and e: "e = the (s_events q ! ev_tail q)" and q1: "q1 = q\<lparr>ev_tail := (ev_tail q + 1) mod 4\<rparr>"
    using assms(2) by (auto simp: storage_watch_take_def split: if_splits)
  note n = news_count_take [OF ok]
  have "news_items q = the (s_events q ! (ev_tail q mod 4)) #
      map (\<lambda>i. the (s_events q ! ((ev_tail q + Suc i) mod 4))) [0..<news_count (ev_head q) ((ev_tail q + 1) mod 4)]"
    unfolding news_items_def n(2) [OF ne] by (simp add: map_upt_Suc del: upt_Suc)
  then show ?thesis using assms(1) e q1 ok n(3) by (simp add: news_ok_def news_items_def)
qed

interpretation card_news: bounded_queue news_push storage_watch_take news_items news_ok 3
  by unfold_locales (auto simp: news_push_ok news_push_items news_take_none dest: news_take_some)


section \<open>Old log files\<close>

lemma dec_value_Cons: "dec_value (c # s) = char_digit c * 10 ^ length s + dec_value s"
proof (induction s rule: rev_induct)
  case (snoc d s)
  then show ?case using dec_value_append_digit [of "c # s" d] by (simp add: dec_value_append_digit algebra_simps)
qed (simp add: dec_value_def)

lemma dec_value_less: "\<forall>c \<in> set s. c_digit c \<Longrightarrow> dec_value s < 10 ^ length s"
proof (induction s)
  case (Cons c s)
  then have "char_digit c \<le> 9" by (auto simp: c_digit_def char_digit_def less_eq_char_def)
  then have "char_digit c * 10 ^ length s \<le> 9 * 10 ^ length s" by (rule mult_le_mono1)
  moreover have "dec_value s < 10 ^ length s" using Cons by simp
  ultimately show ?case unfolding dec_value_Cons length_Cons power_Suc by linarith
qed (simp add: dec_value_def)

lemma char_digit_order: "c_digit c \<Longrightarrow> c_digit d \<Longrightarrow> c < d \<longleftrightarrow> char_digit c < char_digit d"
  by (auto simp: c_digit_def char_digit_def less_eq_char_def less_char_def)

lemma char_digit_eq: "c_digit c \<Longrightarrow> c_digit d \<Longrightarrow> char_digit c = char_digit d \<Longrightarrow> c = d"
  by (simp add: c_digit_def char_digit_def less_eq_char_def)
     (metis eq_diff_iff of_char_eq_iff)

lemma digits_order:
  "length s = length t \<Longrightarrow> \<forall>c \<in> set s. c_digit c \<Longrightarrow> \<forall>c \<in> set t. c_digit c \<Longrightarrow> s < t \<longleftrightarrow> dec_value s < dec_value t"
proof (induction s t rule: list_induct2)
  case (Cons c s d t)
  have l: "dec_value s < 10 ^ length s" "dec_value t < 10 ^ length s" using dec_value_less [of s] dec_value_less [of t] Cons by auto
  have "c < d \<Longrightarrow> dec_value (c # s) < dec_value (d # t)"
  proof -
    assume "c < d"
    then have "char_digit c + 1 \<le> char_digit d" using Cons char_digit_order by simp
    then have "(char_digit c + 1) * 10 ^ length s \<le> char_digit d * 10 ^ length s" by (rule mult_le_mono1)
    then show ?thesis using l Cons(1) by (simp add: dec_value_Cons)
  qed
  moreover have "d < c \<Longrightarrow> \<not> dec_value (c # s) < dec_value (d # t)"
  proof -
    assume "d < c"
    then have "char_digit d + 1 \<le> char_digit c" using Cons char_digit_order by simp
    then have "(char_digit d + 1) * 10 ^ length s \<le> char_digit c * 10 ^ length s" by (rule mult_le_mono1)
    then show ?thesis using l Cons(1) by (simp add: dec_value_Cons)
  qed
  moreover have "c = d \<Longrightarrow> (s < t) = (dec_value (c # s) < dec_value (d # t))"
    using Cons by (simp add: dec_value_Cons)
  ultimately show ?case by (cases c d rule: linorder_cases) auto
qed (simp add: dec_value_def)


lemma same_tail_order: "length s = length t \<Longrightarrow> s @ u < t @ u \<longleftrightarrow> s < (t :: 'a::linorder list)"
  by (induction s t rule: list_induct2) auto

lemma log_name_order:
  assumes "a < 100000" "b < 100000"
  shows "log_name a < log_name b \<longleftrightarrow> a < b"
proof -
  have "length (pad0 5 (dec a)) = 5" "length (pad0 5 (dec b)) = 5" using assms by (simp_all add: length_pad0)
  moreover have "\<forall>c \<in> set (pad0 5 (dec n)). c_digit c" for n
    using dec_digits [of n] by (auto simp: pad0_def c_digit_def less_eq_char_def)
  ultimately show ?thesis by (simp add: log_name_def same_tail_order digits_order)
qed

lemma log_name_short: "a < 100000 \<Longrightarrow> length (log_name a) \<le> 31"
  by (simp add: log_name_def length_pad0)

definition log_files :: "string list \<Rightarrow> string list" where
  "log_files dir = filter (\<lambda>e. take 5 e = ''BOOT-'') dir"

lemma Min_insert_if:
  assumes "finite A" "A \<noteq> {}"
  shows "Min (insert e A) = (if e < Min A then e else Min A)"
  unfolding Min_insert [OF assms] by (simp only: min.absorb3 min.absorb2 not_less split: if_split) auto

lemma oldest_scan_min:
  assumes "\<And>e. e \<in> set dir \<Longrightarrow> length e \<le> 31"
  shows "foldl oldest_scan (0, []) dir =
    (length (log_files dir), if log_files dir = [] then [] else Min (set (log_files dir)))"
  using assms
proof (induction dir rule: rev_induct)
  case (snoc e dir)
  have IH: "foldl oldest_scan (0, []) dir = (length (log_files dir), if log_files dir = [] then [] else Min (set (log_files dir)))"
    using snoc by simp
  have e: "take 31 e = e" using snoc.prems by simp
  show ?case
  proof (cases "take 5 e = ''BOOT-''")
    case True
    have ne: "Min (set (log_files dir)) \<noteq> []" if "log_files dir \<noteq> []"
    proof -
      have "Min (set (log_files dir)) \<in> set (log_files dir)" using that by (intro Min_in) auto
      then show ?thesis by (auto simp: log_files_def)
    qed
    have l: "log_files (dir @ [e]) = log_files dir @ [e]" using True by (simp add: log_files_def)
    show ?thesis
    proof (cases "log_files dir = []")
      case True
      then show ?thesis using \<open>take 5 e = ''BOOT-''\<close> IH e l by (simp add: oldest_scan_def)
    next
      case False
      then have "Min (set (log_files (dir @ [e]))) = (if e < Min (set (log_files dir)) then e else Min (set (log_files dir)))"
        using l Min_insert_if [of "set (log_files dir)" e] by simp
      moreover have "foldl oldest_scan (0, []) (dir @ [e]) =
          (length (log_files dir) + 1, if e < Min (set (log_files dir)) then e else Min (set (log_files dir)))"
        using \<open>take 5 e = ''BOOT-''\<close> False e ne by (simp only: foldl_append IH foldl.simps) (simp add: oldest_scan_def)
      ultimately show ?thesis using l by simp
    qed
  next
    case False
    then have "log_files (dir @ [e]) = log_files dir" by (simp add: log_files_def)
    then show ?thesis using False IH by (simp add: oldest_scan_def)
  qed
qed (simp add: log_files_def)

lemma prune_rounds_spec:
  assumes "distinct dir" "\<And>e. e \<in> set dir \<Longrightarrow> length e \<le> 31"
  shows "set (prune_rounds r dir) \<subseteq> set dir \<and> distinct (prune_rounds r dir) \<and>
    length (log_files (prune_rounds r dir)) = max (min 20 (length (log_files dir))) (length (log_files dir) - r) \<and>
    (\<forall>x \<in> set dir - set (prune_rounds r dir). x \<in> set (log_files dir) \<and> (\<forall>y \<in> set (log_files (prune_rounds r dir)). x < y))"
  using assms
proof (induction r arbitrary: dir)
  case (Suc r)
  let ?m = "Min (set (log_files dir))" and ?d = "remove1 (Min (set (log_files dir))) dir"
  note scan = oldest_scan_min [OF Suc.prems(2)]
  show ?case
  proof (cases "length (log_files dir) \<le> 20")
    case True
    then have "prune_rounds (Suc r) dir = dir" using scan by (simp add: LOG_KEEP_def)
    then show ?thesis using True Suc.prems by simp
  next
    case False
    then have ne: "log_files dir \<noteq> []" by auto
    have m: "?m \<in> set (log_files dir)" using ne by (intro Min_in) auto
    then have "?m \<noteq> []" by (auto simp: log_files_def)
    then have p: "prune_rounds (Suc r) dir = prune_rounds r ?d" using scan ne False by (simp add: LOG_KEEP_def)
    have lf: "log_files ?d = remove1 ?m (log_files dir)" by (simp add: log_files_def filter_remove1)
    have dd: "distinct ?d" "\<And>e. e \<in> set ?d \<Longrightarrow> length e \<le> 31" using Suc.prems set_remove1_subset by (auto dest: notin_set_remove1)
    have set_d: "set ?d = set dir - {?m}" using Suc.prems(1) by simp
    have l: "length (log_files ?d) = length (log_files dir) - 1" using lf m by (simp add: length_remove1)
    note IH = Suc.IH [OF dd]
    have sub: "set (prune_rounds r ?d) \<subseteq> set ?d" using IH by blast
    have lower: "?m < y" if "y \<in> set (log_files (prune_rounds r ?d))" for y
    proof -
      have "y \<in> set (log_files dir)" "y \<noteq> ?m" using that sub set_d by (auto simp: log_files_def)
      then show ?thesis using Min_le [of "set (log_files dir)" y] by (simp add: order.strict_iff_order)
    qed
    have lfs: "set (log_files ?d) \<subseteq> set (log_files dir)" using lf set_remove1_subset by metis
    show ?thesis unfolding p
    proof (intro conjI ballI)
      show "set (prune_rounds r ?d) \<subseteq> set dir" using sub set_d by blast
      show "distinct (prune_rounds r ?d)" using IH by blast
      show "length (log_files (prune_rounds r ?d)) = max (min 20 (length (log_files dir))) (length (log_files dir) - Suc r)"
        using IH l False by (simp add: max_def min_def)
      fix x assume x: "x \<in> set dir - set (prune_rounds r ?d)"
      show "x \<in> set (log_files dir)" using x IH m lfs set_d by (cases "x = ?m") auto
      fix y assume "y \<in> set (log_files (prune_rounds r ?d))"
      then show "x < y" using x IH lower set_d by (cases "x = ?m") auto
    qed
  qed
qed simp


lemma log_name_inj: "a < 100000 \<Longrightarrow> b < 100000 \<Longrightarrow> log_name a = log_name b \<Longrightarrow> a = b"
  by (simp add: log_name_def pad0_inject)

lemma upper_part:
  assumes "sorted xs" "distinct xs" "K \<subseteq> set xs" "\<And>x y. x \<in> set xs - K \<Longrightarrow> y \<in> K \<Longrightarrow> x < y"
  shows "K = set (drop (length xs - card K) xs)"
proof -
  let ?n = "length xs - card K" and ?D = "set (drop (length xs - card K) xs)"
  have fin: "finite K" using assms(3) finite_subset by blast
  have "card K \<le> length xs" using assms(2,3) by (metis List.finite_set card_mono distinct_card)
  then have cD: "card ?D = card K" using assms(2) by (simp add: distinct_card)
  have "x \<in> K" if xD: "x \<in> ?D" for x
  proof (rule ccontr)
    assume no: "x \<notin> K"
    obtain d where "d < length (drop ?n xs)" "x = drop ?n xs ! d" using xD in_set_conv_nth by metis
    then have "?n \<le> ?n + d" "?n + d < length xs" "x = xs ! (?n + d)" by auto
    then obtain i where i: "?n \<le> i" "i < length xs" "x = xs ! i" by blast
    have "K \<subseteq> ?D - {x}"
    proof
      fix y assume y: "y \<in> K"
      then obtain j where j: "j < length xs" "y = xs ! j" using assms(3) by (metis in_set_conv_nth subsetD)
      have "x < y" using assms(4) no y i by simp
      then have "i < j" using sorted_nth_mono [OF assms(1), of j i] i j by (meson leD leI)
      then have "y = drop ?n xs ! (j - ?n)" "j - ?n < length (drop ?n xs)" using i j by auto
      then show "y \<in> ?D - {x}" using \<open>x < y\<close> by (metis DiffI nth_mem order.irrefl singletonD)
    qed
    then have "card K \<le> card ?D - 1" using xD by (metis List.finite_set card_Diff_singleton card_mono finite_Diff)
    moreover have "0 < card ?D" using xD by (auto simp: card_gt_0_iff)
    ultimately show False using cD by simp
  qed
  then show ?thesis using cD fin by (metis List.finite_set card_subset_eq subsetI)
qed

section \<open>The log file\<close>

lemma drain_ends:
  assumes "\<And>c. P c \<Longrightarrow> Q (snd (export c))" "\<And>c. Q c \<Longrightarrow> P c"
  shows "P c \<Longrightarrow> read_all export fuel c = Some (t, c1) \<Longrightarrow> Q c1"
proof (induction fuel arbitrary: c t)
  case (Suc fuel)
  then show ?case using assms(1) [of c] assms(2) by (cases "export c") (auto split: if_splits)
qed simp

lemma export_within:
  assumes "holds h k" "unat c \<le> length h"
  shows "unat (first_shown k) \<le> unat (snd (export_from LOG_BUF (h, k) c)) \<and> unat (snd (export_from LOG_BUF (h, k) c)) \<le> length h"
proof -
  let ?c = "if c < first_shown k then first_shown k else c"
  have "unat (first_shown k) \<le> length h" using assms(1) first_shown_nat [OF assms(1)] by (simp add: holds_def)
  then have "unat (first_shown k) \<le> unat ?c" "unat ?c \<le> length h" using assms(2) by (auto simp: word_less_nat_alt)
  moreover from export_loop_spec [OF assms(1) this, of LOG_BUF "[]"]
  have "unat ?c \<le> unat (snd (export_loop k LOG_BUF ?c []))" "unat (snd (export_loop k LOG_BUF ?c [])) \<le> length h" by auto
  moreover have "export_from LOG_BUF (h, k) c = export_loop k LOG_BUF ?c []"
    using assms(1) by (simp add: export_from_def klog_export_def Let_def LOG_BUF_def holds_def)
  ultimately show ?thesis by (simp del: if_split)
qed

lemma export_all_complete:
  assumes "holds h k" "unat c \<le> length h"
  shows "\<exists>c1. export_all k c = Some (concat (pending_lines (h, k) c), c1) \<and> unat c1 = length h"
proof -
  have "length (pending_lines (h, k) c) < 602" using first_shown_nat [OF assms(1)] by (simp add: pending_lines_def)
  then obtain c1 where c1: "read_all (export_from LOG_BUF (h, k)) 602 c = Some (concat (pending_lines (h, k) c), c1)"
    "pending_lines (h, k) c1 = []"
    using log_lines.drain_complete [of "(h, k)" LOG_BUF c 602] assms(1) by (auto simp: LOG_BUF_def)
  have "unat (first_shown k) \<le> unat c1 \<and> unat c1 \<le> length h"
    by (rule drain_ends [where P = "\<lambda>c. unat c \<le> length h" and Q = "\<lambda>c. unat (first_shown k) \<le> unat c \<and> unat c \<le> length h",
        OF _ _ assms(2) c1(1)]) (use export_within [OF assms(1)] in auto)
  moreover have "length h \<le> max (unat c1) (unat (first_shown k))" using c1(2) by (simp add: pending_lines_def)
  ultimately have "unat c1 = length h" by simp
  then show ?thesis using c1(1) by (simp add: export_all_def export_from_def)
qed

text \<open>The lines of the history after a flush: the announcement of the file joins it once.\<close>

definition announced_history :: "flush_in \<Rightarrow> watch \<Rightarrow> klog_entry list \<Rightarrow> klog_entry list" where
  "announced_history i w h =
    (if announced w then h
     else h @ [make_entry (at_ms i) (at_us i) ''SD'' (take (KLOG_MSG_MAX - 1) (''field log: '' @ log_path w))])"

lemma announce_holds:
  assumes "holds h k" "length h + 1 < 2 ^ 32" "at_us i < 2 ^ 63" "announce i (w, k) = (w1, k1)"
  shows "holds (announced_history i w h) k1 \<and> log_cursor w1 = log_cursor w \<and> log_file w1 = log_file w \<and> log_base k1 = log_base k"
  using assms holds_put [OF assms(1,2,3)]
  by (auto simp: announce_def announced_history_def klog_write_def klog_put_def split: if_splits)

lemma flush_appends:
  assumes "holds h k" "length h + 1 < 2 ^ 32" "at_us i < 2 ^ 63" "unat (log_cursor w) \<le> length h"
    and "log_buf w" "granted i" "file_opens i"
  shows "\<exists>w1 k1. flush_log i (w, k) = Some (w1, k1) \<and> holds (announced_history i w h) k1 \<and> log_base k1 = log_base k \<and>
    log_file w1 = log_file w @ concat (pending_lines (announced_history i w h, k1) (log_cursor w)) \<and>
    unat (log_cursor w1) = length (announced_history i w h)"
proof -
  define w0 where "w0 = (if \<not> pruned w then w\<lparr>log_dir := prune_logs (dir_opens i) (log_dir w), pruned := True\<rparr> else w)"
  obtain w2 k2 where a: "announce i (w0, k) = (w2, k2)" by fastforce
  have w0: "announced_history i w0 h = announced_history i w h" "log_cursor w0 = log_cursor w" "log_file w0 = log_file w"
    by (simp_all add: w0_def announced_history_def)
  note h2 = announce_holds [OF assms(1-3) a, unfolded w0]
  have "unat (log_cursor w) \<le> length (announced_history i w h)" using assms(4) by (simp add: announced_history_def)
  then obtain c1 where c1: "export_all k2 (log_cursor w) = Some (concat (pending_lines (announced_history i w h, k2) (log_cursor w)), c1)"
    "unat c1 = length (announced_history i w h)" using export_all_complete h2 by blast
  have "flush_log i (w, k) = Some (w2\<lparr>log_file := log_file w2 @ concat (pending_lines (announced_history i w h, k2) (log_cursor w)),
      log_cursor := c1\<rparr>, k2)"
    using assms(5-7) a c1(1) h2 by (simp add: flush_log_def Let_def w0_def [symmetric])
  then show ?thesis using h2 c1(2) by simp
qed

section \<open>Properties\<close>



text \<open>
  C31: Pruning keeps the newest logs. With at most 28 log files, named by their boot numbers below 100000, among whatever
  else lies there, pruning leaves exactly the files that are no log and the 20 logs of the highest numbers.
\<close>

theorem pruning_keeps_the_newest:
  assumes "sorted boots" "distinct boots" "\<forall>b \<in> set boots. b < 100000" "length boots \<le> 28"
    and "distinct dir" "\<forall>e \<in> set dir. length e \<le> 31" "set (log_files dir) = log_name ` set boots"
  shows "set (prune_logs True dir) =
    {e \<in> set dir. take 5 e \<noteq> ''BOOT-''} \<union> log_name ` set (drop (length boots - 20) boots)"
proof -
  let ?kept = "prune_rounds 8 dir" and ?K = "{b \<in> set boots. log_name b \<in> set (prune_rounds 8 dir)}"
  have inj: "inj_on log_name (set boots)" using log_name_inj assms(3) by (meson inj_on_def)
  have spec: "set ?kept \<subseteq> set dir" "distinct ?kept"
    "length (log_files ?kept) = max (min 20 (length (log_files dir))) (length (log_files dir) - 8)"
    "\<And>x y. x \<in> set dir \<Longrightarrow> x \<notin> set ?kept \<Longrightarrow> x \<in> set (log_files dir)"
    "\<And>x y. x \<in> set dir \<Longrightarrow> x \<notin> set ?kept \<Longrightarrow> y \<in> set (log_files ?kept) \<Longrightarrow> x < y"
    using prune_rounds_spec [OF assms(5), of 8] assms(6) by auto
  have "length (log_files dir) = card (set (log_files dir))" using assms(5) by (metis distinct_card distinct_filter log_files_def)
  also have "\<dots> = length boots" using assms(2,7) inj by (simp add: card_image distinct_card)
  finally have len: "length (log_files ?kept) = min 20 (length boots)" using spec(3) assms(4) by simp
  have logs: "set (log_files ?kept) = log_name ` ?K" using spec(1) assms(7) by (auto simp: log_files_def)
  have "card ?K = card (set (log_files ?kept))" unfolding logs by (rule card_image [symmetric]) (rule inj_on_subset [OF inj], simp)
  also have "\<dots> = min 20 (length boots)" using spec(2) len by (metis distinct_card distinct_filter log_files_def)
  finally have cK: "card ?K = min 20 (length boots)" .
  have low: "x < y" if "x \<in> set boots - ?K" "y \<in> ?K" for x y
    using that spec(5) [of "log_name x" "log_name y"] assms(3,7) logs log_name_order [of x y] by (auto simp: log_files_def)
  have "?K = set (drop (length boots - card ?K) boots)" by (rule upper_part [OF assms(1,2) _ low]) auto
  then have K: "?K = set (drop (length boots - 20) boots)" unfolding cK by (simp add: min_def split: if_splits)
  have "set ?kept = {e \<in> set dir. take 5 e \<noteq> ''BOOT-''} \<union> set (log_files ?kept)"
    using spec(1,4) by (auto simp: log_files_def)
  then show ?thesis unfolding prune_logs_def logs K by simp
qed

theorem pruning_keeps_the_newest_witness:
  "set (prune_logs True (''NOTES.TXT'' # map log_name [1..<23])) =
    {e \<in> set (''NOTES.TXT'' # map log_name [1..<23]). take 5 e \<noteq> ''BOOT-''} \<union> log_name ` set (drop 2 [1..<23])"
proof -
  let ?d = "''NOTES.TXT'' # map log_name [1..<23]"
  have d: "distinct ?d" using log_name_inj by (auto simp: distinct_map inj_on_def log_name_def)
  have l: "\<forall>e \<in> set ?d. length e \<le> 31" using log_name_short by auto
  have f: "set (log_files ?d) = log_name ` set [1..<23]" by (auto simp: log_files_def log_name_def)
  show ?thesis using pruning_keeps_the_newest [OF _ _ _ _ d l f] by simp
qed

text \<open>
  News reaches the screen in order. From any state of the queue, whatever the watch pushes is taken in that
  order, as far as three fit; what no longer fits is what came last.
\<close>

theorem news_arrives_in_order:
  assumes "news_ok q"
  shows "news_ok (foldl (\<lambda>q e. news_push e q) q es) \<and>
    news_items (foldl (\<lambda>q e. news_push e q) q es) = news_items q @ take (3 - length (news_items q)) es"
  by (rule card_news.put_all_items [OF assms])

theorem news_arrives_in_order_witness:
  "news_items (foldl (\<lambda>q e. news_push e q) no_news
     [STORAGE_EV_MOUNTED, STORAGE_EV_REMOVED, STORAGE_EV_MOUNTED, STORAGE_EV_REMOVED]) =
   [STORAGE_EV_MOUNTED, STORAGE_EV_REMOVED, STORAGE_EV_MOUNTED]"
proof -
  have "news_ok no_news" "news_items no_news = []" by (simp_all add: news_ok_def no_news_def news_items_def news_count_def)
  then show ?thesis
    using news_arrives_in_order [of no_news "[STORAGE_EV_MOUNTED, STORAGE_EV_REMOVED, STORAGE_EV_MOUNTED, STORAGE_EV_REMOVED]"]
    by simp
qed

end
