(* ===== verification/Safe_Mode.thy ===== *)
theory Safe_Mode
  imports Klog
begin

text \<open>
  The boot-loop guard, \<^verbatim>\<open>firmware/p4/main/safe_mode.c\<close>: the count of crashes in a row that flash keeps, what a boot makes
  of it and of the reason for the reset, and the timer that clears it. Whether flash opens, for reading and for writing,
  whether the timer can be made and the time are arguments.
\<close>

section \<open>The code\<close>

definition SAFE_MODE_AFTER :: u32 where "SAFE_MODE_AFTER = 3"
definition SAFE_MODE_HEALTHY_MS :: nat where "SAFE_MODE_HEALTHY_MS = 180000"

text \<open>The reset reasons the code tells apart.\<close>

datatype esp_reset_reason =
  ESP_RST_PANIC | ESP_RST_INT_WDT | ESP_RST_TASK_WDT | ESP_RST_WDT | ESP_RST_BROWNOUT | Other_Reset

text \<open>What one life of the body keeps in memory, and the timer it has armed.\<close>

record safe_mode =
  s_active :: bool
  s_crashes :: int
  s_brownout :: bool
  healthy_due_us :: "nat option"

record boot_in =
  why :: esp_reset_reason
  nvs_reads :: bool
  nvs_writes :: bool
  timer_made :: bool
  boot_ms :: int
  boot_us :: nat

definition crash_reset :: "esp_reset_reason \<Rightarrow> bool" where
  "crash_reset r \<longleftrightarrow> r = ESP_RST_PANIC \<or> r = ESP_RST_INT_WDT \<or> r = ESP_RST_TASK_WDT \<or> r = ESP_RST_WDT"

text \<open>The key in flash: never written, or its number.\<close>

definition write_count :: "bool \<Rightarrow> u32 \<Rightarrow> u32 option \<Rightarrow> u32 option" where
  "write_count opens n key = (if \<not> opens then key else Some n)"

definition healthy_cb :: "bool \<Rightarrow> int \<Rightarrow> nat \<Rightarrow> safe_mode \<Rightarrow> u32 option \<times> klog \<Rightarrow> u32 option \<times> klog" where
  "healthy_cb opens t us sm = (\<lambda>(key, k).
    (write_count opens 0 key,
     fst (klog_write t us ''P4''
       (''up '' @ dec (SAFE_MODE_HEALTHY_MS div 1000) @ '' s after '' @ signed_dec (s_crashes sm) @ '' crash'' @
        (if s_crashes sm = 1 then [] else ''es'') @ '': count cleared'') k)))"

definition safe_mode_boot :: "boot_in \<Rightarrow> u32 option \<times> klog \<Rightarrow> safe_mode \<times> u32 option \<times> klog" where
  "safe_mode_boot i = (\<lambda>(key, k).
    let crash = crash_reset (why i);
        brownout = why i = ESP_RST_BROWNOUT;
        k1 = (if brownout
              then fst (klog_write (boot_ms i) (boot_us i) ''P4'' ''boot after a brownout: the supply dropped while running'' k)
              else k);
        n0 = (if nvs_reads i then case key of Some n \<Rightarrow> n | None \<Rightarrow> 0 else 0);
        (n, key1) = (if crash then (n0 + 1, write_count (nvs_writes i) (n0 + 1) key)
                     else if n0 \<noteq> 0 then (0, write_count (nvs_writes i) 0 key)
                     else (n0, key));
        active = n \<ge> SAFE_MODE_AFTER;
        k2 = (if crash
              then fst (klog_write (boot_ms i) (boot_us i) ''P4''
                (''boot after a crash, '' @ signed_dec (sint n) @ '' in a row'' @
                 (if active then ''; safe mode: no radio, no uploads'' else [])) k1)
              else k1);
        due = (if n > 0 \<and> timer_made i then Some (boot_us i + SAFE_MODE_HEALTHY_MS * 1000) else None)
    in (\<lparr>s_active = active, s_crashes = sint n, s_brownout = brownout, healthy_due_us = due\<rparr>, key1, k2))"

definition safe_mode_active :: "safe_mode \<Rightarrow> bool" where
  "safe_mode_active sm = s_active sm"

definition safe_mode_brownout :: "safe_mode \<Rightarrow> bool" where
  "safe_mode_brownout sm = s_brownout sm"

definition safe_mode_crashes :: "safe_mode \<Rightarrow> int" where
  "safe_mode_crashes sm = s_crashes sm"

section \<open>A history of lives\<close>

text \<open>
  One life: why it began, and whether it stayed up until the timer, if one was armed, ran out. Flash works throughout; each
  life begins with an empty log.
\<close>

record life =
  began :: esp_reset_reason
  stays_up :: bool

definition life_in :: "life \<Rightarrow> boot_in" where
  "life_in l = \<lparr>why = began l, nvs_reads = True, nvs_writes = True, timer_made = True, boot_ms = 0, boot_us = 0\<rparr>"

definition live :: "life \<Rightarrow> u32 option \<Rightarrow> safe_mode \<times> u32 option" where
  "live l key =
    (case safe_mode_boot (life_in l) (key, klog_init klog_boot) of (sm, key1, k) \<Rightarrow>
       (sm, case healthy_due_us sm of
              Some due \<Rightarrow> if stays_up l then fst (healthy_cb True 0 due sm (key1, k)) else key1
            | None \<Rightarrow> key1))"

fun lives :: "life list \<Rightarrow> u32 option \<Rightarrow> u32 option" where
  "lives [] key = key"
| "lives (l # ls) key = lives ls (snd (live l key))"

text \<open>The crashes in a row at the end of a history, newest life first: a life that stayed up ends the row before it.\<close>

fun crash_row :: "life list \<Rightarrow> nat" where
  "crash_row [] = 0"
| "crash_row (l # older) =
    (if crash_reset (began l) then Suc (case older of [] \<Rightarrow> 0 | p # _ \<Rightarrow> if stays_up p then 0 else crash_row older) else 0)"

definition row_kept :: "life list \<Rightarrow> nat" where
  "row_kept newest_first = (case newest_first of [] \<Rightarrow> 0 | p # _ \<Rightarrow> if stays_up p then 0 else crash_row newest_first)"

lemma crash_row_Cons: "crash_row (l # older) = (if crash_reset (began l) then Suc (row_kept older) else 0)"
  by (simp add: row_kept_def split: list.split)

lemma crash_row_le: "crash_row ls \<le> length ls"
proof (induction ls)
  case (Cons l older)
  then show ?case by (cases older) auto
qed simp

definition key_count :: "u32 option \<Rightarrow> u32" where
  "key_count key = (case key of Some n \<Rightarrow> n | None \<Rightarrow> 0)"

text \<open>What a boot makes of the number it finds.\<close>

definition counted :: "life \<Rightarrow> u32 option \<Rightarrow> u32" where
  "counted l key = (if crash_reset (began l) then key_count key + 1 else 0)"

lemma boot_result:
  "fst (safe_mode_boot (life_in l) (key, k)) =
    \<lparr>s_active = 3 \<le> counted l key, s_crashes = sint (counted l key), s_brownout = (began l = ESP_RST_BROWNOUT),
      healthy_due_us = (if counted l key > 0 then Some (SAFE_MODE_HEALTHY_MS * 1000) else None)\<rparr>"
  "fst (snd (safe_mode_boot (life_in l) (key, k))) =
    (if crash_reset (began l) \<or> key_count key \<noteq> 0 then Some (counted l key) else key)"
  by (cases key; simp add: safe_mode_boot_def Let_def life_in_def counted_def key_count_def write_count_def SAFE_MODE_AFTER_def)+

lemma live_result:
  "s_active (fst (live l key)) \<longleftrightarrow> 3 \<le> counted l key"
  "s_crashes (fst (live l key)) = sint (counted l key)"
  "key_count (snd (live l key)) = (if stays_up l then 0 else counted l key)"
proof -
  show "s_active (fst (live l key)) \<longleftrightarrow> 3 \<le> counted l key" "s_crashes (fst (live l key)) = sint (counted l key)"
    by (simp_all add: live_def case_prod_unfold boot_result)
  have z: "\<not> crash_reset (began l) \<Longrightarrow> counted l key = 0" by (simp add: counted_def)
  show "key_count (snd (live l key)) = (if stays_up l then 0 else counted l key)"
    using z by (auto simp: live_def case_prod_unfold boot_result healthy_cb_def write_count_def key_count_def word_gt_0 split: option.splits)
qed

lemma count_is_row:
  "key_count key = of_nat (row_kept before) \<Longrightarrow> key_count (lives ls key) = of_nat (row_kept (rev ls @ before))"
proof (induction ls arbitrary: key before)
  case (Cons l ls)
  have "key_count (snd (live l key)) = of_nat (row_kept (l # before))"
    unfolding live_result(3) counted_def Cons.prems row_kept_def [of "l # before"] by (simp add: crash_row_Cons del: crash_row.simps)
  then show ?case using Cons.IH [of "snd (live l key)" "l # before"] by simp
qed simp

section \<open>Properties\<close>

text \<open>
  C29: Safe mode is a boot loop and nothing else. After any history of lives that began with nothing in flash, the next boot
  leaves out the radio and the uploads exactly when it and the lives before it make three crashes
  in a row or more, none but this last having stayed up for three minutes, and it reports how many there were.
\<close>

theorem safe_mode_is_a_boot_loop:
  assumes "length past < 2 ^ 31 - 1"
  shows "safe_mode_active (fst (live l (lives past None))) = (3 \<le> crash_row (l # rev past)) \<and>
    safe_mode_crashes (fst (live l (lives past None))) = int (crash_row (l # rev past))"
proof -
  have c: "key_count (lives past None) = of_nat (row_kept (rev past))"
    using count_is_row [of None "[]" past] assms by (simp add: key_count_def row_kept_def)
  let ?n = "crash_row (l # rev past)"
  have n: "counted l (lives past None) = of_nat ?n" unfolding counted_def c crash_row_Cons by simp
  have le: "?n < 2 ^ 31" using crash_row_le [of "l # rev past"] assms by simp
  then have "sint (of_nat ?n :: u32) = int ?n" by (simp add: signed_of_nat signed_take_bit_int_eq_self)
  moreover have "(3 \<le> (of_nat ?n :: u32)) = (3 \<le> ?n)"
    using le by (simp add: word_le_nat_alt unat_of_nat_u32)
  ultimately show ?thesis unfolding safe_mode_active_def safe_mode_crashes_def live_result n by simp
qed

theorem safe_mode_is_a_boot_loop_witness:
  "safe_mode_active (fst (live \<lparr>began = ESP_RST_PANIC, stays_up = False\<rparr>
     (lives [\<lparr>began = ESP_RST_PANIC, stays_up = False\<rparr>, \<lparr>began = ESP_RST_TASK_WDT, stays_up = False\<rparr>] None)))"
  using safe_mode_is_a_boot_loop
    [of "[\<lparr>began = ESP_RST_PANIC, stays_up = False\<rparr>, \<lparr>began = ESP_RST_TASK_WDT, stays_up = False\<rparr>]"
        "\<lparr>began = ESP_RST_PANIC, stays_up = False\<rparr>"]
  by (simp add: crash_reset_def)

end
