(* ===== verification/Fw_Image.thy ===== *)
theory Fw_Image
  imports Pure_Monitor
begin

text \<open>
  What the two ends of a firmware update share: the codes of refusals, the hash as text, and the
  record of what a target does to its flash. The body and a camera node are both receivers of an image; what
  either promises of the image it selects to boot is the interface \<open>image_receiver\<close>.

  The flash library and the hash are not this program's code. The calls a target makes that succeed are kept as its
  events; the hash context is the bytes it was given, and the hash of them is an argument.
\<close>

section \<open>Vocabulary\<close>

datatype fw_err =
  Fw_OK | Fw_INVALID_ARG | Fw_INVALID_SIZE | Fw_INVALID_STATE | Fw_NOT_SUPPORTED | Fw_INVALID_RESPONSE
  | Fw_INVALID_CRC | Fw_TIMEOUT | Fw_NO_MEM | Fw_OTA_VALIDATE_FAILED | Fw_OTHER

text \<open>
  The events of a target: a session opened on a slot, for so many bytes of such a hash; bytes written; the session given up;
  a slot selected to boot.
\<close>

datatype fw_event = Opens nat u32 bytes | Writes bytes | Drops | Boots nat

fun hex_digit :: "char \<Rightarrow> u8 option" where
  "hex_digit c =
    (if c \<ge> CHR ''0'' \<and> c \<le> CHR ''9'' then Some (of_nat (of_char c - 48))
     else if c \<ge> CHR ''a'' \<and> c \<le> CHR ''f'' then Some (of_nat (of_char c - 97 + 10))
     else if c \<ge> CHR ''A'' \<and> c \<le> CHR ''F'' then Some (of_nat (of_char c - 65 + 10))
     else None)"

fun hex_pairs :: "string \<Rightarrow> bytes option" where
  "hex_pairs (a # b # cs) =
    (case (hex_digit a, hex_digit b, hex_pairs cs) of
       (Some x, Some y, Some bs) \<Rightarrow> Some ((push_bit 4 x OR y) # bs)
     | _ \<Rightarrow> None)"
| "hex_pairs _ = Some []"

definition hex_to_bytes :: "string option \<Rightarrow> nat \<Rightarrow> bytes option" where
  "hex_to_bytes hex n =
    (case hex of None \<Rightarrow> None
     | Some s \<Rightarrow> if length s \<noteq> n * 2 then None else hex_pairs s)"

section \<open>The image a target has written\<close>

text \<open>What the events leave open: the slot, the announced size and hash, and the bytes written since.\<close>

type_synonym image_session = "nat \<times> u32 \<times> bytes \<times> bytes"

fun event_session :: "image_session option \<Rightarrow> fw_event \<Rightarrow> image_session option" where
  "event_session s (Opens p n want) = Some (p, n, want, [])"
| "event_session s (Writes bs) = map_option (\<lambda>(p, n, want, im). (p, n, want, im @ bs)) s"
| "event_session s Drops = None"
| "event_session s (Boots p) = s"

definition session_of :: "fw_event list \<Rightarrow> image_session option" where
  "session_of = foldl event_session None"

text \<open>An image is the announced one: of that many bytes, and of that hash.\<close>

definition announced_image :: "(bytes \<Rightarrow> bytes) \<Rightarrow> nat \<Rightarrow> image_session option \<Rightarrow> bool" where
  "announced_image sha256 p s = (case s of None \<Rightarrow> False | Some (q, n, want, im) \<Rightarrow> q = p \<and> length im = unat n \<and> sha256 im = want)"

fun boots_from :: "(bytes \<Rightarrow> bytes) \<Rightarrow> image_session option \<Rightarrow> fw_event list \<Rightarrow> bool" where
  "boots_from sha256 s [] = True"
| "boots_from sha256 s (e # es) =
    ((case e of Boots p \<Rightarrow> announced_image sha256 p s | _ \<Rightarrow> True) \<and> boots_from sha256 (event_session s e) es)"

definition boots_verified :: "(bytes \<Rightarrow> bytes) \<Rightarrow> fw_event list \<Rightarrow> bool" where
  "boots_verified sha256 = boots_from sha256 None"

lemma boots_from_append:
  "boots_from sha256 s (xs @ ys) \<longleftrightarrow> boots_from sha256 s xs \<and> boots_from sha256 (foldl event_session s xs) ys"
  by (induction xs arbitrary: s) auto

lemma boots_verified_append:
  "boots_verified sha256 (xs @ ys) \<longleftrightarrow> boots_verified sha256 xs \<and> boots_from sha256 (session_of xs) ys"
  by (simp add: boots_verified_def session_of_def boots_from_append)

lemma session_of_append: "session_of (xs @ ys) = foldl event_session (session_of xs) ys"
  by (simp add: session_of_def)

lemma boots_verified_at:
  assumes "boots_verified sha256 (xs @ Boots p # ys)"
  shows "announced_image sha256 p (session_of xs)"
  using assms by (simp add: boots_verified_append)

lemma boots_from_quiet: "\<forall>e \<in> set es. \<forall>p. e \<noteq> Boots p \<Longrightarrow> boots_from sha256 s es"
proof (induction es arbitrary: s)
  case (Cons e es)
  then show ?case by (cases e) auto
qed simp

section \<open>Receivers\<close>

text \<open>
  A receiver of images: its steps and what it has done to its flash. Every step adds events, and what it selects to boot is
  the announced image.
\<close>

locale image_receiver =
  fixes step :: "'i \<Rightarrow> 's \<Rightarrow> 's"
    and events :: "'s \<Rightarrow> fw_event list"
    and sha256 :: "bytes \<Rightarrow> bytes"
    and sound :: "'s \<Rightarrow> bool"
  assumes step_sound: "sound s \<Longrightarrow> sound (step i s)"
    and step_events: "sound s \<Longrightarrow> \<exists>es. events (step i s) = events s @ es \<and> boots_from sha256 (session_of (events s)) es"
begin

lemma run_sound: "sound s \<Longrightarrow> sound (fold step ops s)"
  by (induction ops arbitrary: s) (auto intro: step_sound)

lemma run_verified:
  "sound s \<Longrightarrow> boots_verified sha256 (events s) \<Longrightarrow> boots_verified sha256 (events (fold step ops s))"
proof (induction ops arbitrary: s)
  case (Cons i ops)
  obtain es where "events (step i s) = events s @ es" "boots_from sha256 (session_of (events s)) es"
    using step_events [OF Cons.prems(1)] by blast
  then have "boots_verified sha256 (events (step i s))" using Cons.prems(2) by (simp add: boots_verified_append)
  then show ?case using Cons.IH step_sound [OF Cons.prems(1)] by simp
qed simp

lemma run_boots_announced:
  assumes "sound s" "boots_verified sha256 (events s)" "events (fold step ops s) = xs @ Boots p # ys"
  shows "announced_image sha256 p (session_of xs)"
  using run_verified [OF assms(1,2), of ops] assms(3) boots_verified_at by simp

end

end
