(* ===== verification/Fw_Node.thy ===== *)
theory Fw_Node
  imports Fw_Image
begin

text \<open>
  A camera node's side of a firmware update, the \<^verbatim>\<open>handle_fw_*\<close> of \<^verbatim>\<open>firmware/camnode/main/node_server.c\<close>: a session for one image into
  the slot that is not running, its chunks in order, and the check of the whole before the slot is selected
  and the node restarts. What the flash library answers and the slot it offers are arguments.
\<close>

section \<open>The code\<close>

definition NL_FW_CHUNK_MAX :: nat where "NL_FW_CHUNK_MAX = 2048"
definition LINK_DECODE_PAYLOAD_MAX :: nat where "LINK_DECODE_PAYLOAD_MAX = NL_FW_CHUNK_MAX + 4 + 256"
definition NODE_MAX_IMAGE :: int where "NODE_MAX_IMAGE = 4 * 1024 * 1024"

record node_fw =
  n_open :: bool
  n_part :: nat
  n_size :: u32
  n_received :: u32
  n_want :: bytes
  n_sha :: bytes
  n_frame_held :: bool
  n_events :: "fw_event list"

datatype node_reply = Nack string string | Begin_Reply | Chunk_Reply nat | End_Reply | Abort_Reply

definition node_boot :: node_fw where
  "node_boot = \<lparr>n_open = False, n_part = 0, n_size = 0, n_received = 0, n_want = [], n_sha = [], n_frame_held = False, n_events = []\<rparr>"

text \<open>A restart, ordered or by the power: what memory holds is gone, what flash holds stays.\<close>

definition node_restart :: "node_fw \<Rightarrow> node_fw" where
  "node_restart n = node_boot\<lparr>n_events := n_events n\<rparr>"

definition fw_hex32 :: "string option \<Rightarrow> bytes option" where
  "fw_hex32 hex = hex_to_bytes hex 32"

definition fw_drop :: "node_fw \<Rightarrow> node_fw" where
  "fw_drop n = (if \<not> n_open n then n else n\<lparr>n_open := False, n_events := n_events n @ [Drops]\<rparr>)"

text \<open>The slot the flash library offers, with its size, and its answer to opening it.\<close>

record slot_in =
  offered :: "(nat \<times> u32) option"
  opened :: fw_err

definition handle_fw_begin :: "slot_in \<Rightarrow> (int option \<times> string option) \<Rightarrow> node_fw \<Rightarrow> node_reply \<times> node_fw" where
  "handle_fw_begin i = (\<lambda>(size, sha) n.
    case size of None \<Rightarrow> (Nack ''BAD_SIZE'' ''Image size must be 1 byte to 4 MB'', n)
    | Some sz \<Rightarrow>
      if sz < 1 \<or> sz > NODE_MAX_IMAGE then (Nack ''BAD_SIZE'' ''Image size must be 1 byte to 4 MB'', n)
      else (case fw_hex32 sha of None \<Rightarrow> (Nack ''INVALID_ARGUMENT'' ''sha256 must be 64 hex characters'', n)
        | Some want \<Rightarrow>
          if n_frame_held n then (Nack ''BUSY'' ''A frame is held; release it first'', n)
          else (let n1 = fw_drop n; count = of_int sz :: u32 in
            case offered i of None \<Rightarrow> (Nack ''HARDWARE_ERROR'' ''No OTA slot: this node is on the single-app partition table'', n1)
            | Some (part, room) \<Rightarrow>
              if count > room then (Nack ''BAD_SIZE'' ''Image is larger than the OTA slot'', n1)
              else if opened i \<noteq> Fw_OK then (Nack ''FLASH_WRITE'' ''Could not open the OTA slot'', n1)
              else (Begin_Reply,
                n1\<lparr>n_open := True, n_part := part, n_size := count, n_received := 0, n_want := want, n_sha := [],
                   n_events := n_events n1 @ [Opens part count want]\<rparr>))))"

definition handle_fw_chunk :: "fw_err \<Rightarrow> bytes \<Rightarrow> node_fw \<Rightarrow> node_reply \<times> node_fw" where
  "handle_fw_chunk written payload n =
    (if \<not> n_open n then (Nack ''NO_SESSION'' ''No update session is open'', n)
     else if length payload < 5 then (Nack ''INVALID_ARGUMENT'' ''A chunk is 4 bytes of offset and data'', n)
     else (let offset = ucast (payload ! 0) OR push_bit 8 (ucast (payload ! 1)) OR push_bit 16 (ucast (payload ! 2))
                          OR push_bit 24 (ucast (payload ! 3)) :: u32;
               data = drop 4 payload; len = of_nat (length data) :: u32
           in if offset \<noteq> n_received n then (Nack ''BAD_OFFSET'' ''Chunks must arrive in order'', n)
              else if n_received n + len > n_size n then (Nack ''BAD_SIZE'' ''Chunk runs past the image size'', n)
              else if written \<noteq> Fw_OK then (Nack ''FLASH_WRITE'' ''Flash write failed'', fw_drop n)
              else (Chunk_Reply (length data),
                n\<lparr>n_sha := n_sha n @ data, n_received := n_received n + len, n_events := n_events n @ [Writes data]\<rparr>)))"

text \<open>The answers of the flash library to finishing the image and to selecting its slot.\<close>

record finish_in =
  ended :: fw_err
  selected :: fw_err

definition handle_fw_end :: "(bytes \<Rightarrow> bytes) \<Rightarrow> finish_in \<Rightarrow> node_fw \<Rightarrow> node_reply \<times> node_fw" where
  "handle_fw_end sha256 i n =
    (if \<not> n_open n then (Nack ''NO_SESSION'' ''No update session is open'', n)
     else if n_received n < n_size n then (Nack ''SHORT_IMAGE'' ''Not every byte of the image arrived'', fw_drop n)
     else if sha256 (n_sha n) \<noteq> n_want n
       then (Nack ''CHECKSUM_FAILED'' ''SHA-256 of the received image does not match'', fw_drop n)
     else (let n1 = n\<lparr>n_open := False\<rparr> in
       if ended i = Fw_OTA_VALIDATE_FAILED then (Nack ''CHECKSUM_FAILED'' ''Image failed validation'', n1)
       else if ended i \<noteq> Fw_OK then (Nack ''FLASH_WRITE'' ''Could not finish the OTA write'', n1)
       else if selected i \<noteq> Fw_OK then (Nack ''FLASH_WRITE'' ''Could not select the new slot'', n1)
       else (End_Reply, node_restart (n1\<lparr>n_events := n_events n1 @ [Boots (n_part n1)]\<rparr>))))"

definition handle_fw_abort :: "node_fw \<Rightarrow> node_reply \<times> node_fw" where
  "handle_fw_abort n = (Abort_Reply, fw_drop n)"

section \<open>Sessions\<close>

text \<open>
  While a session is open, memory and flash agree: the bytes hashed are the bytes written, and their number is what was received,
  within the size announced.
\<close>

definition node_sound :: "node_fw \<Rightarrow> bool" where
  "node_sound n \<longleftrightarrow> (n_open n \<longrightarrow>
     session_of (n_events n) = Some (n_part n, n_size n, n_want n, n_sha n) \<and> unat (n_received n) = length (n_sha n) \<and>
     n_received n \<le> n_size n \<and> unat (n_size n) \<le> 4194304)"

text \<open>
  What may come to a node: the four requests with the answers of its flash, a frame taken or let go, a restart. The link's decoder drops a
  frame whose payload is longer than its bound.
\<close>

datatype node_step =
  Node_Begin slot_in "int option \<times> string option" | Node_Chunk fw_err bytes | Node_End finish_in | Node_Abort
  | Node_Frame bool | Node_Restart

fun node_do :: "(bytes \<Rightarrow> bytes) \<Rightarrow> node_step \<Rightarrow> node_fw \<Rightarrow> node_fw" where
  "node_do sha256 (Node_Begin i req) n = snd (handle_fw_begin i req n)"
| "node_do sha256 (Node_Chunk w payload) n =
    (if length payload \<le> LINK_DECODE_PAYLOAD_MAX then snd (handle_fw_chunk w payload n) else n)"
| "node_do sha256 (Node_End i) n = snd (handle_fw_end sha256 i n)"
| "node_do sha256 Node_Abort n = snd (handle_fw_abort n)"
| "node_do sha256 (Node_Frame held) n = n\<lparr>n_frame_held := held\<rparr>"
| "node_do sha256 Node_Restart n = node_restart n"

lemmas node_handler_defs = handle_fw_begin_def handle_fw_chunk_def handle_fw_end_def handle_fw_abort_def fw_drop_def node_restart_def node_boot_def

lemma node_sound_boot: "node_sound node_boot"
  by (simp add: node_sound_def node_boot_def)

lemma drop_sound: "node_sound (fw_drop n)"
  if "node_sound n" using that by (simp add: fw_drop_def node_sound_def)

lemma chunk_within:
  fixes r s :: u32
  assumes "unat s \<le> 4194304" "r \<le> s" "len \<le> 16777216" "r + of_nat len \<le> s"
  shows "unat (r + of_nat len) = unat r + len"
proof -
  have "unat r \<le> 4194304" using assms(1,2) by (simp add: word_le_nat_alt)
  then show ?thesis using assms(3) by (simp add: unat_word_ariths(1) unat_of_nat take_bit_nat_eq_self)
qed

lemma begin_sound: "node_sound n \<Longrightarrow> node_sound (snd (handle_fw_begin i req n))"
  by (auto simp: handle_fw_begin_def drop_sound Let_def NODE_MAX_IMAGE_def split: option.splits prod.splits)
     (auto simp: node_sound_def session_of_append nat_le_iff unsigned_of_int take_bit_int_eq_self)

lemma chunk_sound:
  assumes "node_sound n" "length payload \<le> LINK_DECODE_PAYLOAD_MAX"
  shows "node_sound (snd (handle_fw_chunk w payload n))"
proof -
  have l: "length payload - 4 \<le> 16777216" using assms(2) by (simp add: LINK_DECODE_PAYLOAD_MAX_def NL_FW_CHUNK_MAX_def)
  show ?thesis
    using assms(1) chunk_within [of "n_size n" "n_received n" "length payload - 4"] l drop_sound [OF assms(1)]
    by (auto simp: handle_fw_chunk_def Let_def not_less) (auto simp: node_sound_def session_of_append)
qed

lemma end_sound: "node_sound n \<Longrightarrow> node_sound (snd (handle_fw_end sha256 i n))"
  by (auto simp: handle_fw_end_def Let_def drop_sound) (auto simp: node_sound_def node_restart_def node_boot_def)

lemma node_step_sound: "node_sound n \<Longrightarrow> node_sound (node_do sha256 st n)"
  by (cases st) (auto simp: begin_sound chunk_sound end_sound handle_fw_abort_def drop_sound node_restart_def,
    auto simp: node_sound_def node_boot_def)

lemma fw_drop_events: "\<exists>es. n_events (fw_drop n) = n_events n @ es \<and> boots_from sha256 s es"
  by (simp add: fw_drop_def)

lemma end_boots:
  assumes "node_sound n"
  shows "\<exists>es. n_events (snd (handle_fw_end sha256 i n)) = n_events n @ es \<and> boots_from sha256 (session_of (n_events n)) es"
proof (cases "n_open n \<and> \<not> n_received n < n_size n \<and> sha256 (n_sha n) = n_want n")
  case True
  then have "announced_image sha256 (n_part n) (session_of (n_events n))"
    using assms by (auto simp: node_sound_def announced_image_def not_less)
  then show ?thesis using True by (auto simp: handle_fw_end_def Let_def node_restart_def)
next
  case False
  then show ?thesis by (auto simp: handle_fw_end_def Let_def fw_drop_def)
qed

lemma node_step_events:
  assumes "node_sound n"
  shows "\<exists>es. n_events (node_do sha256 st n) = n_events n @ es \<and> boots_from sha256 (session_of (n_events n)) es"
proof (cases st)
  case (Node_Begin i req)
  then show ?thesis
    by (auto simp: handle_fw_begin_def Let_def fw_drop_def split: option.splits prod.splits)
next
  case (Node_Chunk w payload)
  then show ?thesis by (auto simp: handle_fw_chunk_def Let_def fw_drop_def)
next
  case (Node_End i)
  then show ?thesis using end_boots [OF assms] by simp
qed (auto simp: handle_fw_abort_def fw_drop_def node_restart_def)

interpretation node_receiver: image_receiver "node_do sha256" n_events sha256 node_sound for sha256
  by unfold_locales (simp_all add: node_step_sound node_step_events)

end
