(* ===== verification/Fw_Update.thy ===== *)
theory Fw_Update
  imports Fw_Node Kino_Decimal
begin

text \<open>
  The body's side of a firmware update, \<^verbatim>\<open>firmware/p4/main/fw_update.c\<close>, with the requests of \<^verbatim>\<open>cam_link.c\<close> it makes: one session at
  a time, for its own image or, over the camera's link, for a node's. The body and its four nodes are one state, so that a
  request that is lost, or whose answer is lost, has the effect it has on the node. The log lines are left out; the lock is held
  throughout each operation, so an operation is one step.
\<close>

section \<open>The code: the link\<close>

text \<open>
  What becomes of one request to a node: answered; carried out, the answer cut short; carried out, the answer lost; lost on the way; not written whole to the line;
  no memory for it; no such channel.
\<close>

datatype link = Answered | Reply_Cut | Reply_Lost | Request_Lost | Short_Write | No_Memory | No_Channel

definition request :: "link \<Rightarrow> (node_fw \<Rightarrow> node_reply \<times> node_fw) \<Rightarrow> node_fw \<Rightarrow> (fw_err \<times> string) \<times> node_fw" where
  "request l h n =
    (case l of
       Answered \<Rightarrow> (case h n of
           (Nack code m, n1) \<Rightarrow> ((Fw_INVALID_RESPONSE, take 23 code), n1)
         | (_, n1) \<Rightarrow> ((Fw_OK, []), n1))
     | Reply_Cut \<Rightarrow> ((Fw_INVALID_SIZE, []), snd (h n))
     | Reply_Lost \<Rightarrow> ((Fw_TIMEOUT, []), snd (h n))
     | Request_Lost \<Rightarrow> ((Fw_TIMEOUT, []), n)
     | Short_Write \<Rightarrow> ((Fw_INVALID_STATE, []), n)
     | No_Memory \<Rightarrow> ((Fw_NO_MEM, []), n)
     | No_Channel \<Rightarrow> ((Fw_INVALID_ARG, []), n))"

text \<open>
  The request carries size, hash and version as JSON in 160 bytes. Whether the node can parse it, which a version too long or with a
  quote in it spoils, is an argument; one it cannot parse has neither a size nor a hash.
\<close>

definition camlink_fw_begin_ch :: "link \<Rightarrow> bool \<Rightarrow> slot_in \<Rightarrow> u32 \<Rightarrow> string \<Rightarrow> node_fw \<Rightarrow> (fw_err \<times> string) \<times> node_fw" where
  "camlink_fw_begin_ch l parses i count sha256_hex =
    request l (handle_fw_begin i (if parses then (Some (uint count), Some sha256_hex) else (None, None)))"

definition chunk_payload :: "u32 \<Rightarrow> bytes \<Rightarrow> bytes" where
  "chunk_payload offset data =
    [ucast offset, ucast (drop_bit 8 offset), ucast (drop_bit 16 offset), ucast (drop_bit 24 offset)] @ data"

definition camlink_fw_chunk_ch :: "link \<Rightarrow> fw_err \<Rightarrow> u32 \<Rightarrow> bytes \<Rightarrow> node_fw \<Rightarrow> (fw_err \<times> string) \<times> node_fw" where
  "camlink_fw_chunk_ch l w offset data n =
    (if data = [] \<or> length data > NL_FW_CHUNK_MAX then ((Fw_INVALID_ARG, []), n)
     else request l (handle_fw_chunk w (chunk_payload offset data)) n)"

definition camlink_fw_end_ch :: "(bytes \<Rightarrow> bytes) \<Rightarrow> link \<Rightarrow> finish_in \<Rightarrow> node_fw \<Rightarrow> (fw_err \<times> string) \<times> node_fw" where
  "camlink_fw_end_ch sha256 l i = request l (handle_fw_end sha256 i)"

definition camlink_fw_abort_ch :: "link \<Rightarrow> node_fw \<Rightarrow> node_fw" where
  "camlink_fw_abort_ch l n = snd (request l handle_fw_abort n)"

section \<open>The code: sessions\<close>

definition FW_MAX_IMAGE :: u32 where "FW_MAX_IMAGE = 4 * 1024 * 1024"
definition FW_HOST_CHUNK :: u32 where "FW_HOST_CHUNK = 8192"
definition FW_NODE_BACK_MS :: int where "FW_NODE_BACK_MS = 40000"
definition FW_NODE_GIVEUP_MS :: int where "FW_NODE_GIVEUP_MS = 95000"
definition FW_P4_RESTART_DELAY_US :: int where "FW_P4_RESTART_DELAY_US = 800000"
definition FW_T_P4 :: nat where "FW_T_P4 = 0"
definition FW_T_COUNT :: nat where "FW_T_COUNT = 5"

datatype fw_state = Idle | Receiving | Verifying | Applying | Rebooting | Ready | Error

record target =
  t_state :: fw_state
  t_error :: string
  pending_version :: string
  end_us :: int
  bank_cycled :: bool

record fw_session =
  s_open :: bool
  s_target :: nat
  s_id :: u32
  s_size :: u32
  s_received :: u32
  s_last_us :: int
  s_want :: bytes
  s_version :: string
  s_sha :: bytes
  s_part :: nat
  s_restart_us :: "int option"

record body =
  ses :: fw_session
  targets :: "target list"
  next_id :: u32
  p4_events :: "fw_event list"
  nodes :: "node_fw list"

definition NAMES :: "string list" where
  "NAMES = [''p4'', ''cam1'', ''cam2'', ''cam3'', ''cam4'']"

definition idle_target :: target where
  "idle_target = \<lparr>t_state = Idle, t_error = [], pending_version = [], end_us = 0, bank_cycled = False\<rparr>"

definition body_boot :: body where
  "body_boot =
    \<lparr>ses = \<lparr>s_open = False, s_target = 0, s_id = 0, s_size = 0, s_received = 0, s_last_us = 0, s_want = [], s_version = [],
            s_sha = [], s_part = 0, s_restart_us = None\<rparr>,
     targets = replicate FW_T_COUNT idle_target, next_id = 100, p4_events = [], nodes = replicate 4 node_boot\<rparr>"

definition fw_update_target_parse :: "string option \<Rightarrow> nat option" where
  "fw_update_target_parse str = (case str of None \<Rightarrow> None | Some s \<Rightarrow> first_at (\<lambda>name. s = name) NAMES)"

definition fw_update_target_name :: "nat \<Rightarrow> string" where
  "fw_update_target_name t = (if t < FW_T_COUNT then NAMES ! t else ''?'')"

text \<open>A refusal: the error returned, and the code and sentence for the host.\<close>

type_synonym fw_refusal = "fw_err \<times> string \<times> string"

definition set_target :: "nat \<Rightarrow> (target \<Rightarrow> target) \<Rightarrow> body \<Rightarrow> body" where
  "set_target t f b = b\<lparr>targets := (targets b)[t := f (targets b ! t)]\<rparr>"

definition fw_set_error :: "nat \<Rightarrow> string \<Rightarrow> body \<Rightarrow> body" where
  "fw_set_error t m = set_target t (\<lambda>x. x\<lparr>t_state := Error, t_error := take 79 m\<rparr>)"

definition close_session :: "body \<Rightarrow> body" where
  "close_session b = b\<lparr>ses := (ses b)\<lparr>s_open := False\<rparr>\<rparr>"

definition drop_session :: "link \<Rightarrow> body \<Rightarrow> body" where
  "drop_session l b =
    (if \<not> s_open (ses b) then b
     else if s_target (ses b) = FW_T_P4 then close_session (b\<lparr>p4_events := p4_events b @ [Drops]\<rparr>)
     else (let cam = s_target (ses b) - 1
           in close_session (b\<lparr>nodes := (nodes b)[cam := camlink_fw_abort_ch l (nodes b ! cam)]\<rparr>)))"

record begin_in =
  maint :: bool
  capturing :: bool
  p4_slot :: slot_in
  b_link :: link
  b_parses :: bool
  node_slot :: slot_in
  b_now :: int

definition open_session :: "nat \<Rightarrow> u32 \<Rightarrow> bytes \<Rightarrow> string option \<Rightarrow> int \<Rightarrow> nat \<Rightarrow> body \<Rightarrow> body" where
  "open_session t count want version now part b =
    (let v = take 23 (case version of None \<Rightarrow> [] | Some v \<Rightarrow> v) in
     set_target t (\<lambda>x. x\<lparr>t_state := Receiving, t_error := [], bank_cycled := False, pending_version := v\<rparr>)
       (b\<lparr>ses := (ses b)\<lparr>s_open := True, s_target := t, s_id := next_id b, s_size := count, s_received := 0, s_last_us := now,
           s_want := want, s_version := v, s_sha := [], s_part := part\<rparr>,
         next_id := next_id b + 1\<rparr>))"

definition fw_update_begin ::
  "begin_in \<Rightarrow> nat \<Rightarrow> u32 \<Rightarrow> string option \<Rightarrow> string option \<Rightarrow> body \<Rightarrow> (fw_refusal + u32 \<times> u32) \<times> body" where
  "fw_update_begin i t count sha256_hex version b =
    (if t \<ge> FW_T_COUNT then (Inl (Fw_INVALID_ARG, ''INVALID_ARGUMENT'', ''target must be p4 or cam1..cam4''), b)
     else case hex_to_bytes sha256_hex 32 of
       None \<Rightarrow> (Inl (Fw_INVALID_ARG, ''INVALID_ARGUMENT'', ''sha256 must be 64 hex characters''), b)
     | Some want \<Rightarrow>
       if count = 0 \<or> count > FW_MAX_IMAGE then (Inl (Fw_INVALID_SIZE, ''BAD_SIZE'', ''Image size must be 1 byte to 4 MB''), b)
       else if s_open (ses b) then (Inl (Fw_INVALID_STATE, ''BUSY'', ''An update session is already open''), b)
       else if \<not> maint i \<and> capturing i then (Inl (Fw_INVALID_STATE, ''INVALID_STATE'', ''A capture is running''), b)
       else if t = FW_T_P4 then
         (case offered (p4_slot i) of
            None \<Rightarrow> (Inl (Fw_NOT_SUPPORTED, ''HARDWARE_ERROR'', ''No OTA slot to write: single-app partition table''), b)
          | Some (part, room) \<Rightarrow>
            if count > room then (Inl (Fw_INVALID_SIZE, ''BAD_SIZE'', ''Image is larger than the OTA slot''), b)
            else if opened (p4_slot i) \<noteq> Fw_OK then (Inl (opened (p4_slot i), ''FLASH_WRITE'', ''Could not open the OTA slot''), b)
            else (Inr (next_id b, FW_HOST_CHUNK),
              open_session t count want version (b_now i) part (b\<lparr>p4_events := p4_events b @ [Opens part count want]\<rparr>)))
       else (case camlink_fw_begin_ch (b_link i) (b_parses i) (node_slot i) count (the sha256_hex) (nodes b ! (t - 1)) of
           ((err, code), n1) \<Rightarrow>
             (let b1 = b\<lparr>nodes := (nodes b)[t - 1 := n1]\<rparr> in
              if err \<noteq> Fw_OK then
                (Inl (if err = Fw_INVALID_RESPONSE \<and> code \<noteq> []
                      then (err, if code = ''HARDWARE_ERROR'' then ''HARDWARE_ERROR'' else ''FLASH_WRITE'',
                            take 63 (NAMES ! t @ '' refused the update: '' @ code))
                      else (err, ''CAM_UNREACHABLE'', ''The camera node did not answer'')), b1)
              else (Inr (next_id b, FW_HOST_CHUNK), open_session t count want version (b_now i) (s_part (ses b)) b1))))"

text \<open>
  A host's chunk goes to a node in pieces of \<^verbatim>\<open>NL_FW_CHUNK_MAX\<close>, each with its own fate and its own answer of the node's flash.
\<close>

record chunk_in =
  p4_written :: fw_err
  c_links :: "nat \<Rightarrow> link"
  c_written :: "nat \<Rightarrow> fw_err"
  c_abort :: link
  c_now :: int

function send_pieces :: "chunk_in \<Rightarrow> u32 \<Rightarrow> bytes \<Rightarrow> nat \<Rightarrow> node_fw \<Rightarrow> (fw_err \<times> string) \<times> node_fw" where
  "send_pieces i offset data at n =
    (if at \<ge> length data then ((Fw_OK, []), n)
     else (let k = at div NL_FW_CHUNK_MAX; piece = take NL_FW_CHUNK_MAX (drop at data)
           in case camlink_fw_chunk_ch (c_links i k) (c_written i k) (offset + of_nat at) piece n of
             ((err, code), n1) \<Rightarrow>
               if err \<noteq> Fw_OK then ((err, code), n1) else send_pieces i offset data (at + NL_FW_CHUNK_MAX) n1))"
  by pat_completeness auto
termination
  by (relation "measure (\<lambda>(i, offset, data, at, n). length data - at)") (auto simp: NL_FW_CHUNK_MAX_def)

declare send_pieces.simps [simp del]

definition take_chunk :: "bytes \<Rightarrow> int \<Rightarrow> body \<Rightarrow> body" where
  "take_chunk data now b =
    b\<lparr>ses := (ses b)\<lparr>s_sha := s_sha (ses b) @ data, s_received := s_received (ses b) + of_nat (length data), s_last_us := now\<rparr>\<rparr>"

definition fw_update_chunk :: "chunk_in \<Rightarrow> u32 \<Rightarrow> u32 \<Rightarrow> bytes \<Rightarrow> body \<Rightarrow> (fw_refusal + unit) \<times> body" where
  "fw_update_chunk i session_id offset data b =
    (if \<not> s_open (ses b) then (Inl (Fw_INVALID_STATE, ''NO_SESSION'', ''No update session is open''), b)
     else if session_id \<noteq> s_id (ses b) then (Inl (Fw_INVALID_ARG, ''BAD_SESSION'', ''That session is not the open one''), b)
     else if offset \<noteq> s_received (ses b) then (Inl (Fw_INVALID_ARG, ''BAD_OFFSET'', ''Chunks must arrive in order''), b)
     else if data = [] \<or> s_received (ses b) + of_nat (length data) > s_size (ses b)
       then (Inl (Fw_INVALID_SIZE, ''BAD_SIZE'', ''Chunk runs past the image size named at BEGIN''), b)
     else if s_target (ses b) = FW_T_P4 then
       (if p4_written i \<noteq> Fw_OK
        then (Inl (p4_written i, ''FLASH_WRITE'', ''Flash write failed''),
              drop_session (c_abort i) (fw_set_error (s_target (ses b)) ''Flash write failed'' b))
        else (Inr (), take_chunk data (c_now i) (b\<lparr>p4_events := p4_events b @ [Writes data]\<rparr>)))
     else (let cam = s_target (ses b) - 1 in
       case send_pieces i offset data 0 (nodes b ! cam) of
         ((err, code), n1) \<Rightarrow>
           (let b1 = b\<lparr>nodes := (nodes b)[cam := n1]\<rparr> in
            if err \<noteq> Fw_OK
            then (Inl (err, if code \<noteq> [] then ''FLASH_WRITE'' else ''CAM_UNREACHABLE'',
                       if code \<noteq> [] then ''The camera node refused a chunk'' else ''The camera node did not answer''),
                  drop_session (c_abort i)
                    (fw_set_error (s_target (ses b)) (if code \<noteq> [] then code else ''The camera node stopped answering'') b1))
            else (Inr (), take_chunk data (c_now i) b1))))"

record end_in =
  p4_finish :: finish_in
  restart_timer :: bool
  e_link :: link
  node_finish :: finish_in
  e_abort :: link
  e_now :: int

definition short_message :: "fw_session \<Rightarrow> string" where
  "short_message s = take 71 (''Only '' @ dec (unat (s_received s)) @ '' of '' @ dec (unat (s_size s)) @ '' bytes arrived'')"

definition fw_update_end :: "(bytes \<Rightarrow> bytes) \<Rightarrow> end_in \<Rightarrow> body \<Rightarrow> (fw_refusal + bool) \<times> body" where
  "fw_update_end sha256 i b =
    (let s = ses b; t = s_target s in
     if \<not> s_open s then (Inl (Fw_INVALID_STATE, ''NO_SESSION'', ''No update session is open''), b)
     else if s_received s < s_size s then
       (Inl (Fw_INVALID_SIZE, ''SHORT_IMAGE'', short_message s), drop_session (e_abort i) (fw_set_error t (short_message s) b))
     else if sha256 (s_sha s) \<noteq> s_want s then
       (Inl (Fw_INVALID_CRC, ''CHECKSUM_FAILED'', ''SHA-256 of the received image does not match''),
        drop_session (e_abort i) (fw_set_error t ''SHA-256 of the received image does not match'' b))
     else if t = FW_T_P4 then
       (let b1 = close_session (set_target t (\<lambda>x. x\<lparr>t_state := Verifying\<rparr>) b);
            bad = (if ended (p4_finish i) = Fw_OTA_VALIDATE_FAILED then ''Image failed validation'' else ''Could not finish the OTA write'') in
        if ended (p4_finish i) \<noteq> Fw_OK then
          (Inl (ended (p4_finish i), if ended (p4_finish i) = Fw_OTA_VALIDATE_FAILED then ''CHECKSUM_FAILED'' else ''FLASH_WRITE'', bad),
           fw_set_error t bad b1)
        else if selected (p4_finish i) \<noteq> Fw_OK then
          (Inl (selected (p4_finish i), ''FLASH_WRITE'', ''Could not select the new slot''), fw_set_error t ''Could not select the new slot'' b1)
        else (let b2 = set_target t (\<lambda>x. x\<lparr>t_state := Rebooting\<rparr>) b1
              in (Inr True, b2\<lparr>p4_events := p4_events b2 @ [Boots (s_part s)],
                    ses := (ses b2)\<lparr>s_restart_us := (if restart_timer i then Some (e_now i + FW_P4_RESTART_DELAY_US) else None)\<rparr>\<rparr>)))
     else
       (case camlink_fw_end_ch sha256 (e_link i) (node_finish i) (nodes b ! (t - 1)) of
          ((err, code), n1) \<Rightarrow>
            (let b1 = close_session (set_target t (\<lambda>x. x\<lparr>t_state := Verifying\<rparr>) (b\<lparr>nodes := (nodes b)[t - 1 := n1]\<rparr>)) in
             if err \<noteq> Fw_OK then
               (Inl (err, if code \<noteq> [] then ''CHECKSUM_FAILED'' else ''CAM_UNREACHABLE'',
                     if code \<noteq> [] then ''The camera node rejected the image'' else ''The camera node did not answer''),
                fw_set_error t (if code \<noteq> [] then code else ''The camera node did not confirm the image'') b1)
             else (Inr True, set_target t (\<lambda>x. x\<lparr>t_state := Rebooting, end_us := e_now i\<rparr>) b1))))"

definition fw_update_abort :: "link \<Rightarrow> body \<Rightarrow> body" where
  "fw_update_abort l b =
    (if s_open (ses b) then drop_session l (set_target (s_target (ses b)) (\<lambda>x. x\<lparr>t_state := Idle\<rparr>) b) else b)"

definition fw_update_busy :: "body \<Rightarrow> bool" where
  "fw_update_busy b = s_open (ses b)"

definition fw_update_poll :: "link \<Rightarrow> int \<Rightarrow> body \<Rightarrow> body" where
  "fw_update_poll l now b =
    (if \<not> s_open (ses b) then b
     else if pure_fw_session_idle (s_open (ses b)) (s_last_us (ses b)) now
       then fw_set_error (s_target (ses b)) ''No data for 60 s. Update abandoned'' (drop_session l b)
     else b)"

definition fw_update_progress :: "body \<Rightarrow> (nat \<times> nat) option" where
  "fw_update_progress b =
    (if \<not> s_open (ses b) then None
     else Some (s_target (ses b), pure_fw_percent (s_received (ses b)) (s_size (ses b))))"

text \<open>
  Looking for a node that restarts: whether the scheduler lets the question through, and the version it answers with, if it answers.
  Cycling the bank takes the power from all four nodes.
\<close>

record watch_in =
  w_maint :: bool
  w_granted :: bool
  hello :: "string option"
  w_now :: int

definition watch_node :: "watch_in \<Rightarrow> nat \<Rightarrow> body \<Rightarrow> body" where
  "watch_node i t b =
    (let tt = targets b ! t; elapsed_ms = (w_now i - end_us tt) sdiv 1000 in
     if t_state tt \<noteq> Rebooting then b
     else if elapsed_ms < 3000 then b
     else if \<not> w_maint i \<and> \<not> w_granted i then b
     else case hello i of
       Some firmware \<Rightarrow>
         if pending_version tt = [] \<or> firmware = pending_version tt then set_target t (\<lambda>x. x\<lparr>t_state := Ready\<rparr>) b
         else if elapsed_ms > FW_NODE_BACK_MS
           then fw_set_error t (NAMES ! t @ '' came back on '' @ firmware @ '', not '' @ pending_version tt) b
         else b
     | None \<Rightarrow>
         if elapsed_ms > FW_NODE_BACK_MS \<and> \<not> bank_cycled tt
           then (set_target t (\<lambda>x. x\<lparr>bank_cycled := True\<rparr>) b)\<lparr>nodes := map node_restart (nodes b)\<rparr>
         else if elapsed_ms > FW_NODE_GIVEUP_MS then fw_set_error t ''The camera node did not come back after the update'' b
         else b)"

definition fw_update_state :: "watch_in \<Rightarrow> nat \<Rightarrow> body \<Rightarrow> fw_state \<times> body" where
  "fw_update_state i t b =
    (if t \<ge> FW_T_COUNT then (Idle, b)
     else (let b1 = (if t \<noteq> FW_T_P4 then watch_node i t b else b) in (t_state (targets b1 ! t), b1)))"

definition fw_update_error :: "nat \<Rightarrow> body \<Rightarrow> string" where
  "fw_update_error t b =
    (if t \<ge> FW_T_COUNT then [] else if t_state (targets b ! t) = Error then t_error (targets b ! t) else [])"

text \<open>Whether the running image is still on trial, and the answer to confirming it.\<close>

definition fw_update_mark_healthy :: "bool option \<Rightarrow> bool" where
  "fw_update_mark_healthy pending_verify = (pending_verify = Some True)"

end
