(* ===== verification/Fw_Pair.thy ===== *)
theory Fw_Pair
  imports Fw_Update
begin

text \<open>
  Body and nodes together: every order in which the host's commands, the link's failures, restarts and power cuts may come. A step of the body
  is, for each node, a run of the node's own steps, so what a node promises as a receiver of images holds of a node behind
  the body; and while a session for a node is open at both ends, both ends hold the same bytes.
\<close>

section \<open>Steps\<close>

datatype body_step =
  Do_Begin begin_in nat u32 "string option" "string option"
  | Do_Chunk chunk_in u32 u32 bytes
  | Do_End end_in
  | Do_Abort link
  | Do_Poll link int
  | Do_Status watch_in nat
  | Node_Holds nat bool
  | Node_Resets nat
  | Body_Restarts

text \<open>A chunk of the host comes in one frame of at most 16 KB, eight bytes of which are its header.\<close>

definition HOST_DATA_MAX :: nat where "HOST_DATA_MAX = 16384 - 8"

definition at_node :: "nat \<Rightarrow> (node_fw \<Rightarrow> node_fw) \<Rightarrow> body \<Rightarrow> body" where
  "at_node c f b = b\<lparr>nodes := (nodes b)[c := f (nodes b ! c)]\<rparr>"

fun body_do :: "(bytes \<Rightarrow> bytes) \<Rightarrow> body_step \<Rightarrow> body \<Rightarrow> body" where
  "body_do sha256 (Do_Begin i t count sha v) b = snd (fw_update_begin i t count sha v b)"
| "body_do sha256 (Do_Chunk i sid offset data) b =
    (if length data \<le> HOST_DATA_MAX then snd (fw_update_chunk i sid offset data b) else b)"
| "body_do sha256 (Do_End i) b = snd (fw_update_end sha256 i b)"
| "body_do sha256 (Do_Abort l) b = fw_update_abort l b"
| "body_do sha256 (Do_Poll l now) b = fw_update_poll l now b"
| "body_do sha256 (Do_Status i t) b = snd (fw_update_state i t b)"
| "body_do sha256 (Node_Holds c held) b = at_node c (node_do sha256 (Node_Frame held)) b"
| "body_do sha256 (Node_Resets c) b = at_node c (node_do sha256 Node_Restart) b"
| "body_do sha256 Body_Restarts b = body_boot\<lparr>p4_events := p4_events b, nodes := nodes b\<rparr>"

section \<open>A node behind the body\<close>

fun calm :: "node_step \<Rightarrow> bool" where
  "calm (Node_End i) = False"
| "calm st = True"

text \<open>From one state of a node its steps lead to another; if so asked, without an end of a session.\<close>

definition ran :: "bool \<Rightarrow> (bytes \<Rightarrow> bytes) \<Rightarrow> node_fw \<Rightarrow> node_fw \<Rightarrow> bool" where
  "ran q sha256 n n1 \<longleftrightarrow> (\<exists>sts. (q \<longrightarrow> list_all calm sts) \<and> n1 = fold (node_do sha256) sts n)"

lemma ran_refl [simp]: "ran q sha256 n n"
  unfolding ran_def by (rule exI [of _ "[]"]) simp

lemma ran_step: "(q \<Longrightarrow> calm st) \<Longrightarrow> ran q sha256 n (node_do sha256 st n)"
  unfolding ran_def by (rule exI [of _ "[st]"]) simp

lemma ran_trans: "ran q sha256 n n1 \<Longrightarrow> ran q sha256 n1 n2 \<Longrightarrow> ran q sha256 n n2"
  unfolding ran_def by (metis fold_append list_all_append o_apply)

lemma ran_sound: "ran q sha256 n n1 \<Longrightarrow> node_sound n \<Longrightarrow> node_sound n1"
  unfolding ran_def using node_receiver.run_sound by blast

lemma request_ran: "(q \<Longrightarrow> calm st) \<Longrightarrow> snd (h n) = node_do sha256 st n \<Longrightarrow> ran q sha256 n (snd (request l h n))"
  using ran_step [of q st sha256 n] by (auto simp: request_def split: link.split prod.split node_reply.split)

lemma begin_ran: "ran q sha256 n (snd (camlink_fw_begin_ch l parses i count hex n))"
  unfolding camlink_fw_begin_ch_def
  by (rule request_ran [where st = "Node_Begin i (if parses then (Some (uint count), Some hex) else (None, None))"]) simp_all

lemma piece_ran: "ran q sha256 n (snd (camlink_fw_chunk_ch l w offset data n))"
proof (cases "data = [] \<or> length data > NL_FW_CHUNK_MAX")
  case False
  then have "length (chunk_payload offset data) \<le> LINK_DECODE_PAYLOAD_MAX"
    by (simp add: chunk_payload_def LINK_DECODE_PAYLOAD_MAX_def)
  then have "ran q sha256 n (snd (request l (handle_fw_chunk w (chunk_payload offset data)) n))"
    by (intro request_ran [where st = "Node_Chunk w (chunk_payload offset data)"]) simp_all
  then show ?thesis using False by (auto simp: camlink_fw_chunk_ch_def)
qed (simp add: camlink_fw_chunk_ch_def)

lemma pieces_ran: "ran q sha256 n (snd (send_pieces i offset data at n))"
proof (induction i offset data at n rule: send_pieces.induct)
  case (1 i offset data at n)
  let ?r = "camlink_fw_chunk_ch (c_links i (at div NL_FW_CHUNK_MAX)) (c_written i (at div NL_FW_CHUNK_MAX))
    (offset + of_nat at) (take NL_FW_CHUNK_MAX (drop at data)) n"
  have r: "ran q sha256 n (snd ?r)" by (rule piece_ran)
  obtain err code n1 where e: "?r = ((err, code), n1)" by (metis surj_pair)
  show ?case
  proof (cases "at \<ge> length data")
    case False
    have "err = Fw_OK \<Longrightarrow> ran q sha256 n1 (snd (send_pieces i offset data (at + NL_FW_CHUNK_MAX) n1))"
      using 1 [OF False refl refl e [symmetric] refl] by simp
    then show ?thesis
      using False r e ran_trans by (subst send_pieces.simps) (auto simp: Let_def)
  qed (simp add: send_pieces.simps)
qed

lemma end_ran: "ran False sha256 n (snd (camlink_fw_end_ch sha256 l i n))"
  unfolding camlink_fw_end_ch_def by (rule request_ran [where st = "Node_End i"]) simp_all

lemma abort_ran: "ran q sha256 n (camlink_fw_abort_ch l n)"
  unfolding camlink_fw_abort_ch_def by (rule request_ran [where st = Node_Abort]) simp_all

lemma restart_ran: "ran q sha256 n (node_restart n)"
  using ran_step [of q Node_Restart sha256 n] by simp

lemmas node_ran = begin_ran pieces_ran end_ran abort_ran restart_ran

text \<open>Every node of a body has run on from where it was.\<close>

definition all_ran :: "bool \<Rightarrow> (bytes \<Rightarrow> bytes) \<Rightarrow> body \<Rightarrow> body \<Rightarrow> bool" where
  "all_ran q sha256 b b1 \<longleftrightarrow> list_all2 (ran q sha256) (nodes b) (nodes b1)"

lemma all_ran_same: "nodes b1 = nodes b \<Longrightarrow> all_ran q sha256 b b1"
  by (simp add: all_ran_def list_all2_refl)

lemma all_ran_update:
  "ran q sha256 (nodes b ! c) n1 \<Longrightarrow> nodes b1 = (nodes b)[c := n1] \<Longrightarrow> all_ran q sha256 b b1"
  by (cases "c < length (nodes b)") (simp_all add: all_ran_def list_all2_conv_all_nth nth_list_update)

lemma all_ran_trans: "all_ran q sha256 b b1 \<Longrightarrow> all_ran q sha256 b1 b2 \<Longrightarrow> all_ran q sha256 b b2"
  unfolding all_ran_def by (rule list_all2_trans [where ?P2.0 = "ran q sha256"]) (rule ran_trans)

lemma nodes_same [simp]:
  "nodes (set_target t f b) = nodes b" "nodes (fw_set_error t m b) = nodes b" "nodes (close_session b) = nodes b"
  "nodes (open_session t count want v now part b) = nodes b" "nodes (take_chunk data now b) = nodes b"
  by (simp_all add: set_target_def fw_set_error_def close_session_def open_session_def take_chunk_def Let_def)

lemma drop_nodes:
  "nodes (drop_session l b) =
    (if s_open (ses b) \<and> s_target (ses b) \<noteq> FW_T_P4
     then (nodes b)[s_target (ses b) - 1 := camlink_fw_abort_ch l (nodes b ! (s_target (ses b) - 1))] else nodes b)"
  by (simp add: drop_session_def Let_def)

lemma drop_all_ran: "all_ran q sha256 b (drop_session l b)"
proof (cases "s_open (ses b) \<and> s_target (ses b) \<noteq> FW_T_P4")
  case True
  then show ?thesis by (intro all_ran_update [OF abort_ran]) (simp add: drop_nodes)
next
  case False
  then show ?thesis by (intro all_ran_same) (auto simp: drop_nodes)
qed

lemma all_ran_drop [intro]: "all_ran q sha256 b b1 \<Longrightarrow> all_ran q sha256 b (drop_session l b1)"
  using all_ran_trans drop_all_ran by blast

lemma all_ran_simps [simp]:
  "all_ran q sha256 b b"
  "all_ran q sha256 b (set_target t f b1) = all_ran q sha256 b b1" "all_ran q sha256 b (fw_set_error t m b1) = all_ran q sha256 b b1"
  "all_ran q sha256 b (close_session b1) = all_ran q sha256 b b1" "all_ran q sha256 b (take_chunk data now b1) = all_ran q sha256 b b1"
  "all_ran q sha256 b (open_session t count want v now part b1) = all_ran q sha256 b b1"
  "all_ran q sha256 b (b1\<lparr>p4_events := es\<rparr>) = all_ran q sha256 b b1" "all_ran q sha256 b (b1\<lparr>p4_events := es, ses := se\<rparr>) = all_ran q sha256 b b1"
  "all_ran q sha256 b (b1\<lparr>ses := se\<rparr>) = all_ran q sha256 b b1"
  by (simp_all add: all_ran_def list_all2_refl)

lemma all_ran_put: "ran q sha256 (nodes b ! c) n1 \<Longrightarrow> all_ran q sha256 b (b\<lparr>nodes := (nodes b)[c := n1]\<rparr>)"
  by (rule all_ran_update) simp_all

lemma ran_result: "f = ((err, code), n1) \<Longrightarrow> ran q sha256 n (snd f) \<Longrightarrow> ran q sha256 n n1"
  by simp

lemmas put_result =
  all_ran_put [OF ran_result [OF _ begin_ran]] all_ran_put [OF ran_result [OF _ pieces_ran]] all_ran_put [OF ran_result [OF _ end_ran]]

lemma begin_all_ran: "all_ran q sha256 b (snd (fw_update_begin i t count hex v b))"
  unfolding fw_update_begin_def Let_def by (auto split: option.split prod.split intro: put_result)

lemma chunk_all_ran: "all_ran q sha256 b (snd (fw_update_chunk i sid offset data b))"
  unfolding fw_update_chunk_def Let_def by (auto split: prod.split intro: put_result intro!: all_ran_drop)

lemma end_all_ran: "all_ran False sha256 b (snd (fw_update_end sha256 i b))"
  unfolding fw_update_end_def Let_def by (auto split: prod.split intro: put_result intro!: all_ran_drop)

lemma watch_all_ran: "all_ran q sha256 b (watch_node i t b)"
proof -
  have "all_ran q sha256 b (b1\<lparr>nodes := map node_restart (nodes b)\<rparr>)" for b1
    by (simp add: all_ran_def list_all2_conv_all_nth restart_ran)
  then show ?thesis by (simp add: watch_node_def Let_def split: option.split)
qed

lemma body_all_ran: "(q \<Longrightarrow> \<forall>i. st \<noteq> Do_End i) \<Longrightarrow> all_ran q sha256 b (body_do sha256 st b)"
proof (cases st)
  case (Node_Holds c held)
  then show ?thesis using all_ran_put [OF ran_step [of q "Node_Frame held" sha256 "nodes b ! c"]] by (simp add: at_node_def)
next
  case (Node_Resets c)
  then show ?thesis using all_ran_put [OF restart_ran] by (simp add: at_node_def)
next
  case Body_Restarts
  then show ?thesis by (simp add: all_ran_def list_all2_refl)
next
  case (Do_End i)
  assume "q \<Longrightarrow> \<forall>i. st \<noteq> Do_End i"
  then have "\<not> q" using Do_End by blast
  then show ?thesis using end_all_ran Do_End by simp
qed (auto simp: begin_all_ran chunk_all_ran watch_all_ran fw_update_abort_def fw_update_poll_def fw_update_state_def Let_def)

section \<open>Both ends of a session\<close>

definition session_sound :: "body \<Rightarrow> bool" where
  "session_sound b \<longleftrightarrow> (s_open (ses b) \<longrightarrow>
     s_target (ses b) < FW_T_COUNT \<and> unat (s_received (ses b)) = length (s_sha (ses b)) \<and> s_received (ses b) \<le> s_size (ses b) \<and>
     unat (s_size (ses b)) \<le> 4194304)"

text \<open>The body's own image: what was hashed is what was written.\<close>

definition p4_sound :: "body \<Rightarrow> bool" where
  "p4_sound b \<longleftrightarrow> (s_open (ses b) \<and> s_target (ses b) = FW_T_P4 \<longrightarrow>
     session_of (p4_events b) = Some (s_part (ses b), s_size (ses b), s_want (ses b), s_sha (ses b)))"

text \<open>A node's image: if the node has a session open too, it is the same one with the same bytes.\<close>

definition same_session :: "fw_session \<Rightarrow> node_fw \<Rightarrow> bool" where
  "same_session s n \<longleftrightarrow> (n_open n \<longrightarrow> n_size n = s_size s \<and> n_want n = s_want s \<and> n_sha n = s_sha s)"

definition pair_sound :: "body \<Rightarrow> bool" where
  "pair_sound b \<longleftrightarrow> (s_open (ses b) \<and> s_target (ses b) \<noteq> FW_T_P4 \<longrightarrow> same_session (ses b) (nodes b ! (s_target (ses b) - 1)))"

definition body_sound :: "body \<Rightarrow> bool" where
  "body_sound b \<longleftrightarrow> length (nodes b) = 4 \<and> length (targets b) = FW_T_COUNT \<and> list_all node_sound (nodes b) \<and>
     session_sound b \<and> p4_sound b \<and> pair_sound b"

lemma body_sound_boot: "body_sound body_boot"
  by (simp add: body_sound_def body_boot_def session_sound_def p4_sound_def pair_sound_def list_all_length node_sound_boot)

lemma all_ran_nodes: "all_ran q sha256 b b1 \<Longrightarrow> length (nodes b) = 4 \<Longrightarrow> list_all node_sound (nodes b) \<Longrightarrow>
    length (nodes b1) = 4 \<and> list_all node_sound (nodes b1)"
  by (auto simp: all_ran_def list_all2_conv_all_nth list_all_length intro: ran_sound)

lemma ses_same [simp]:
  "ses (set_target t f b) = ses b" "ses (fw_set_error t m b) = ses b"
  "s_open (ses (close_session b)) = False" "s_open (ses (drop_session l b)) = False"
  by (simp_all add: set_target_def fw_set_error_def close_session_def drop_session_def Let_def)

lemma p4_events_same [simp]:
  "p4_events (set_target t f b) = p4_events b" "p4_events (fw_set_error t m b) = p4_events b"
  "p4_events (close_session b) = p4_events b" "p4_events (take_chunk data now b) = p4_events b"
  "p4_events (open_session t count want v now part b) = p4_events b"
  by (simp_all add: set_target_def fw_set_error_def close_session_def take_chunk_def open_session_def Let_def)

lemma targets_length [simp]:
  "length (targets (set_target t f b)) = length (targets b)" "length (targets (fw_set_error t m b)) = length (targets b)"
  "length (targets (close_session b)) = length (targets b)" "length (targets (drop_session l b)) = length (targets b)"
  "length (targets (take_chunk data now b)) = length (targets b)"
  "length (targets (open_session t count want v now part b)) = length (targets b)"
  by (simp_all add: set_target_def fw_set_error_def close_session_def take_chunk_def open_session_def drop_session_def Let_def)

definition ends_sound :: "body \<Rightarrow> bool" where
  "ends_sound b \<longleftrightarrow> session_sound b \<and> p4_sound b \<and> pair_sound b"

lemma ends_sound_closed: "\<not> s_open (ses b) \<Longrightarrow> ends_sound b"
  by (simp add: ends_sound_def session_sound_def p4_sound_def pair_sound_def)

lemma body_sound_alt:
  "body_sound b \<longleftrightarrow> length (nodes b) = 4 \<and> length (targets b) = FW_T_COUNT \<and> list_all node_sound (nodes b) \<and> ends_sound b"
  by (auto simp: body_sound_def ends_sound_def)

lemma request_ok:
  "request l h n = ((Fw_OK, code), n1) \<Longrightarrow> \<exists>r. h n = (r, n1) \<and> (\<forall>c m. r \<noteq> Nack c m)"
  by (auto simp: request_def split: link.splits prod.splits node_reply.splits)

lemma node_begin_ok:
  assumes "camlink_fw_begin_ch l parses i count hex n = ((Fw_OK, code), n1)" "hex_to_bytes (Some hex) 32 = Some want"
  shows "n_open n1 \<and> n_size n1 = count \<and> n_want n1 = want \<and> n_sha n1 = []"
proof -
  obtain r where "handle_fw_begin i (if parses then (Some (uint count), Some hex) else (None, None)) n = (r, n1)" "\<forall>c m. r \<noteq> Nack c m"
    using request_ok assms(1) unfolding camlink_fw_begin_ch_def by blast
  then show ?thesis
    using assms(2) by (auto simp: handle_fw_begin_def Let_def fw_hex32_def split: if_splits option.splits prod.splits)
qed

lemma piece_ok:
  assumes "camlink_fw_chunk_ch l w offset data n = ((Fw_OK, code), n1)"
  shows "n_open n \<and> n1 = n\<lparr>n_sha := n_sha n @ data, n_received := n_received n + of_nat (length data), n_events := n_events n @ [Writes data]\<rparr>"
proof -
  obtain r where "handle_fw_chunk w (chunk_payload offset data) n = (r, n1)" "\<forall>c m. r \<noteq> Nack c m"
    using assms unfolding camlink_fw_chunk_ch_def by (auto split: if_splits dest!: request_ok)
  then show ?thesis by (auto simp: handle_fw_chunk_def Let_def chunk_payload_def split: if_splits)
qed

lemma pieces_ok:
  "send_pieces i offset data at n = ((Fw_OK, code), n1) \<Longrightarrow>
    n_open n1 = n_open n \<and> n_size n1 = n_size n \<and> n_want n1 = n_want n \<and> n_part n1 = n_part n \<and> n_sha n1 = n_sha n @ drop at data"
proof (induction i offset data at n arbitrary: code n1 rule: send_pieces.induct)
  case (1 i offset data at n)
  let ?r = "camlink_fw_chunk_ch (c_links i (at div NL_FW_CHUNK_MAX)) (c_written i (at div NL_FW_CHUNK_MAX))
    (offset + of_nat at) (take NL_FW_CHUNK_MAX (drop at data)) n"
  obtain err c m where e: "?r = ((err, c), m)" by (metis surj_pair)
  show ?case
  proof (cases "at \<ge> length data")
    case True
    then show ?thesis using "1.prems" by (simp add: send_pieces.simps)
  next
    case False
    then have ok: "err = Fw_OK" "send_pieces i offset data (at + NL_FW_CHUNK_MAX) m = ((Fw_OK, code), n1)"
      using "1.prems" e by (auto simp: send_pieces.simps [of i offset data at] Let_def split: if_splits)
    have "drop at data = take NL_FW_CHUNK_MAX (drop at data) @ drop (at + NL_FW_CHUNK_MAX) data"
      by (metis append_take_drop_id drop_drop add.commute)
    then show ?thesis
      using "1.IH" [OF False refl refl e [symmetric] refl _ ok(2)] piece_ok [of _ _ _ _ n c m] e ok(1) by fastforce
  qed
qed

lemma ends_sound_nodes:
  assumes "ends_sound b" "ses b1 = ses b" "p4_events b1 = p4_events b"
    and "\<And>c. c < length (nodes b) \<Longrightarrow> same_session (ses b) (nodes b ! c) \<Longrightarrow> same_session (ses b) (nodes b1 ! c)"
    and "length (nodes b) = 4"
  shows "ends_sound b1"
proof -
  have "s_target (ses b) - 1 < length (nodes b)" if "s_open (ses b)"
    using that assms(1,5) by (auto simp: ends_sound_def session_sound_def FW_T_COUNT_def)
  then show ?thesis using assms by (simp add: ends_sound_def session_sound_def p4_sound_def pair_sound_def)
qed

lemma opened_sound:
  assumes "t < FW_T_COUNT" "unat count \<le> 4194304"
    and "t = FW_T_P4 \<Longrightarrow> session_of (p4_events b) = Some (part, count, want, [])"
    and "t \<noteq> FW_T_P4 \<Longrightarrow> n_size (nodes b ! (t - 1)) = count \<and> n_want (nodes b ! (t - 1)) = want \<and> n_sha (nodes b ! (t - 1)) = []"
  shows "ends_sound (open_session t count want v now part b)"
  using assms
  by (simp add: ends_sound_def session_sound_def p4_sound_def pair_sound_def open_session_def Let_def set_target_def same_session_def)

lemma begin_ends_sound:
  assumes "body_sound b"
  shows "ends_sound (snd (fw_update_begin i t count hex v b))"
proof (cases "s_open (ses b)")
  case True
  then have "snd (fw_update_begin i t count hex v b) = b" by (simp add: fw_update_begin_def split: option.split)
  then show ?thesis using assms by (simp add: body_sound_alt)
next
  case False
  obtain err code n1 where r: "camlink_fw_begin_ch (b_link i) (b_parses i) (node_slot i) count (the hex) (nodes b ! (t - 1)) = ((err, code), n1)"
    by (metis surj_pair)
  have len: "length (nodes b) = 4" using assms by (simp add: body_sound_def)
  have size: "unat count \<le> 4194304" if "\<not> FW_MAX_IMAGE < count" using that by (simp add: FW_MAX_IMAGE_def not_less word_le_nat_alt)
  have node: "n_size n1 = count \<and> n_want n1 = want \<and> n_sha n1 = []" if "err = Fw_OK" "hex_to_bytes hex 32 = Some want" for want
  proof -
    have "hex_to_bytes (Some (the hex)) 32 = Some want" using that(2) by (cases hex) (auto simp: hex_to_bytes_def)
    then show ?thesis using node_begin_ok r that(1) by blast
  qed
  have t1: "t - 1 < 4" if "t < FW_T_COUNT" using that by (simp add: FW_T_COUNT_def)
  have own: "ends_sound (open_session FW_T_P4 count want v now part (b\<lparr>p4_events := p4_events b @ [Opens part count want]\<rparr>))"
    if "\<not> FW_MAX_IMAGE < count" for want now part
    using size [OF that] by (intro opened_sound) (simp_all add: session_of_append FW_T_P4_def FW_T_COUNT_def)
  have other: "ends_sound (open_session t count want v now part (b\<lparr>nodes := (nodes b)[t - 1 := n1]\<rparr>))"
    if "\<not> FW_MAX_IMAGE < count" "err = Fw_OK" "hex_to_bytes hex 32 = Some want" "t \<noteq> FW_T_P4" "\<not> t \<ge> FW_T_COUNT" for want now part
    using size [OF that(1)] node [OF that(2,3)] that(4,5) t1 len by (intro opened_sound) simp_all
  show ?thesis
    unfolding fw_update_begin_def Let_def r prod.case
    using False own other by (auto simp: ends_sound_closed split: option.split prod.split)
qed

lemma taken_sound:
  assumes "session_sound b" "s_open (ses b)" "length data \<le> HOST_DATA_MAX" "s_received (ses b) + of_nat (length data) \<le> s_size (ses b)"
    and "s_target (ses b) = FW_T_P4 \<Longrightarrow> session_of (p4_events b) = Some (s_part (ses b), s_size (ses b), s_want (ses b), s_sha (ses b) @ data)"
    and "s_target (ses b) \<noteq> FW_T_P4 \<Longrightarrow> same_session ((ses b)\<lparr>s_sha := s_sha (ses b) @ data\<rparr>) (nodes b ! (s_target (ses b) - 1))"
  shows "ends_sound (take_chunk data now b)"
proof -
  have "unat (s_received (ses b) + of_nat (length data)) = unat (s_received (ses b)) + length data"
    using assms by (intro chunk_within [of "s_size (ses b)"]) (simp_all add: session_sound_def HOST_DATA_MAX_def)
  then show ?thesis
    using assms by (simp add: ends_sound_def session_sound_def p4_sound_def pair_sound_def take_chunk_def same_session_def)
qed

lemma chunk_ends_sound:
  assumes "body_sound b" "length data \<le> HOST_DATA_MAX"
  shows "ends_sound (snd (fw_update_chunk i sid offset data b))"
proof -
  let ?s = "ses b" and ?c = "s_target (ses b) - 1"
  obtain err code n1 where r: "send_pieces i offset data 0 (nodes b ! ?c) = ((err, code), n1)" by (metis surj_pair)
  have b: "session_sound b" "p4_sound b" "pair_sound b" "length (nodes b) = 4" "ends_sound b" using assms(1) by (auto simp: body_sound_def ends_sound_def)
  have p4: "ends_sound (take_chunk data now (b\<lparr>p4_events := p4_events b @ [Writes data]\<rparr>))"
    if "s_open ?s" "s_target ?s = FW_T_P4" "s_received ?s + of_nat (length data) \<le> s_size ?s" for now
    using that b assms(2) by (intro taken_sound) (simp_all add: session_sound_def p4_sound_def session_of_append)
  have node: "ends_sound (take_chunk data now (b\<lparr>nodes := (nodes b)[?c := n1]\<rparr>))"
    if "s_open ?s" "s_target ?s \<noteq> FW_T_P4" "err = Fw_OK" "s_received ?s + of_nat (length data) \<le> s_size ?s" for now
  proof -
    have "?c < length (nodes b)" using that(1) b by (auto simp: session_sound_def FW_T_COUNT_def)
    then show ?thesis
      using that b assms(2) pieces_ok [of i offset data 0 "nodes b ! ?c" code n1] r
      by (intro taken_sound) (auto simp: session_sound_def pair_sound_def same_session_def)
  qed
  show ?thesis
    unfolding fw_update_chunk_def Let_def r prod.case
    using b(5) p4 node by (auto simp: not_less intro: ends_sound_closed)
qed

lemma end_closed: "\<not> s_open (ses (snd (fw_update_end sha256 i b)))"
  by (simp add: fw_update_end_def Let_def split: prod.split)

lemma watch_ends_sound:
  assumes "ends_sound b" "length (nodes b) = 4"
  shows "ends_sound (watch_node i t b)"
proof -
  have "ses (watch_node i t b) = ses b" "p4_events (watch_node i t b) = p4_events b"
    by (simp_all add: watch_node_def Let_def split: option.split)
  moreover have "nodes (watch_node i t b) = nodes b \<or> nodes (watch_node i t b) = map node_restart (nodes b)"
    by (simp add: watch_node_def Let_def split: option.split)
  ultimately show ?thesis
    using assms by (intro ends_sound_nodes [OF assms(1)]) (auto simp: same_session_def node_restart_def node_boot_def)
qed

lemma at_node_ends_sound:
  assumes "ends_sound b" "length (nodes b) = 4" "\<And>n. n_open (f n) \<Longrightarrow> n_open n \<and> n_size (f n) = n_size n \<and> n_want (f n) = n_want n \<and> n_sha (f n) = n_sha n"
  shows "ends_sound (at_node c f b)"
proof (rule ends_sound_nodes [OF assms(1)])
  fix k assume k: "k < length (nodes b)" "same_session (ses b) (nodes b ! k)"
  then show "same_session (ses b) (nodes (at_node c f b) ! k)"
    using assms(3) [of "nodes b ! k"] by (cases "k = c") (auto simp: at_node_def same_session_def)
qed (simp_all add: at_node_def assms(2))

lemma body_ends_sound:
  assumes "body_sound b"
  shows "ends_sound (body_do sha256 st b)"
proof -
  have b: "ends_sound b" "length (nodes b) = 4" using assms by (simp_all add: body_sound_alt)
  show ?thesis
  proof (cases st)
    case (Do_Chunk i sid offset data)
    then show ?thesis using chunk_ends_sound [OF assms] b by simp
  next
    case (Node_Holds c held)
    then show ?thesis using at_node_ends_sound [OF b, of "node_do sha256 (Node_Frame held)"] by simp
  next
    case (Node_Resets c)
    then show ?thesis using at_node_ends_sound [OF b, of "node_do sha256 Node_Restart"] by (simp add: node_restart_def node_boot_def)
  next
    case Body_Restarts
    then show ?thesis by (intro ends_sound_closed) (simp add: body_boot_def)
  qed (use b in \<open>auto simp: begin_ends_sound [OF assms] watch_ends_sound ends_sound_closed end_closed fw_update_abort_def
      fw_update_poll_def fw_update_state_def Let_def\<close>)
qed

lemma begin_targets: "length (targets (snd (fw_update_begin i t count hex v b))) = length (targets b)"
  by (simp add: fw_update_begin_def Let_def split: option.split prod.split)

lemma chunk_targets: "length (targets (snd (fw_update_chunk i sid offset data b))) = length (targets b)"
  by (simp add: fw_update_chunk_def Let_def split: prod.split)

lemma end_targets: "length (targets (snd (fw_update_end sha256 i b))) = length (targets b)"
  by (simp add: fw_update_end_def Let_def split: prod.split)

lemma watch_targets: "length (targets (watch_node i t b)) = length (targets b)"
  by (simp add: watch_node_def Let_def split: option.split)

lemma body_targets: "length (targets b) = FW_T_COUNT \<Longrightarrow> length (targets (body_do sha256 st b)) = FW_T_COUNT"
  by (cases st) (auto simp: begin_targets chunk_targets end_targets watch_targets at_node_def body_boot_def fw_update_abort_def
      fw_update_poll_def fw_update_state_def Let_def)

lemma body_step_sound: "body_sound b \<Longrightarrow> body_sound (body_do sha256 st b)"
  using all_ran_nodes [OF body_all_ran [of False st sha256 b]] body_ends_sound body_targets unfolding body_sound_alt [of b] body_sound_alt [of "body_do sha256 st b"]
  by (metis body_sound_alt)

section \<open>What the body boots\<close>

definition grows :: "(bytes \<Rightarrow> bytes) \<Rightarrow> body \<Rightarrow> body \<Rightarrow> bool" where
  "grows sha256 b b1 \<longleftrightarrow> (\<exists>es. p4_events b1 = p4_events b @ es \<and> boots_from sha256 (session_of (p4_events b)) es)"

lemma grows_same: "p4_events b1 = p4_events b \<Longrightarrow> grows sha256 b b1"
  unfolding grows_def by (rule exI [of _ "[]"]) simp

lemma grows_one: "p4_events b1 = p4_events b @ [e] \<Longrightarrow> boots_from sha256 (session_of (p4_events b)) [e] \<Longrightarrow> grows sha256 b b1"
  unfolding grows_def by (rule exI [of _ "[e]"]) simp

lemma grows_drop: "p4_events b1 = p4_events b \<Longrightarrow> grows sha256 b (drop_session l b1)"
  by (auto simp: drop_session_def Let_def intro: grows_same grows_one [of _ _ Drops])

lemma begin_grows: "grows sha256 b (snd (fw_update_begin i t count hex v b))"
proof -
  have own: "grows sha256 b (open_session t count want v now part (b\<lparr>p4_events := p4_events b @ [Opens part count want]\<rparr>))" for t want now part
    by (rule grows_one [of _ _ "Opens part count want"]) simp_all
  show ?thesis unfolding fw_update_begin_def Let_def by (simp add: own grows_same split: option.split prod.split)
qed

lemma chunk_grows: "grows sha256 b (snd (fw_update_chunk i sid offset data b))"
proof -
  have own: "grows sha256 b (take_chunk data now (b\<lparr>p4_events := p4_events b @ [Writes data]\<rparr>))" for now
    by (rule grows_one [of _ _ "Writes data"]) simp_all
  show ?thesis unfolding fw_update_chunk_def Let_def by (simp add: own grows_same grows_drop split: prod.split)
qed

lemma end_grows:
  assumes "body_sound b"
  shows "grows sha256 b (snd (fw_update_end sha256 i b))"
proof (cases "s_open (ses b) \<and> \<not> s_received (ses b) < s_size (ses b) \<and> sha256 (s_sha (ses b)) = s_want (ses b)")
  case True
  then have a: "s_target (ses b) = FW_T_P4 \<Longrightarrow> announced_image sha256 (s_part (ses b)) (session_of (p4_events b))"
    using assms by (auto simp: body_sound_def session_sound_def p4_sound_def announced_image_def)
  show ?thesis
  proof (cases "s_target (ses b) = FW_T_P4")
    case own: True
    show ?thesis unfolding fw_update_end_def Let_def using True own a [OF own]
      by (simp add: grows_same) (auto intro: grows_one)
  next
    case False
    show ?thesis unfolding fw_update_end_def Let_def using True False by (simp add: grows_same split: prod.split)
  qed
next
  case False
  then show ?thesis unfolding fw_update_end_def Let_def
    by (cases "s_open (ses b)"; cases "s_received (ses b) < s_size (ses b)") (simp_all add: grows_same grows_drop)
qed

lemma body_grows:
  assumes "body_sound b"
  shows "grows sha256 b (body_do sha256 st b)"
proof (cases st)
  case (Do_Status i t)
  have "p4_events (watch_node i t b) = p4_events b" by (simp add: watch_node_def Let_def split: option.split)
  then show ?thesis using Do_Status by (simp add: fw_update_state_def Let_def grows_same)
next
  case (Do_Poll l now)
  have "grows sha256 b (fw_set_error t m (drop_session l b))" for t m
    using grows_drop [OF refl, of sha256 b l] by (simp add: grows_def)
  then show ?thesis using Do_Poll by (simp add: fw_update_poll_def grows_same)
qed (simp_all add: begin_grows chunk_grows end_grows [OF assms] grows_same grows_drop fw_update_abort_def at_node_def)

interpretation body_receiver: image_receiver "body_do sha256" p4_events sha256 body_sound for sha256
  by unfold_locales (simp_all add: body_step_sound body_grows [unfolded grows_def])

section \<open>What a node boots\<close>

lemma calm_events: "calm st \<Longrightarrow> \<exists>es. n_events (node_do sha256 st n) = n_events n @ es \<and> (\<forall>p. Boots p \<notin> set es)"
  by (cases st) (auto simp: node_handler_defs Let_def split: option.split prod.split)

lemma ran_calm_events: "ran True sha256 n n1 \<Longrightarrow> \<exists>es. n_events n1 = n_events n @ es \<and> (\<forall>p. Boots p \<notin> set es)"
proof -
  assume "ran True sha256 n n1"
  then obtain sts where "list_all calm sts" "n1 = fold (node_do sha256) sts n" by (auto simp: ran_def)
  then show ?thesis
  proof (induction sts arbitrary: n)
    case (Cons st sts)
    then show ?case using calm_events [of st sha256 n] by fastforce
  qed simp
qed

text \<open>Either a step ends no session at a node, or it is the end of the body's session for it and reaches the node.\<close>

lemma end_reaches:
  "all_ran True sha256 b (snd (fw_update_end sha256 i b)) \<or>
    (s_open (ses b) \<and> s_target (ses b) \<noteq> FW_T_P4 \<and> \<not> s_received (ses b) < s_size (ses b) \<and> sha256 (s_sha (ses b)) = s_want (ses b) \<and>
     nodes (snd (fw_update_end sha256 i b)) =
       (nodes b)[s_target (ses b) - 1 := snd (handle_fw_end sha256 (node_finish i) (nodes b ! (s_target (ses b) - 1)))])"
proof (cases "s_open (ses b) \<and> s_target (ses b) \<noteq> FW_T_P4 \<and> \<not> s_received (ses b) < s_size (ses b) \<and> sha256 (s_sha (ses b)) = s_want (ses b)")
  case True
  let ?n = "nodes b ! (s_target (ses b) - 1)"
  obtain err code n1 where r: "camlink_fw_end_ch sha256 (e_link i) (node_finish i) ?n = ((err, code), n1)" by (metis surj_pair)
  then have "n1 = ?n \<or> n1 = snd (handle_fw_end sha256 (node_finish i) ?n)"
    by (auto simp: camlink_fw_end_ch_def request_def split: link.splits prod.splits node_reply.splits)
  moreover have "nodes (snd (fw_update_end sha256 i b)) = (nodes b)[s_target (ses b) - 1 := n1]"
    using True r by (simp add: fw_update_end_def Let_def)
  ultimately show ?thesis using True by (auto simp: all_ran_def list_all2_refl)
next
  case False
  then have "all_ran True sha256 b (snd (fw_update_end sha256 i b))"
    unfolding fw_update_end_def Let_def
    by (cases "s_open (ses b)"; cases "s_received (ses b) < s_size (ses b)"; cases "sha256 (s_sha (ses b)) = s_want (ses b)")
       (auto intro!: all_ran_drop)
  then show ?thesis by blast
qed

lemma handle_end_boots:
  assumes "n_events (snd (handle_fw_end sha256 i n)) = n_events n @ es" "Boots p \<in> set es"
  shows "n_open n \<and> p = n_part n"
  using assms by (auto simp: handle_fw_end_def fw_drop_def node_restart_def Let_def split: if_splits)

lemma nth_all_ran: "all_ran q sha256 b b1 \<Longrightarrow> c < length (nodes b) \<Longrightarrow> ran q sha256 (nodes b ! c) (nodes b1 ! c)"
  by (simp add: all_ran_def list_all2_conv_all_nth)

lemma node_boot_is_an_end:
  assumes "body_sound b" "c < 4" "n_events (nodes (body_do sha256 st b) ! c) = n_events (nodes b ! c) @ es" "Boots p \<in> set es"
  shows "s_open (ses b) \<and> s_target (ses b) = Suc c \<and> n_open (nodes b ! c) \<and> p = n_part (nodes b ! c) \<and>
    \<not> s_received (ses b) < s_size (ses b) \<and> sha256 (s_sha (ses b)) = s_want (ses b)"
proof -
  have len: "length (nodes b) = 4" using assms(1) by (simp add: body_sound_def)
  have loud: "\<not> all_ran True sha256 b (body_do sha256 st b)"
  proof
    assume "all_ran True sha256 b (body_do sha256 st b)"
    from ran_calm_events [OF nth_all_ran [OF this, of c]] show False using assms(2-4) len by auto
  qed
  then obtain i where st: "st = Do_End i" using body_all_ran [of True st sha256 b] by blast
  let ?c = "s_target (ses b) - 1"
  have e: "s_open (ses b)" "s_target (ses b) \<noteq> FW_T_P4" "\<not> s_received (ses b) < s_size (ses b)" "sha256 (s_sha (ses b)) = s_want (ses b)"
    "nodes (body_do sha256 st b) = (nodes b)[?c := snd (handle_fw_end sha256 (node_finish i) (nodes b ! ?c))]"
    using end_reaches [of sha256 b i] loud st by auto
  have "?c = c" using assms(2-4) e(5) len by (cases "?c = c") auto
  then have "n_events (snd (handle_fw_end sha256 (node_finish i) (nodes b ! c))) = n_events (nodes b ! c) @ es"
    using assms(2,3) e(5) len by simp
  from handle_end_boots [OF this assms(4)] show ?thesis using e \<open>?c = c\<close> by (auto simp: FW_T_P4_def)
qed

end
