(* ===== verification/Fw_Transfer.thy ===== *)
theory Fw_Transfer
  imports Fw_Pair
begin

text \<open>
  A firmware update that nothing disturbs arrives and is booted, whatever pieces the image is cut into; a node that restarts afterwards is
  given an answer; and the properties of updates as a whole.
\<close>

section \<open>Undisturbed\<close>

definition fine_chunk :: "int \<Rightarrow> chunk_in" where
  "fine_chunk now = \<lparr>p4_written = Fw_OK, c_links = \<lambda>_. Answered, c_written = \<lambda>_. Fw_OK, c_abort = Answered, c_now = now\<rparr>"

definition fine_end :: "int \<Rightarrow> end_in" where
  "fine_end now = \<lparr>p4_finish = \<lparr>ended = Fw_OK, selected = Fw_OK\<rparr>, restart_timer = True, e_link = Answered,
     node_finish = \<lparr>ended = Fw_OK, selected = Fw_OK\<rparr>, e_abort = Answered, e_now = now\<rparr>"

definition fine_begin :: "slot_in \<Rightarrow> int \<Rightarrow> begin_in" where
  "fine_begin slot now = \<lparr>maint = True, capturing = False, p4_slot = slot, b_link = Answered, b_parses = True, node_slot = slot, b_now = now\<rparr>"

lemma offset_bytes:
  "ucast (ucast v :: u8) OR push_bit 8 (ucast (ucast (drop_bit 8 v) :: u8)) OR push_bit 16 (ucast (ucast (drop_bit 16 v) :: u8)) OR
    push_bit 24 (ucast (ucast (drop_bit 24 v) :: u8)) = v" (is "?joined = v") for v :: u32
proof (rule bit_word_eqI)
  fix n assume n: "n < LENGTH(32)"
  consider "n < 8" | "8 \<le> n" "n < 16" | "16 \<le> n" "n < 24" | "24 \<le> n" "n < 32"
    using n by fastforce
  then show "bit ?joined n = bit v n" by cases (auto simp: bit_simps)
qed

lemma piece_arrives:
  assumes "node_sound n" "n_open n" "n_received n = offset" "data \<noteq> []" "length data \<le> NL_FW_CHUNK_MAX"
    and "unat (n_received n) + length data \<le> unat (n_size n)"
  shows "camlink_fw_chunk_ch Answered Fw_OK offset data n =
    ((Fw_OK, []), n\<lparr>n_sha := n_sha n @ data, n_received := n_received n + of_nat (length data), n_events := n_events n @ [Writes data]\<rparr>)"
proof -
  have "unat (n_received n + of_nat (length data)) = unat (n_received n) + length data"
    using assms unsigned_less [of "n_size n", where 'a = nat]
    by (simp add: unat_word_ariths(1) unat_of_nat take_bit_nat_eq_self)
  then have "\<not> n_received n + of_nat (length data) > n_size n" using assms(6) by (simp add: word_less_nat_alt)
  moreover have "length (chunk_payload offset data) \<ge> 5" using assms(4) by (cases data) (simp_all add: chunk_payload_def)
  ultimately show ?thesis
    using assms(2-5) offset_bytes [of offset]
    by (simp add: camlink_fw_chunk_ch_def request_def handle_fw_chunk_def chunk_payload_def Let_def)
qed

lemma pieces_arrive:
  assumes "\<And>k. c_links i k = Answered" "\<And>k. c_written i k = Fw_OK"
  shows "node_sound n \<Longrightarrow> n_open n \<Longrightarrow> n_received n = offset + of_nat at \<Longrightarrow> at \<le> length data \<Longrightarrow>
    unat (n_received n) + (length data - at) \<le> unat (n_size n) \<Longrightarrow> \<exists>n1. send_pieces i offset data at n = ((Fw_OK, []), n1)"
  using assms
proof (induction i offset data at n rule: send_pieces.induct)
  case (1 i offset data at n)
  show ?case
  proof (cases "at \<ge> length data")
    case True
    then show ?thesis by (simp add: send_pieces.simps)
  next
    case False
    let ?p = "take NL_FW_CHUNK_MAX (drop at data)"
    let ?n1 = "n\<lparr>n_sha := n_sha n @ ?p, n_received := n_received n + of_nat (length ?p), n_events := n_events n @ [Writes ?p]\<rparr>"
    have p: "?p \<noteq> []" "length ?p \<le> NL_FW_CHUNK_MAX" "unat (n_received n) + length ?p \<le> unat (n_size n)"
      using False "1.prems"(5) by (auto simp: NL_FW_CHUNK_MAX_def)
    have r: "camlink_fw_chunk_ch (c_links i (at div NL_FW_CHUNK_MAX)) (c_written i (at div NL_FW_CHUNK_MAX)) (offset + of_nat at) ?p n = ((Fw_OK, []), ?n1)"
      unfolding "1.prems"(6,7) by (rule piece_arrives [OF "1.prems"(1,2,3) p])
    have u: "unat (n_received n + of_nat (length ?p)) = unat (n_received n) + length ?p"
      using p(3) unsigned_less [of "n_size n", where 'a = nat] by (simp add: unat_word_ariths(1) unat_of_nat take_bit_nat_eq_self)
    have s1: "node_sound ?n1" using ran_sound [OF ran_result [OF r piece_ran] "1.prems"(1)] .
    have "send_pieces i offset data at n = send_pieces i offset data (at + NL_FW_CHUNK_MAX) ?n1"
      using False r by (subst send_pieces.simps) (simp add: Let_def)
    moreover have "\<exists>m. send_pieces i offset data (at + NL_FW_CHUNK_MAX) ?n1 = ((Fw_OK, []), m)"
    proof (cases "at + NL_FW_CHUNK_MAX \<ge> length data")
      case True
      then show ?thesis by (simp add: send_pieces.simps)
    next
      case more: False
      then have l: "length ?p = NL_FW_CHUNK_MAX" by simp
      show ?thesis
        using "1.IH" [OF False refl refl r [symmetric] refl _ s1] "1.prems" more l u by simp
    qed
    ultimately show ?thesis by simp
  qed
qed

text \<open>In the middle of an update of a node: both ends have the session, and so much has been sent.\<close>

definition sending :: "(bytes \<Rightarrow> bytes) \<Rightarrow> nat \<Rightarrow> nat \<Rightarrow> u32 \<Rightarrow> bytes \<Rightarrow> bytes \<Rightarrow> body \<Rightarrow> bool" where
  "sending sha256 c part sid img sent b \<longleftrightarrow> body_sound b \<and> c < 4 \<and> s_open (ses b) \<and> s_target (ses b) = Suc c \<and> s_id (ses b) = sid \<and>
     s_size (ses b) = of_nat (length img) \<and> s_want (ses b) = sha256 img \<and> s_sha (ses b) = sent \<and>
     n_open (nodes b ! c) \<and> n_part (nodes b ! c) = part"

lemma sending_node:
  assumes "sending sha256 c part sid img sent b"
  shows "node_sound (nodes b ! c)" "n_size (nodes b ! c) = of_nat (length img)" "n_want (nodes b ! c) = sha256 img" "n_sha (nodes b ! c) = sent"
    "unat (n_received (nodes b ! c)) = length sent" "unat (s_received (ses b)) = length sent"
    "s_received (ses b) = of_nat (length sent)" "n_received (nodes b ! c) = of_nat (length sent)"
proof -
  have b: "body_sound b" "c < 4" "s_open (ses b)" "s_target (ses b) = Suc c" "n_open (nodes b ! c)" "s_sha (ses b) = sent"
    "s_size (ses b) = of_nat (length img)" "s_want (ses b) = sha256 img"
    using assms by (auto simp: sending_def)
  then have n: "node_sound (nodes b ! c)" "same_session (ses b) (nodes b ! c)" "session_sound b"
    by (auto simp: body_sound_def list_all_length pair_sound_def FW_T_P4_def)
  then show "node_sound (nodes b ! c)" "n_size (nodes b ! c) = of_nat (length img)" "n_want (nodes b ! c) = sha256 img" "n_sha (nodes b ! c) = sent"
    using b by (auto simp: same_session_def)
  then show r: "unat (n_received (nodes b ! c)) = length sent" "unat (s_received (ses b)) = length sent"
    using b n by (auto simp: node_sound_def session_sound_def)
  show "s_received (ses b) = of_nat (length sent)" "n_received (nodes b ! c) = of_nat (length sent)"
    using r [THEN arg_cong, where f = "of_nat :: nat \<Rightarrow> u32"] by simp_all
qed

lemma begin_sends:
  assumes "body_sound b" "\<not> s_open (ses b)" "c < 4" "\<not> n_frame_held (nodes b ! c)"
    and "hex_to_bytes (Some hex) 32 = Some (sha256 img)" "img \<noteq> []" "length img \<le> 4194304"
    and "offered slot = Some (part, room)" "length img \<le> unat room" "opened slot = Fw_OK"
  shows "sending sha256 c part (next_id b) img [] (body_do sha256 (Do_Begin (fine_begin slot now) (Suc c) (of_nat (length img)) (Some hex) v) b)"
proof -
  let ?b = "body_do sha256 (Do_Begin (fine_begin slot now) (Suc c) (of_nat (length img)) (Some hex) v) b"
  let ?count = "of_nat (length img) :: u32"
  let ?n1 = "(fw_drop (nodes b ! c))\<lparr>n_open := True, n_part := part, n_size := ?count, n_received := 0, n_want := sha256 img, n_sha := [],
     n_events := n_events (fw_drop (nodes b ! c)) @ [Opens part ?count (sha256 img)]\<rparr>"
  have u: "unat ?count = length img" using assms(7) by (simp add: unat_of_nat take_bit_nat_eq_self)
  have c0: "?count \<noteq> 0" "\<not> ?count > FW_MAX_IMAGE" "\<not> ?count > room" using u assms(6,7,9)
    by (auto simp: FW_MAX_IMAGE_def word_less_nat_alt simp flip: unat_eq_0)
  have i: "uint ?count = int (length img)" using u by (metis uint_nat)
  have h: "handle_fw_begin slot (Some (uint ?count), Some hex) (nodes b ! c) = (Begin_Reply, ?n1)"
    unfolding i using assms(4-10) c0 by (cases img) (auto simp: handle_fw_begin_def NODE_MAX_IMAGE_def fw_hex32_def Let_def fw_drop_def)
  have n: "camlink_fw_begin_ch Answered True slot ?count hex (nodes b ! c) = ((Fw_OK, []), ?n1)"
    by (simp add: camlink_fw_begin_ch_def request_def h)
  have e: "?b = open_session (Suc c) ?count (sha256 img) v now (s_part (ses b)) (b\<lparr>nodes := (nodes b)[c := ?n1]\<rparr>)"
    using assms(2,3,5) c0 n by (simp add: fw_update_begin_def fine_begin_def FW_T_COUNT_def FW_T_P4_def Let_def)
  have len: "length (nodes b) = 4" using assms(1) by (simp add: body_sound_def)
  have "nodes ?b ! c = ?n1" unfolding e using assms(3) len by simp
  moreover have "ses ?b = (ses b)\<lparr>s_open := True, s_target := Suc c, s_id := next_id b, s_size := ?count, s_received := 0, s_last_us := now,
      s_want := sha256 img, s_version := take 23 (case v of None \<Rightarrow> [] | Some v \<Rightarrow> v), s_sha := [], s_part := s_part (ses b)\<rparr>"
    unfolding e by (simp add: open_session_def Let_def)
  moreover have "body_sound ?b" by (rule body_step_sound [OF assms(1)])
  ultimately show ?thesis using assms(3) by (simp add: sending_def del: body_do.simps)
qed

lemma chunk_sends:
  assumes "sending sha256 c part sid img sent b" "data \<noteq> []" "length data \<le> HOST_DATA_MAX"
    and "length sent + length data \<le> length img" "length img \<le> 4194304"
  shows "sending sha256 c part sid img (sent @ data) (body_do sha256 (Do_Chunk (fine_chunk now) sid (of_nat (length sent)) data) b)"
proof -
  let ?b = "body_do sha256 (Do_Chunk (fine_chunk now) sid (of_nat (length sent)) data) b"
  note n = sending_node [OF assms(1)]
  have s: "body_sound b" "c < 4" "s_open (ses b)" "s_target (ses b) = Suc c" "s_id (ses b) = sid" "s_size (ses b) = of_nat (length img)"
    "n_open (nodes b ! c)" "n_part (nodes b ! c) = part" "s_sha (ses b) = sent" "s_want (ses b) = sha256 img" using assms(1) by (auto simp: sending_def)
  have u: "unat (of_nat (length img) :: u32) = length img" using assms(5) by (simp add: unat_of_nat take_bit_nat_eq_self)
  have "\<exists>n1. send_pieces (fine_chunk now) (of_nat (length sent)) data 0 (nodes b ! c) = ((Fw_OK, []), n1)"
    by (rule pieces_arrive) (use n s u assms(4) in \<open>simp_all add: fine_chunk_def\<close>)
  then obtain n1 where r: "send_pieces (fine_chunk now) (of_nat (length sent)) data 0 (nodes b ! c) = ((Fw_OK, []), n1)" by blast
  have "unat (s_received (ses b) + of_nat (length data)) \<le> unat (s_size (ses b))"
    unfolding s(6) u n(7) using assms(4,5) by (simp add: unat_of_nat take_bit_nat_eq_self del: of_nat_add flip: of_nat_add)
  then have e: "?b = take_chunk data now (b\<lparr>nodes := (nodes b)[c := n1]\<rparr>)"
    using assms(2,3) s r n(7) by (simp add: fw_update_chunk_def FW_T_P4_def Let_def word_less_nat_alt) (simp add: fine_chunk_def)
  have len: "length (nodes b) = 4" using s(1) by (simp add: body_sound_def)
  have "nodes ?b ! c = n1" unfolding e using s(2) len by simp
  moreover have "ses ?b = (ses b)\<lparr>s_sha := sent @ data, s_received := s_received (ses b) + of_nat (length data), s_last_us := now\<rparr>"
    unfolding e using s(9) by (simp add: take_chunk_def)
  moreover have "n_open n1" "n_part n1 = part" using pieces_ok [OF r] s by auto
  moreover have "body_sound ?b" by (rule body_step_sound [OF s(1)])
  ultimately show ?thesis using s by (simp add: sending_def del: body_do.simps)
qed

lemma end_sends:
  assumes "sending sha256 c part sid img img b"
  shows "fst (fw_update_end sha256 (fine_end now) b) = Inr True"
    and "n_events (nodes (body_do sha256 (Do_End (fine_end now)) b) ! c) = n_events (nodes b ! c) @ [Boots part]"
    and "session_of (n_events (nodes b ! c)) = Some (part, of_nat (length img), sha256 img, img)"
    and "t_state (targets (body_do sha256 (Do_End (fine_end now)) b) ! Suc c) = Rebooting"
proof -
  note n = sending_node [OF assms]
  have s: "body_sound b" "c < 4" "s_open (ses b)" "s_target (ses b) = Suc c" "s_size (ses b) = of_nat (length img)"
    "n_open (nodes b ! c)" "n_part (nodes b ! c) = part" "s_sha (ses b) = img" "s_want (ses b) = sha256 img" using assms by (auto simp: sending_def)
  have h: "handle_fw_end sha256 (node_finish (fine_end now)) (nodes b ! c) =
      (End_Reply, node_restart ((nodes b ! c)\<lparr>n_open := False, n_events := n_events (nodes b ! c) @ [Boots part]\<rparr>))"
    using n s by (simp add: handle_fw_end_def fine_end_def Let_def)
  have r: "camlink_fw_end_ch sha256 Answered (node_finish (fine_end now)) (nodes b ! c) =
      ((Fw_OK, []), node_restart ((nodes b ! c)\<lparr>n_open := False, n_events := n_events (nodes b ! c) @ [Boots part]\<rparr>))"
    by (simp add: camlink_fw_end_ch_def request_def h)
  have l: "e_link (fine_end now) = Answered" by (simp add: fine_end_def)
  have len: "length (nodes b) = 4" "length (targets b) = 5" using s(1) by (simp_all add: body_sound_def FW_T_COUNT_def)
  show "fst (fw_update_end sha256 (fine_end now) b) = Inr True"
    using s n(7) r by (simp add: fw_update_end_def Let_def FW_T_P4_def l)
  show "n_events (nodes (body_do sha256 (Do_End (fine_end now)) b) ! c) = n_events (nodes b ! c) @ [Boots part]"
    using s n(7) r len by (simp add: fw_update_end_def Let_def FW_T_P4_def l) (simp add: node_restart_def)
  show "t_state (targets (body_do sha256 (Do_End (fine_end now)) b) ! Suc c) = Rebooting"
    using s n(7) r len by (simp add: fw_update_end_def Let_def FW_T_P4_def l) (simp add: set_target_def close_session_def)
  show "session_of (n_events (nodes b ! c)) = Some (part, of_nat (length img), sha256 img, img)"
    using n s by (simp add: node_sound_def)
qed

text \<open>The chunks of an image in order, from an offset on.\<close>

fun chunk_ops :: "int \<Rightarrow> u32 \<Rightarrow> nat \<Rightarrow> bytes list \<Rightarrow> body_step list" where
  "chunk_ops now sid offset [] = []"
| "chunk_ops now sid offset (d # ds) = Do_Chunk (fine_chunk now) sid (of_nat offset) d # chunk_ops now sid (offset + length d) ds"

lemma chunks_send:
  "sending sha256 c part sid img sent b \<Longrightarrow> \<forall>d \<in> set ds. d \<noteq> [] \<and> length d \<le> HOST_DATA_MAX \<Longrightarrow> img = sent @ concat ds \<Longrightarrow>
    length img \<le> 4194304 \<Longrightarrow> sending sha256 c part sid img img (fold (body_do sha256) (chunk_ops now sid (length sent) ds) b)"
proof (induction ds arbitrary: sent b)
  case (Cons d ds)
  have "sending sha256 c part sid img (sent @ d) (body_do sha256 (Do_Chunk (fine_chunk now) sid (of_nat (length sent)) d) b)"
    by (rule chunk_sends) (use Cons.prems in auto)
  from Cons.IH [OF this] show ?case using Cons.prems by (simp del: body_do.simps)
qed simp

definition update_ops :: "slot_in \<Rightarrow> int \<Rightarrow> nat \<Rightarrow> string \<Rightarrow> string option \<Rightarrow> u32 \<Rightarrow> bytes list \<Rightarrow> body_step list" where
  "update_ops slot now c hex v sid ds =
    Do_Begin (fine_begin slot now) (Suc c) (of_nat (length (concat ds))) (Some hex) v # chunk_ops now sid 0 ds"

lemma update_sends:
  assumes "body_sound b" "\<not> s_open (ses b)" "c < 4" "\<not> n_frame_held (nodes b ! c)"
    and "hex_to_bytes (Some hex) 32 = Some (sha256 (concat ds))" "ds \<noteq> []" "\<forall>d \<in> set ds. d \<noteq> [] \<and> length d \<le> HOST_DATA_MAX"
    and "length (concat ds) \<le> 4194304" "offered slot = Some (part, room)" "length (concat ds) \<le> unat room" "opened slot = Fw_OK"
  shows "sending sha256 c part (next_id b) (concat ds) (concat ds) (fold (body_do sha256) (update_ops slot now c hex v (next_id b) ds) b)"
proof -
  have "concat ds \<noteq> []" using assms(6,7) by (cases ds) auto
  note start = begin_sends [where ?sha256.0 = sha256 and img = "concat ds", OF assms(1-5) this assms(8-11), of now v]
  show ?thesis using chunks_send [OF start assms(7) _ assms(8), of now] by (simp add: update_ops_def del: body_do.simps)
qed

section \<open>A small update\<close>

text \<open>Values for examples: a hash of 32 zeros whatever the bytes, its text, and a slot of three megabytes.\<close>

definition demo_hash :: "bytes \<Rightarrow> bytes" where
  "demo_hash img = replicate 32 0"

definition demo_hex :: string where
  "demo_hex = replicate 64 (CHR ''0'')"

definition demo_slot :: slot_in where
  "demo_slot = \<lparr>offered = Some (1, 3145728), opened = Fw_OK\<rparr>"

lemma demo_hex_reads: "hex_to_bytes (Some demo_hex) 32 = Some (demo_hash img)"
proof -
  have "hex_to_bytes (Some demo_hex) 32 = Some (replicate 32 0)" by code_simp
  then show ?thesis by (simp add: demo_hash_def)
qed

definition demo_rebooting :: body where
  "demo_rebooting = set_target 1 (\<lambda>x. x\<lparr>t_state := Rebooting\<rparr>) body_boot"

lemma demo_ready:
  "body_sound body_boot" "\<not> s_open (ses body_boot)" "\<not> n_frame_held (nodes body_boot ! Suc 0)"
  "body_sound demo_rebooting" "\<not> s_open (ses demo_rebooting)" "\<not> n_frame_held (nodes demo_rebooting ! Suc 0)"
  "offered demo_slot = Some (1, 3145728)" "opened demo_slot = Fw_OK"
proof -
  have b: "body_sound b1 = body_sound b" if "nodes b1 = nodes b" "length (targets b1) = length (targets b)" "ses b1 = ses b" "p4_events b1 = p4_events b" for b b1
    using that by (simp add: body_sound_def session_sound_def p4_sound_def pair_sound_def)
  show "body_sound body_boot" by (rule body_sound_boot)
  then show "body_sound demo_rebooting" using b [of demo_rebooting body_boot] by (simp add: demo_rebooting_def)
qed (simp_all add: demo_rebooting_def body_boot_def node_boot_def demo_slot_def set_target_def)

section \<open>Properties\<close>



text \<open>
  C17: The body boots only an announced image. Whatever the host sends, whatever the link, the flash and the power do, in any order, a slot
  the body selects to boot has had written to it, since the session for it was opened, exactly as many bytes
  as were announced, and their hash is the announced one.
\<close>

theorem body_boots_announced_images:
  assumes "p4_events (fold (body_do sha256) ops body_boot) = past @ Boots p # later"
  shows "announced_image sha256 p (session_of past)"
  by (rule body_receiver.run_boots_announced [OF body_sound_boot _ assms]) (simp add: boots_verified_def body_boot_def)

theorem body_boots_announced_images_witness:
  "announced_image demo_hash 1 (session_of [Opens 1 3 (replicate 32 0), Writes [7, 8, 9]])"
proof -
  have "p4_events (fold (body_do demo_hash) [Do_Begin (fine_begin demo_slot 0) 0 3 (Some demo_hex) None,
      Do_Chunk (fine_chunk 1) 100 0 [7, 8, 9], Do_End (fine_end 2)] body_boot) = [Opens 1 3 (replicate 32 0), Writes [7, 8, 9]] @ Boots 1 # []"
    by code_simp
  then show ?thesis by (rule body_boots_announced_images)
qed



section \<open>A node that restarts\<close>

lemma watch_settles:
  assumes "t_state (targets b ! t) = Rebooting" "t < length (targets b)" "95001 * 1000 \<le> w_now i - end_us (targets b ! t)" "w_maint i \<or> w_granted i"
  shows "t_state (targets (watch_node i t b) ! t) \<in> {Ready, Error} \<or>
    (t_state (targets (watch_node i t b) ! t) = Rebooting \<and> \<not> bank_cycled (targets b ! t) \<and> bank_cycled (targets (watch_node i t b) ! t) \<and>
     end_us (targets (watch_node i t b) ! t) = end_us (targets b ! t))"
proof -
  have "95001 \<le> (w_now i - end_us (targets b ! t)) sdiv 1000"
    using assms(3) by (simp add: signed_divide_int_def zdiv_mono1 sgn_if)
  then show ?thesis
    using assms by (auto simp: watch_node_def Let_def fw_set_error_def set_target_def FW_NODE_BACK_MS_def FW_NODE_GIVEUP_MS_def split: option.split)
qed

text \<open>
  C18: A restarted node is given an answer. Two looks at a node that was told to restart, later than 95 seconds after and let through by the
  scheduler, leave it ready or in error, whatever it answers.
\<close>

theorem restarted_node_is_settled:
  assumes "t < length (targets b)" "t_state (targets b ! t) = Rebooting" "t \<noteq> FW_T_P4" "t < FW_T_COUNT"
    and "95001 * 1000 \<le> w_now i - end_us (targets b ! t)" "w_maint i \<or> w_granted i"
    and "95001 * 1000 \<le> w_now j - end_us (targets b ! t)" "w_maint j \<or> w_granted j"
  shows "fst (fw_update_state j t (snd (fw_update_state i t b))) \<in> {Ready, Error}"
proof -
  let ?b1 = "watch_node i t b"
  have s: "snd (fw_update_state i t b) = ?b1" "fst (fw_update_state j t ?b1) = t_state (targets (watch_node j t ?b1) ! t)"
    using assms(3,4) by (simp_all add: fw_update_state_def Let_def)
  have done1: "t_state (targets (watch_node j t x) ! t) \<in> {Ready, Error}" if "t_state (targets x ! t) \<in> {Ready, Error}" for x
    using that by (auto simp: watch_node_def Let_def)
  have len: "t < length (targets ?b1)" using assms(1) by (simp add: watch_targets)
  show ?thesis unfolding s
    using watch_settles [OF assms(2,1,5,6)] done1 [of ?b1] watch_settles [OF _ len, of j] assms(7,8) by auto
qed

theorem restarted_node_is_settled_witness:
  "fst (fw_update_state \<lparr>w_maint = True, w_granted = False, hello = None, w_now = 95001000\<rparr> 1
     (snd (fw_update_state \<lparr>w_maint = True, w_granted = False, hello = None, w_now = 95001000\<rparr> 1
       (set_target 1 (\<lambda>x. x\<lparr>t_state := Rebooting\<rparr>) body_boot)))) \<in> {Ready, Error}"
  by (rule restarted_node_is_settled)
     (simp_all add: body_boot_def set_target_def idle_target_def FW_T_COUNT_def FW_T_P4_def)

text \<open>
  C38: Looking for one node can cost another its update. While a session for the second node is open at both ends, asking after the first,
  silent for more than 40 seconds since its own update, takes the power from the whole bank: the body's session stays open, the node's is gone.
\<close>

theorem looking_for_one_node_stops_another:
  assumes "sending sha256 1 part sid img sent b" "t_state (targets b ! 1) = Rebooting" "\<not> bank_cycled (targets b ! 1)"
    and "40001 * 1000 \<le> w_now i - end_us (targets b ! 1)" "w_maint i" "hello i = None"
  shows "s_open (ses (body_do sha256 (Do_Status i 1) b)) \<and> \<not> n_open (nodes (body_do sha256 (Do_Status i 1) b) ! 1)"
proof -
  have "40001 \<le> (w_now i - end_us (targets b ! 1)) sdiv 1000"
    using assms(4) by (simp add: signed_divide_int_def zdiv_mono1 sgn_if)
  moreover have "s_open (ses b)" "length (nodes b) = 4" using assms(1) by (simp_all add: sending_def body_sound_def)
  ultimately show ?thesis
    using assms(2-6)
    by (auto simp: fw_update_state_def watch_node_def Let_def FW_T_COUNT_def FW_T_P4_def FW_NODE_BACK_MS_def node_restart_def node_boot_def)
qed

theorem looking_for_one_node_stops_another_witness:
  "\<not> n_open (nodes (body_do demo_hash (Do_Status \<lparr>w_maint = True, w_granted = False, hello = None, w_now = 40001000\<rparr> 1)
     (body_do demo_hash (Do_Begin (fine_begin demo_slot 0) (Suc 1) (of_nat (length [7 :: u8])) (Some demo_hex) None) demo_rebooting)) ! 1)"
proof -
  let ?b = "body_do demo_hash (Do_Begin (fine_begin demo_slot 0) (Suc 1) (of_nat (length [7 :: u8])) (Some demo_hex) None) demo_rebooting"
  have s: "sending demo_hash 1 1 (next_id demo_rebooting) [7] [] ?b"
    by (rule begin_sends [where room = 3145728]) (simp_all add: demo_ready demo_hex_reads)
  have "t_state (targets ?b ! 1) = Rebooting" "\<not> bank_cycled (targets ?b ! 1)" "end_us (targets ?b ! 1) = 0" by code_simp+
  then show ?thesis
    using looking_for_one_node_stops_another [OF s, of "\<lparr>w_maint = True, w_granted = False, hello = None, w_now = 40001000\<rparr>"] by simp
qed

end
