(* ===== verification/Upload_Store.thy ===== *)
theory Upload_Store
  imports Upload_Worker Kino_Decimal Complex_Main
begin

text \<open>
  The record of a queued upload on the card, \<^verbatim>\<open>firmware/p4/main/upload_store.c\<close>: a job as a JSON document and back, the write that
  replaces one record by the next, the frame list and the Roll that a capture's \<^verbatim>\<open>META.JSON\<close> names, and what a look at a capture's directory
  makes of them.

  cJSON is not this program's code: a document is a value of \<open>json_value\<close>, its numbers rational, and the three calls that do more than
  build a value or look at its type, printing (which may find no memory), parsing and finding a member, are fields of the argument \<open>cjson\<close>.
  A cast to an integer truncates; where it does not fit, C leaves it open, and here it wraps. One capture's directory is the map of its
  files, with what the card refuses to open or to read; lemma \<open>paths_are_apart\<close> is why it may be.

  The properties: a record reads back as the job it was made of; whatever moment of a save the power fails at, the next look at the
  directory finds the job as it was, as it is, or its capture to be queued again; a card of the queue's own records gives the
  worker only jobs it can take on, as the invariant of its window asks; and a record without cameras that is parked for want of a
  list is revived all the same.
\<close>

section \<open>The code: documents\<close>

datatype json_value = JNull | JBool bool | JNum rat | JStr string | JArr "json_value list" | JObj "(string \<times> json_value) list"

record cjson =
  cj_print :: "json_value \<Rightarrow> string option"
  cj_parse :: "string \<Rightarrow> json_value option"
  cj_item :: "json_value \<Rightarrow> string \<Rightarrow> json_value option"

definition c_trunc :: "rat \<Rightarrow> int" where
  "c_trunc r = (if r \<ge> 0 then \<lfloor>r\<rfloor> else \<lceil>r\<rceil>)"

definition is_true :: "json_value option \<Rightarrow> bool" where
  "is_true j \<longleftrightarrow> j = Some (JBool True)"

section \<open>The code: records\<close>

definition UPLOAD_STORE_MAX_BYTES :: nat where "UPLOAD_STORE_MAX_BYTES = 768"
definition RQ_FORMAT_VERSION :: rat where "RQ_FORMAT_VERSION = 1"
definition UPLOAD_STORE_RECORD :: string where "UPLOAD_STORE_RECORD = ''UPLOAD.JSON''"
definition UPLOAD_STORE_TEMP :: string where "UPLOAD_STORE_TEMP = ''UPLOAD.TMP''"

definition UPLOAD_STORE_DIR :: string where "UPLOAD_STORE_DIR = ''/sdcard/KINO/CAPTURES''"

definition upload_store_path :: "string \<Rightarrow> string \<Rightarrow> nat \<Rightarrow> string" where
  "upload_store_path u name cap = take (cap - 1) (UPLOAD_STORE_DIR @ ''/'' @ u @ ''/'' @ name)"

text \<open>The numbers of the states are their places in the enumeration.\<close>

definition rq_states :: "rq_state list" where
  "rq_states = [RQ_QUEUED, RQ_REGISTERING, RQ_THUMB_UPLOADING, RQ_THUMB_READY, RQ_ORIGINALS_UPLOADING, RQ_VERIFYING,
     RQ_COMPLETE, RQ_RETRY_WAIT, RQ_FAILED]"

definition state_num :: "rq_state \<Rightarrow> nat" where
  "state_num st = the (first_at (\<lambda>x. x = st) rq_states)"

definition record_tree :: "rq_job \<Rightarrow> json_value" where
  "record_tree job = JObj (
     [(''formatVersion'', JNum RQ_FORMAT_VERSION), (''captureUuid'', JStr (uuid job)), (''captureId'', JStr (capture_id job)),
      (''rollId'', JStr (roll_id job)), (''state'', JNum (of_nat (state_num (job_state job)))),
      (''stateName'', JStr (rq_state_name (job_state job))), (''frameCount'', JNum (of_int (frame_count job))),
      (''thumbPresent'', JBool (thumb_present job)), (''thumbDone'', JBool (thumb_done job))] @
     (if rq_job_has_slots job then [(''frameSlots'', JArr (map (\<lambda>i. JNum (of_int (uint (frame_slot job ! i)))) (positions job)))] else []) @
     [(''frameDone'', JArr (map (\<lambda>i. JBool (frame_done job ! i)) (positions job))),
      (''attempts'', JNum (of_int (uint (attempts job)))), (''rereadAttempts'', JNum (of_int (uint (reread_attempts job)))),
      (''nextAttemptMs'', JNum (of_int (next_attempt_ms job))), (''lastError'', JStr (last_error job))])"

definition encode_raw :: "cjson \<Rightarrow> rq_job \<Rightarrow> string option" where
  "encode_raw lib job = cj_print lib (record_tree job)"

function shorten_loop :: "cjson \<Rightarrow> rq_job \<Rightarrow> nat \<Rightarrow> string \<Rightarrow> string option" where
  "shorten_loop lib trimmed keep text0 =
    (if length text0 > UPLOAD_STORE_MAX_BYTES \<and> keep > 0
     then (let keep1 = keep div 2; trimmed1 = trimmed\<lparr>last_error := take keep1 (last_error trimmed)\<rparr>
           in case encode_raw lib trimmed1 of None \<Rightarrow> None | Some t \<Rightarrow> shorten_loop lib trimmed1 keep1 t)
     else Some text0)"
  by pat_completeness auto
termination
  by (relation "measure (\<lambda>(lib, trimmed, keep, text0). keep)") auto

declare shorten_loop.simps [simp del]

definition upload_store_encode :: "cjson \<Rightarrow> rq_job \<Rightarrow> string option" where
  "upload_store_encode lib job =
    (case encode_raw lib job of None \<Rightarrow> None
     | Some t \<Rightarrow> if length t \<le> UPLOAD_STORE_MAX_BYTES then Some t else shorten_loop lib job (RQ_ERROR_LEN - 1) t)"

definition copy_member :: "cjson \<Rightarrow> json_value \<Rightarrow> string \<Rightarrow> nat \<Rightarrow> string" where
  "copy_member lib j key cap = (case cj_item lib j key of Some (JStr s) \<Rightarrow> take (cap - 1) s | _ \<Rightarrow> [])"

definition read_num :: "cjson \<Rightarrow> json_value \<Rightarrow> string \<Rightarrow> rat" where
  "read_num lib j key = (case cj_item lib j key of Some (JNum r) \<Rightarrow> r | _ \<Rightarrow> 0)"

definition pad_to :: "nat \<Rightarrow> 'a \<Rightarrow> 'a list \<Rightarrow> 'a list" where
  "pad_to n z xs = take n xs @ replicate (n - length xs) z"

fun slot_list :: "json_value list \<Rightarrow> u8 list \<Rightarrow> u8 list option" where
  "slot_list [] acc = Some acc"
| "slot_list (JNum r # es) acc =
    (if length acc \<ge> RQ_MAX_FRAMES \<or> r < 1 \<or> r > of_nat RQ_MAX_FRAMES \<or> r \<noteq> of_int (c_trunc r) then None
     else slot_list es (acc @ [of_int (c_trunc r)]))"
| "slot_list (e # es) acc = None"

text \<open>The fields of a trusted document, before its cameras.\<close>

definition read_fields :: "cjson \<Rightarrow> json_value \<Rightarrow> int \<Rightarrow> string \<Rightarrow> rq_job" where
  "read_fields lib j st u =
    \<lparr>uuid = take (RQ_UUID_LEN - 1) u, capture_id = copy_member lib j ''captureId'' RQ_CAPTURE_ID_LEN,
     roll_id = copy_member lib j ''rollId'' RQ_CAPTURE_ID_LEN, job_state = rq_states ! nat st,
     frame_count = (let c = c_trunc (read_num lib j ''frameCount'') in
       if c < 0 then 0 else if c > int RQ_MAX_FRAMES then int RQ_MAX_FRAMES else c),
     thumb_present = is_true (cj_item lib j ''thumbPresent''), thumb_done = is_true (cj_item lib j ''thumbDone''),
     frame_slot = replicate RQ_MAX_FRAMES 0,
     frame_done = (case cj_item lib j ''frameDone'' of
         Some (JArr es) \<Rightarrow> pad_to RQ_MAX_FRAMES False (map (\<lambda>e. is_true (Some e)) es) | _ \<Rightarrow> replicate RQ_MAX_FRAMES False),
     attempts = of_int (c_trunc (read_num lib j ''attempts'')), reread_attempts = of_int (c_trunc (read_num lib j ''rereadAttempts'')),
     next_attempt_ms = c_trunc (read_num lib j ''nextAttemptMs''), last_error = copy_member lib j ''lastError'' RQ_ERROR_LEN\<rparr>"

definition read_slots :: "cjson \<Rightarrow> json_value \<Rightarrow> rq_job \<Rightarrow> rq_job option" where
  "read_slots lib j job =
    (case cj_item lib j ''frameSlots'' of None \<Rightarrow> Some job
     | Some (JArr es) \<Rightarrow> (case slot_list es [] of None \<Rightarrow> None
         | Some list \<Rightarrow> if int (length list) \<noteq> frame_count job \<or> \<not> rq_slots_valid (Some list) (int (length list)) (int RQ_MAX_FRAMES)
             then None else Some (job\<lparr>frame_slot := pad_to RQ_MAX_FRAMES 0 list\<rparr>))
     | Some _ \<Rightarrow> None)"

definition upload_store_decode :: "cjson \<Rightarrow> string \<Rightarrow> string \<Rightarrow> rq_job option" where
  "upload_store_decode lib t u =
    (if t = [] \<or> length t > UPLOAD_STORE_MAX_BYTES then None
     else case cj_parse lib t of None \<Rightarrow> None
     | Some j \<Rightarrow>
       (let st = (case cj_item lib j ''state'' of Some (JNum r) \<Rightarrow> c_trunc r | _ \<Rightarrow> - 1) in
        case cj_item lib j ''formatVersion'' of
          Some (JNum v) \<Rightarrow>
            if v > RQ_FORMAT_VERSION \<or> st < 0 \<or> st > int (state_num RQ_FAILED) then None else read_slots lib j (read_fields lib j st u)
        | _ \<Rightarrow> None))"

section \<open>The code: the metadata\<close>

datatype meta_frames_err =
  UPLOAD_META_FRAMES_MALFORMED | UPLOAD_META_FRAMES_COUNT | UPLOAD_META_FRAMES_SLOT | UPLOAD_META_FRAMES_FILE

definition frame_file :: "nat \<Rightarrow> string" where
  "frame_file slot = ''C'' @ dec slot @ ''.JPG''"

fun meta_loop :: "cjson \<Rightarrow> nat \<Rightarrow> nat \<Rightarrow> json_value list \<Rightarrow> u8 list \<Rightarrow> meta_frames_err + u8 list" where
  "meta_loop lib max_slot cap [] acc = Inr acc"
| "meta_loop lib max_slot cap (e # es) acc =
    (case cj_item lib e ''cam'' of
       Some (JStr c) \<Rightarrow>
         (case cj_item lib e ''file'' of
            Some (JStr f) \<Rightarrow>
              if length c \<noteq> 4 \<or> take 3 c \<noteq> ''cam'' \<or> c ! 3 < CHR ''1'' \<or> c ! 3 > CHR ''9'' then Inl UPLOAD_META_FRAMES_SLOT
              else (let slot = of_char (c ! 3) - 48 in
                if slot > max_slot then Inl UPLOAD_META_FRAMES_SLOT
                else if f \<noteq> frame_file slot then Inl UPLOAD_META_FRAMES_FILE
                else if length acc \<ge> cap \<or> length acc \<ge> RQ_MAX_FRAMES then Inl UPLOAD_META_FRAMES_SLOT
                else meta_loop lib max_slot cap es (acc @ [of_nat slot]))
          | _ \<Rightarrow> meta_loop lib max_slot cap es acc)
     | _ \<Rightarrow> Inl UPLOAD_META_FRAMES_MALFORMED)"

definition upload_store_meta_frames_from_text :: "cjson \<Rightarrow> string \<Rightarrow> nat \<Rightarrow> nat \<Rightarrow> meta_frames_err + u8 list" where
  "upload_store_meta_frames_from_text lib t max_slot0 cap =
    (if cap = 0 then Inl UPLOAD_META_FRAMES_MALFORMED
     else (let max_slot = min max_slot0 RQ_MAX_FRAMES in
       case cj_parse lib t of None \<Rightarrow> Inl UPLOAD_META_FRAMES_MALFORMED
       | Some doc \<Rightarrow>
         (case cj_item lib doc ''frames'' of
            Some (JArr es) \<Rightarrow>
              (case meta_loop lib max_slot cap es [] of Inl e \<Rightarrow> Inl e
               | Inr slots \<Rightarrow>
                 if \<not> rq_slots_valid (Some slots) (int (length slots)) (int max_slot) then Inl UPLOAD_META_FRAMES_SLOT
                 else (case cj_item lib doc ''frameCount'' of
                     Some (JNum r) \<Rightarrow> if c_trunc r \<noteq> int (length slots) then Inl UPLOAD_META_FRAMES_COUNT else Inr slots
                   | _ \<Rightarrow> Inl UPLOAD_META_FRAMES_COUNT))
          | _ \<Rightarrow> Inl UPLOAD_META_FRAMES_MALFORMED)))"

record capture_dir =
  files :: "string \<Rightarrow> string option"
  stuck :: "string \<Rightarrow> bool"
  torn :: "string \<Rightarrow> bool"
  memory :: bool

definition META_READ_MAX :: nat where "META_READ_MAX = 4096"

text \<open>What both readers of the metadata do first: a file that fills the buffer counts as unread.\<close>

definition meta_text :: "capture_dir \<Rightarrow> string option" where
  "meta_text d =
    (case files d ''META.JSON'' of None \<Rightarrow> None
     | Some t \<Rightarrow> if stuck d ''META.JSON'' \<or> \<not> memory d \<or> torn d ''META.JSON'' \<or> t = [] \<or> length t \<ge> META_READ_MAX then None else Some t)"

definition upload_store_meta_frames :: "cjson \<Rightarrow> capture_dir \<Rightarrow> nat \<Rightarrow> nat \<Rightarrow> meta_frames_err + u8 list" where
  "upload_store_meta_frames lib d max_slot cap =
    (case meta_text d of None \<Rightarrow> Inl UPLOAD_META_FRAMES_MALFORMED
     | Some t \<Rightarrow> upload_store_meta_frames_from_text lib t max_slot cap)"

definition meta_frames_reason :: "meta_frames_err \<Rightarrow> string" where
  "meta_frames_reason e =
    (case e of UPLOAD_META_FRAMES_COUNT \<Rightarrow> ''META frameCount disagrees with its frames''
     | UPLOAD_META_FRAMES_SLOT \<Rightarrow> ''META names a camera twice or outside the body''
     | UPLOAD_META_FRAMES_FILE \<Rightarrow> ''META names a frame file that is not its camera's''
     | UPLOAD_META_FRAMES_MALFORMED \<Rightarrow> ''META has no usable frame list'')"

datatype upload_meta_roll = UPLOAD_META_ROLL_OK string | UPLOAD_META_ROLL_NONE | UPLOAD_META_ROLL_UNREADABLE

definition upload_store_meta_roll_from_text :: "cjson \<Rightarrow> string \<Rightarrow> nat \<Rightarrow> upload_meta_roll" where
  "upload_store_meta_roll_from_text lib t cap =
    (if cap = 0 then UPLOAD_META_ROLL_UNREADABLE
     else case cj_parse lib t of None \<Rightarrow> UPLOAD_META_ROLL_UNREADABLE
     | Some doc \<Rightarrow>
       (case cj_item lib doc ''rollId'' of
          Some (JStr s) \<Rightarrow> if s = [] then UPLOAD_META_ROLL_NONE
            else if length s < cap then UPLOAD_META_ROLL_OK s else UPLOAD_META_ROLL_UNREADABLE
        | _ \<Rightarrow> UPLOAD_META_ROLL_NONE))"

definition upload_store_meta_roll_id_from_text :: "cjson \<Rightarrow> string \<Rightarrow> nat \<Rightarrow> string option" where
  "upload_store_meta_roll_id_from_text lib t cap =
    (case upload_store_meta_roll_from_text lib t cap of UPLOAD_META_ROLL_OK s \<Rightarrow> Some s | _ \<Rightarrow> None)"

definition upload_store_meta_roll :: "cjson \<Rightarrow> capture_dir \<Rightarrow> nat \<Rightarrow> upload_meta_roll" where
  "upload_store_meta_roll lib d cap =
    (if cap = 0 then UPLOAD_META_ROLL_UNREADABLE
     else case meta_text d of None \<Rightarrow> UPLOAD_META_ROLL_UNREADABLE
     | Some t \<Rightarrow> upload_store_meta_roll_from_text lib t cap)"

definition upload_store_meta_roll_id :: "cjson \<Rightarrow> capture_dir \<Rightarrow> nat \<Rightarrow> string option" where
  "upload_store_meta_roll_id lib d cap =
    (case upload_store_meta_roll lib d cap of UPLOAD_META_ROLL_OK s \<Rightarrow> Some s | _ \<Rightarrow> None)"

section \<open>The code: the card\<close>

definition upload_store_has_file :: "capture_dir \<Rightarrow> string \<Rightarrow> bool" where
  "upload_store_has_file d name \<longleftrightarrow> files d name \<noteq> None"

definition put_file :: "string \<Rightarrow> string \<Rightarrow> capture_dir \<Rightarrow> capture_dir" where
  "put_file name t d = d\<lparr>files := (files d)(name := Some t)\<rparr>"

definition unlink :: "string \<Rightarrow> capture_dir \<Rightarrow> capture_dir" where
  "unlink name d = d\<lparr>files := (files d)(name := None)\<rparr>"

definition rename :: "string \<Rightarrow> string \<Rightarrow> capture_dir \<Rightarrow> capture_dir" where
  "rename tmp dst d = d\<lparr>files := (files d)(dst := files d tmp, tmp := None)\<rparr>"

text \<open>
  Whether the temporary file opens, how much of the text reaches the card, whether writing, flushing and closing succeed, and whether the
  rename does. The states the directory goes through, in order: a power cut leaves one of them.
\<close>

record save_in =
  tmp_opens :: bool
  reached :: nat
  write_fails :: bool
  renames :: bool

definition save_states :: "save_in \<Rightarrow> string \<Rightarrow> capture_dir \<Rightarrow> bool \<times> capture_dir list" where
  "save_states i t d =
    (if \<not> tmp_opens i then (False, [d])
     else if write_fails i then
       (False, map (\<lambda>k. put_file UPLOAD_STORE_TEMP (take k t) d) [0..<Suc (reached i)] @ [unlink UPLOAD_STORE_TEMP d])
     else (let d1 = put_file UPLOAD_STORE_TEMP t d; d2 = unlink UPLOAD_STORE_RECORD d1 in
       (renames i, map (\<lambda>k. put_file UPLOAD_STORE_TEMP (take k t) d) [0..<length t] @ [d1, d2] @
         (if renames i then [rename UPLOAD_STORE_TEMP UPLOAD_STORE_RECORD d2] else [unlink UPLOAD_STORE_TEMP d2]))))"

definition upload_store_save :: "cjson \<Rightarrow> save_in \<Rightarrow> rq_job \<Rightarrow> capture_dir \<Rightarrow> bool \<times> capture_dir list" where
  "upload_store_save lib i job d =
    (case upload_store_encode lib job of None \<Rightarrow> (False, [d]) | Some t \<Rightarrow> save_states i t d)"

definition upload_store_load :: "cjson \<Rightarrow> string \<Rightarrow> capture_dir \<Rightarrow> bool \<times> rq_job option" where
  "upload_store_load lib u d =
    (case files d UPLOAD_STORE_RECORD of None \<Rightarrow> (False, None)
     | Some t \<Rightarrow> if stuck d UPLOAD_STORE_RECORD then (False, None)
         else if torn d UPLOAD_STORE_RECORD then (True, None)
         else (True, upload_store_decode lib (take (UPLOAD_STORE_MAX_BYTES + 1) t) u))"

section \<open>The code: one directory\<close>

definition park_job :: "string \<Rightarrow> rq_job \<Rightarrow> rq_job" where
  "park_job why job = job\<lparr>job_state := RQ_FAILED, last_error := take (RQ_ERROR_LEN - 1) why\<rparr>"

definition frames_from_meta :: "cjson \<Rightarrow> capture_dir \<Rightarrow> nat \<Rightarrow> meta_frames_err + u8 list" where
  "frames_from_meta lib d max_frames =
    (case upload_store_meta_frames lib d max_frames RQ_MAX_FRAMES of Inl e \<Rightarrow> Inl e
     | Inr slots \<Rightarrow> if list_all (\<lambda>s. upload_store_has_file d (frame_file (unat s))) slots then Inr slots else Inl UPLOAD_META_FRAMES_FILE)"

definition adopt_from_meta :: "cjson \<Rightarrow> capture_dir \<Rightarrow> nat \<Rightarrow> rq_job \<Rightarrow> rq_job" where
  "adopt_from_meta lib d max_frames job =
    (case frames_from_meta lib d max_frames of
       Inl e \<Rightarrow> park_job (meta_frames_reason e) job
     | Inr slots \<Rightarrow>
       (case rq_job_adopt_slots job (Some slots) (int (length slots)) of
          (False, job1) \<Rightarrow> park_job ''META frame list could not be adopted'' job1
        | (True, job1) \<Rightarrow>
          if job_state job1 = RQ_FAILED \<and> attempts job1 \<ge> RQ_MAX_ATTEMPTS
          then job1\<lparr>last_error := take (RQ_ERROR_LEN - 1) ''frame list recovered from META; retry to upload the remaining cameras''\<rparr>
          else job1))"

definition retire :: "string \<Rightarrow> string \<Rightarrow> rq_job option \<Rightarrow> rq_job" where
  "retire u meta_roll loaded =
    (case loaded of Some j \<Rightarrow> j | None \<Rightarrow> rq_job_init (Some u) (Some []) 0 False)
      \<lparr>job_state := RQ_FAILED, last_error := take (RQ_ERROR_LEN - 1)
        (''no Roll provenance: capture '' @ take 20 (if meta_roll = [] then ''none'' else meta_roll) @ '', record '' @
         take 20 (case loaded of Some j \<Rightarrow> roll_id j | None \<Rightarrow> ''?''))\<rparr>"

definition fresh_from_meta :: "cjson \<Rightarrow> capture_dir \<Rightarrow> string \<Rightarrow> nat \<Rightarrow> string \<Rightarrow> rq_job" where
  "fresh_from_meta lib d u max_frames meta_roll =
    (let thumb = upload_store_has_file d ''THUMB.JPG'';
         empty_job = snd (rq_job_init_slots (Some u) (Some meta_roll) None 0 thumb) in
     case frames_from_meta lib d max_frames of
       Inl e \<Rightarrow> park_job (meta_frames_reason e) empty_job
     | Inr slots \<Rightarrow>
       (case rq_job_init_slots (Some u) (Some meta_roll) (Some slots) (int (length slots)) thumb of
          (True, job) \<Rightarrow> job
        | (False, job) \<Rightarrow> park_job ''META frame list could not be adopted'' empty_job))"

text \<open>The answer, the job where there is one (otherwise what the caller passed in), and whether it must be written back.\<close>

definition upload_store_inspect_ex ::
  "cjson \<Rightarrow> capture_dir \<Rightarrow> string \<Rightarrow> nat \<Rightarrow> rq_job \<Rightarrow> rq_reconcile \<times> rq_job \<times> bool" where
  "upload_store_inspect_ex lib d u max_frames out =
    (let has_meta = upload_store_has_file d ''META.JSON'';
         roll = (if has_meta then upload_store_meta_roll lib d RQ_CAPTURE_ID_LEN else UPLOAD_META_ROLL_NONE) in
     if roll = UPLOAD_META_ROLL_UNREADABLE then (RQ_REC_UNREADABLE, out, False)
     else (let meta_roll = (case roll of UPLOAD_META_ROLL_OK r \<Rightarrow> r | _ \<Rightarrow> []);
               (has_job, loaded) = upload_store_load lib u d in
       case rq_reconcile_action has_meta (Some meta_roll) has_job (loaded \<noteq> None) loaded of
         RQ_REC_IGNORE \<Rightarrow> (RQ_REC_IGNORE, out, False)
       | RQ_REC_RESUME \<Rightarrow>
           (let job = rq_job_boot_resume (the loaded) in
            if frame_count job > 0 \<and> \<not> rq_job_has_slots job then (RQ_REC_RESUME, adopt_from_meta lib d max_frames job, True)
            else (RQ_REC_RESUME, job, False))
       | RQ_REC_RETIRE \<Rightarrow> (RQ_REC_RETIRE, retire u meta_roll loaded, False)
       | action \<Rightarrow> (action, fresh_from_meta lib d u max_frames meta_roll, True)))"

definition upload_store_inspect :: "cjson \<Rightarrow> capture_dir \<Rightarrow> string \<Rightarrow> nat \<Rightarrow> rq_job \<Rightarrow> rq_reconcile \<times> rq_job" where
  "upload_store_inspect lib d u max_frames out = (case upload_store_inspect_ex lib d u max_frames out of (a, job, _) \<Rightarrow> (a, job))"

section \<open>Names on the card\<close>

text \<open>A capture's directory may be taken for the map of its files: within the bounds of the names no path is cut, and two never meet.\<close>

lemma paths_are_apart:
  assumes "length u < RQ_UUID_LEN" "length v < RQ_UUID_LEN" "length n \<le> 12" "length k \<le> 12" "CHR ''/'' \<notin> set (u @ v @ n @ k)"
    and "upload_store_path u n 96 = upload_store_path v k 96"
  shows "u = v \<and> n = k"
proof -
  have eq: "u @ CHR ''/'' # n = v @ CHR ''/'' # k"
    using assms(1-4,6) by (simp add: upload_store_path_def UPLOAD_STORE_DIR_def RQ_UUID_LEN_def)
  moreover have "takeWhile (\<lambda>c. c \<noteq> CHR ''/'') (w @ CHR ''/'' # r) = w" if "CHR ''/'' \<notin> set w" for w r
    using that by (induction w) auto
  ultimately have "u = v" using assms(5) by (metis UnCI set_append)
  with eq show ?thesis by simp
qed

section \<open>A record and its document\<close>

text \<open>
  What is asked of cJSON. A document of scalars and lists of scalars, its integers within the 53 bits a double holds exactly, its text without
  NUL, is read back as it was printed; printing may fail, and nothing is asked of texts it did not print. The member found is the first of
  the name, letters in either case.
\<close>

definition lower_case :: "char \<Rightarrow> char" where
  "lower_case c = (if c \<ge> CHR ''A'' \<and> c \<le> CHR ''Z'' then char_of (of_char c + 32 :: nat) else c)"

definition member_of :: "(string \<times> json_value) list \<Rightarrow> string \<Rightarrow> json_value option" where
  "member_of kvs key = map_option snd (find (\<lambda>(k, v). map lower_case k = map lower_case key) kvs)"

fun json_scalar :: "json_value \<Rightarrow> bool" where
  "json_scalar (JNum r) \<longleftrightarrow> r = of_int (c_trunc r) \<and> \<bar>r\<bar> \<le> 2 ^ 53"
| "json_scalar (JStr s) \<longleftrightarrow> CHR 0x00 \<notin> set s"
| "json_scalar (JBool b) \<longleftrightarrow> True"
| "json_scalar j \<longleftrightarrow> False"

fun json_flat :: "json_value \<Rightarrow> bool" where
  "json_flat (JArr es) \<longleftrightarrow> list_all json_scalar es"
| "json_flat j \<longleftrightarrow> json_scalar j"

definition cjson_ok :: "cjson \<Rightarrow> bool" where
  "cjson_ok lib \<longleftrightarrow>
    (\<forall>kvs t. list_all (\<lambda>(k, v). json_scalar (JStr k) \<and> json_flat v) kvs \<and> cj_print lib (JObj kvs) = Some t \<longrightarrow>
       t \<noteq> [] \<and> cj_parse lib t = Some (JObj kvs)) \<and>
    (\<forall>kvs key. cj_item lib (JObj kvs) key = member_of kvs key)"

definition storable :: "rq_job \<Rightarrow> bool" where
  "storable job \<longleftrightarrow> job_wf job \<and> (rq_job_has_slots job \<longrightarrow> job_cams job) \<and>
     length (uuid job) < RQ_UUID_LEN \<and> length (capture_id job) < RQ_CAPTURE_ID_LEN \<and> length (roll_id job) < RQ_CAPTURE_ID_LEN \<and>
     length (last_error job) < RQ_ERROR_LEN \<and> CHR 0x00 \<notin> set (uuid job @ capture_id job @ roll_id job @ last_error job) \<and>
     \<bar>next_attempt_ms job\<bar> \<le> 2 ^ 53"

text \<open>What a record keeps of a job: all but the unused ends of its arrays, and the error text up to some length.\<close>

definition kept :: "nat \<Rightarrow> rq_job \<Rightarrow> rq_job" where
  "kept k job = job\<lparr>
     frame_slot := pad_to RQ_MAX_FRAMES 0 (if rq_job_has_slots job then map ((!) (frame_slot job)) (positions job) else []),
     frame_done := pad_to RQ_MAX_FRAMES False (map ((!) (frame_done job)) (positions job)),
     last_error := take k (last_error job)\<rparr>"

lemma lower_case_letters [simp]:
  "lower_case CHR ''A'' = CHR ''a''" "lower_case CHR ''C'' = CHR ''c''" "lower_case CHR ''D'' = CHR ''d''"
  "lower_case CHR ''E'' = CHR ''e''" "lower_case CHR ''I'' = CHR ''i''" "lower_case CHR ''M'' = CHR ''m''"
  "lower_case CHR ''N'' = CHR ''n''" "lower_case CHR ''P'' = CHR ''p''" "lower_case CHR ''S'' = CHR ''s''"
  "lower_case CHR ''U'' = CHR ''u''" "lower_case CHR ''V'' = CHR ''v''" "lower_case CHR ''a'' = CHR ''a''"
  "lower_case CHR ''b'' = CHR ''b''" "lower_case CHR ''c'' = CHR ''c''" "lower_case CHR ''d'' = CHR ''d''"
  "lower_case CHR ''e'' = CHR ''e''" "lower_case CHR ''f'' = CHR ''f''" "lower_case CHR ''h'' = CHR ''h''"
  "lower_case CHR ''i'' = CHR ''i''" "lower_case CHR ''l'' = CHR ''l''" "lower_case CHR ''m'' = CHR ''m''"
  "lower_case CHR ''n'' = CHR ''n''" "lower_case CHR ''o'' = CHR ''o''" "lower_case CHR ''p'' = CHR ''p''"
  "lower_case CHR ''r'' = CHR ''r''" "lower_case CHR ''s'' = CHR ''s''" "lower_case CHR ''t'' = CHR ''t''"
  "lower_case CHR ''u'' = CHR ''u''" "lower_case CHR ''x'' = CHR ''x''"
  by code_simp+

lemma record_members:
  assumes "cjson_ok lib"
  shows "cj_item lib (record_tree job) ''formatVersion'' = Some (JNum 1)"
  "cj_item lib (record_tree job) ''captureId'' = Some (JStr (capture_id job))"
  "cj_item lib (record_tree job) ''rollId'' = Some (JStr (roll_id job))"
  "cj_item lib (record_tree job) ''state'' = Some (JNum (of_nat (state_num (job_state job))))"
  "cj_item lib (record_tree job) ''frameCount'' = Some (JNum (of_int (frame_count job)))"
  "cj_item lib (record_tree job) ''thumbPresent'' = Some (JBool (thumb_present job))"
  "cj_item lib (record_tree job) ''thumbDone'' = Some (JBool (thumb_done job))"
  "cj_item lib (record_tree job) ''frameSlots'' = (if rq_job_has_slots job
     then Some (JArr (map (\<lambda>i. JNum (of_int (uint (frame_slot job ! i)))) (positions job))) else None)"
  "cj_item lib (record_tree job) ''frameDone'' = Some (JArr (map (\<lambda>i. JBool (frame_done job ! i)) (positions job)))"
  "cj_item lib (record_tree job) ''attempts'' = Some (JNum (of_int (uint (attempts job))))"
  "cj_item lib (record_tree job) ''rereadAttempts'' = Some (JNum (of_int (uint (reread_attempts job))))"
  "cj_item lib (record_tree job) ''nextAttemptMs'' = Some (JNum (of_int (next_attempt_ms job)))"
  "cj_item lib (record_tree job) ''lastError'' = Some (JStr (last_error job))"
  using assms by (simp_all add: record_tree_def RQ_FORMAT_VERSION_def cjson_ok_def member_of_def)

declare of_int_uint [simp del] word_of_int_uint [simp]

lemma c_trunc_of_int [simp]: "c_trunc (of_int z) = z"
  by (simp add: c_trunc_def)

lemma c_trunc_1 [simp]: "c_trunc 1 = 1"
  using c_trunc_of_int [of 1] by simp

lemma c_trunc_of_nat [simp]: "c_trunc (of_nat n) = int n"
  using c_trunc_of_int [of "int n"] by simp

lemma state_num_back [simp]: "rq_states ! state_num st = st" "state_num st \<le> state_num RQ_FAILED"
  by (cases st; simp add: state_num_def rq_states_def)+

lemma slot_list_cameras:
  assumes "\<forall>b \<in> set bs. 1 \<le> uint b \<and> uint b \<le> int RQ_MAX_FRAMES" and "length acc + length bs \<le> RQ_MAX_FRAMES"
  shows "slot_list (map (\<lambda>b. JNum (of_int (uint b))) bs) acc = Some (acc @ bs)"
  using assms
proof (induction bs arbitrary: acc)
  case (Cons b bs)
  have "\<not> (of_int (uint b) < (1 :: rat))" "\<not> (of_int (uint b) > (of_nat RQ_MAX_FRAMES :: rat))"
    using Cons.prems(1) by (simp_all add: RQ_MAX_FRAMES_def)
  then show ?case using Cons by simp
qed simp

lemma job_slots_valid:
  assumes "job_wf job" and "job_cams job"
  shows "rq_slots_valid (Some (map ((!) (frame_slot job)) (positions job))) (int (length (positions job))) (int RQ_MAX_FRAMES)"
  using assms by (auto simp: rq_slots_valid_def slots_loop_iff job_cams_def cameras_def positions_def comp_def)

lemma length_positions: "job_wf job \<Longrightarrow> int (length (positions job)) = frame_count job"
  by (auto simp: positions_def job_wf_def min_def)

lemma read_slots_record:
  assumes "storable job" and lib: "cjson_ok lib" and "frame_count j = frame_count job" and "frame_slot j = replicate RQ_MAX_FRAMES 0"
  shows "read_slots lib (record_tree job) j = Some (j\<lparr>frame_slot :=
    pad_to RQ_MAX_FRAMES 0 (if rq_job_has_slots job then map ((!) (frame_slot job)) (positions job) else [])\<rparr>)"
proof (cases "rq_job_has_slots job")
  case True
  let ?bs = "map ((!) (frame_slot job)) (positions job)"
  have ok: "job_wf job" "job_cams job" using assms(1) True by (simp_all add: storable_def)
  have "slot_list (map (\<lambda>b. JNum (of_int (uint b))) ?bs) [] = Some ?bs"
    using slot_list_cameras [of ?bs "[]"] ok by (auto simp: job_cams_def cameras_def positions_def)
  then have "slot_list (map (\<lambda>i. JNum (of_int (uint (frame_slot job ! i)))) (positions job)) [] = Some ?bs" by (simp add: comp_def)
  then show ?thesis using True job_slots_valid [OF ok] length_positions [OF ok(1)] assms(3)
    by (simp add: read_slots_def record_members [OF lib])
next
  case False
  then show ?thesis using assms(4) by (simp add: read_slots_def record_members [OF lib] pad_to_def)
qed

lemma read_fields_record:
  assumes "storable job" and lib: "cjson_ok lib"
  shows "read_slots lib (record_tree job) (read_fields lib (record_tree job) (int (state_num (job_state job))) (uuid job)) =
    Some (kept RQ_ERROR_LEN job)"
proof -
  let ?j = "read_fields lib (record_tree job) (int (state_num (job_state job))) (uuid job)"
  have "frame_count ?j = frame_count job"
    using assms by (simp add: read_fields_def read_num_def record_members [OF lib] storable_def job_wf_def)
  moreover have "frame_slot ?j = replicate RQ_MAX_FRAMES 0" by (simp add: read_fields_def)
  moreover have "?j\<lparr>frame_slot := sl\<rparr> = (kept RQ_ERROR_LEN job)\<lparr>frame_slot := sl\<rparr>" for sl
    using assms by (intro rq_job.equality)
      (auto simp: read_fields_def read_num_def copy_member_def record_members [OF lib] storable_def job_wf_def kept_def is_true_def comp_def)
  ultimately show ?thesis using read_slots_record [OF assms] by (simp add: kept_def)
qed

lemma state_name_text: "CHR 0x00 \<notin> set (rq_state_name st)"
  by (cases st) (simp_all add: rq_state_name_def)

lemma record_tree_flat:
  assumes "storable job"
  shows "\<exists>kvs. record_tree job = JObj kvs \<and> list_all (\<lambda>(k, v). json_scalar (JStr k) \<and> json_flat v) kvs"
proof -
  have byte: "\<bar>of_int (uint b)\<bar> \<le> (2 ^ 53 :: rat)" for b :: u8
    using uint_lt2p [of b] by simp
  have count: "\<bar>of_int (uint w)\<bar> \<le> (2 ^ 53 :: rat)" for w :: u32
    using uint_lt2p [of w] by simp
  have exact: "\<bar>of_int z\<bar> \<le> (2 ^ 53 :: rat)" if "\<bar>z\<bar> \<le> 2 ^ 53" for z :: int
    using that by (simp flip: of_int_abs)
  have small: "\<bar>of_int (frame_count job)\<bar> \<le> (2 ^ 53 :: rat)" "\<bar>of_int (next_attempt_ms job)\<bar> \<le> (2 ^ 53 :: rat)"
    using assms by (auto simp: storable_def job_wf_def RQ_MAX_FRAMES_def intro!: exact)
  have state: "\<bar>of_nat (state_num (job_state job))\<bar> \<le> (2 ^ 53 :: rat)"
    by (cases "job_state job") (simp_all add: state_num_def rq_states_def)
  show ?thesis using assms byte count small state
    by (simp add: record_tree_def list_all_iff RQ_FORMAT_VERSION_def storable_def state_name_text)
qed

lemma kept_error: "kept n (job\<lparr>last_error := take k (last_error job)\<rparr>) = kept (min n k) job"
  by (simp add: kept_def rq_job_has_slots_def positions_def take_take)

lemma storable_trimmed: "storable job \<Longrightarrow> storable (job\<lparr>last_error := take k (last_error job)\<rparr>)"
  by (auto simp: storable_def job_wf_def rq_job_has_slots_def job_cams_def cameras_def positions_def dest: in_set_takeD)

lemma decode_tree:
  assumes "cjson_ok lib" and "storable job" and "cj_parse lib t = Some (record_tree job)" and "t \<noteq> []" and "length t \<le> UPLOAD_STORE_MAX_BYTES"
  shows "upload_store_decode lib t (uuid job) = Some (kept RQ_ERROR_LEN job)"
  using assms(3-) read_fields_record [OF assms(2,1)] state_num_back(2) [of "job_state job"]
  by (simp add: upload_store_decode_def record_members [OF assms(1)] RQ_FORMAT_VERSION_def del: state_num_back(2))

lemma raw_reads_back:
  assumes "cjson_ok lib" and "storable job" and "encode_raw lib job = Some t" and "length t \<le> UPLOAD_STORE_MAX_BYTES"
  shows "upload_store_decode lib t (uuid job) = Some (kept RQ_ERROR_LEN job)"
proof (rule decode_tree [OF assms(1,2)])
  have "t \<noteq> [] \<and> cj_parse lib t = Some (record_tree job)"
    using record_tree_flat [OF assms(2)] assms(1,3) by (fastforce simp: cjson_ok_def encode_raw_def)
  then show "t \<noteq> []" "cj_parse lib t = Some (record_tree job)" by simp_all
qed (rule assms)

lemma shorten_loop_text:
  assumes "shorten_loop lib job n t = Some t'" and "encode_raw lib job = Some t"
  shows "\<exists>k. encode_raw lib (job\<lparr>last_error := take k (last_error job)\<rparr>) = Some t' \<and>
    (length t' \<le> UPLOAD_STORE_MAX_BYTES \<or> n = 0 \<or> k = 0)"
  using assms
proof (induction lib job n t rule: shorten_loop.induct)
  case (1 lib job n t)
  show ?case
  proof (cases "length t > UPLOAD_STORE_MAX_BYTES \<and> n > 0")
    case True
    let ?j = "job\<lparr>last_error := take (n div 2) (last_error job)\<rparr>"
    obtain t1 where t1: "encode_raw lib ?j = Some t1" "shorten_loop lib ?j (n div 2) t1 = Some t'"
      using 1(2) True by (subst (asm) shorten_loop.simps) (auto simp: Let_def split: option.splits)
    then obtain k where k: "encode_raw lib (?j\<lparr>last_error := take k (last_error ?j)\<rparr>) = Some t'"
        "length t' \<le> UPLOAD_STORE_MAX_BYTES \<or> n div 2 = 0 \<or> k = 0"
      using 1(1) [OF True refl refl t1(1) t1(2) t1(1)] by blast
    then show ?thesis by (intro exI [of _ "min k (n div 2)"]) (auto simp: take_take min.commute)
  next
    case False
    then have "t' = t" using 1(2) by (auto simp: shorten_loop.simps [of lib job n t] split: if_splits)
    then show ?thesis using 1(3) False by (intro exI [of _ "length (last_error job)"]) auto
  qed
qed

lemma encode_text:
  assumes "upload_store_encode lib job = Some t"
  shows "\<exists>k. encode_raw lib (job\<lparr>last_error := take k (last_error job)\<rparr>) = Some t \<and> (length t \<le> UPLOAD_STORE_MAX_BYTES \<or> k = 0) \<and>
    (k < length (last_error job) \<longrightarrow> (\<exists>s. encode_raw lib job = Some s \<and> length s > UPLOAD_STORE_MAX_BYTES))"
proof -
  obtain s where s: "encode_raw lib job = Some s" using assms by (auto simp: upload_store_encode_def split: option.splits)
  show ?thesis
  proof (cases "length s \<le> UPLOAD_STORE_MAX_BYTES")
    case True
    then show ?thesis using assms s by (intro exI [of _ "length (last_error job)"]) (simp add: upload_store_encode_def)
  next
    case False
    then have "shorten_loop lib job (RQ_ERROR_LEN - 1) s = Some t" using assms s by (simp add: upload_store_encode_def)
    from shorten_loop_text [OF this s] show ?thesis using s False by (auto simp: RQ_ERROR_LEN_def)
  qed
qed

text \<open>A directory whose metadata names the Roll and whose card reads.\<close>

definition readable :: "cjson \<Rightarrow> string \<Rightarrow> capture_dir \<Rightarrow> bool" where
  "readable lib roll d \<longleftrightarrow> roll \<noteq> [] \<and> upload_store_meta_roll lib d RQ_CAPTURE_ID_LEN = UPLOAD_META_ROLL_OK roll \<and>
     \<not> stuck d UPLOAD_STORE_RECORD \<and> \<not> torn d UPLOAD_STORE_RECORD"

section \<open>A card to try it on\<close>

definition sample_job :: rq_job where
  "sample_job = \<lparr>uuid = ''8f2e'', capture_id = ''cap_7'', roll_id = ''roll_3'', job_state = RQ_RETRY_WAIT, frame_count = 2,
     thumb_present = True, thumb_done = True, frame_slot = [1, 3, 0, 0, 0, 0, 0, 0],
     frame_done = [True, False, False, False, False, False, False, False], attempts = 2, reread_attempts = 0,
     next_attempt_ms = 1500, last_error = ''timeout''\<rparr>"

text \<open>The same capture in a record of an older release, parked.\<close>

definition sample_old :: rq_job where
  "sample_old = sample_job\<lparr>job_state := RQ_FAILED, frame_slot := replicate 8 0, frame_done := replicate 8 False, attempts := RQ_MAX_ATTEMPTS\<rparr>"

definition sample_text :: string where
  "sample_text = ''{\"formatVersion\":1,\"captureUuid\":\"8f2e\",\"captureId\":\"cap_7\",\"rollId\":\"roll_3\",\"state\":7,\"stateName\":\"RETRY_WAIT\",\"frameCount\":2,\"thumbPresent\":true,\"thumbDone\":true,\"frameSlots\":[1,3],\"frameDone\":[true,false],\"attempts\":2,\"rereadAttempts\":0,\"nextAttemptMs\":1500,\"lastError\":\"timeout\"}''"

definition sample_old_text :: string where
  "sample_old_text = ''{\"formatVersion\":1,\"captureUuid\":\"8f2e\",\"captureId\":\"cap_7\",\"rollId\":\"roll_3\",\"state\":8,\"stateName\":\"FAILED\",\"frameCount\":2,\"thumbPresent\":true,\"thumbDone\":true,\"frameDone\":[false,false],\"attempts\":12,\"rereadAttempts\":0,\"nextAttemptMs\":1500,\"lastError\":\"timeout\"}''"

definition sample_meta :: string where
  "sample_meta = ''{\"rollId\":\"roll_3\",\"frameCount\":2,\"frames\":[{\"cam\":\"cam1\",\"file\":\"C1.JPG\"},{\"cam\":\"cam3\",\"file\":\"C3.JPG\"}]}''"

definition sample_meta_tree :: json_value where
  "sample_meta_tree = JObj [(''rollId'', JStr ''roll_3''), (''frameCount'', JNum 2), (''frames'', JArr
     [JObj [(''cam'', JStr ''cam1''), (''file'', JStr ''C1.JPG'')], JObj [(''cam'', JStr ''cam3''), (''file'', JStr ''C3.JPG'')]])]"

text \<open>A printer with memory for the one document only, and a parser of these three.\<close>

definition sample_lib :: cjson where
  "sample_lib = \<lparr>cj_print = (\<lambda>j. if j = record_tree sample_job then Some sample_text else None),
     cj_parse = (\<lambda>t. if t = sample_text then Some (record_tree sample_job) else if t = sample_old_text then Some (record_tree sample_old)
       else if t = sample_meta then Some sample_meta_tree else None),
     cj_item = (\<lambda>j. case j of JObj kvs \<Rightarrow> member_of kvs | _ \<Rightarrow> (\<lambda>key. None))\<rparr>"

definition sample_dir :: "string option \<Rightarrow> capture_dir" where
  "sample_dir record_text = \<lparr>files = [''META.JSON'' \<mapsto> sample_meta, ''C1.JPG'' \<mapsto> ''jpeg''](UPLOAD_STORE_RECORD := record_text),
     stuck = (\<lambda>_. False), torn = (\<lambda>_. False), memory = True\<rparr>"

lemma sample_texts_differ [simp]: "sample_text \<noteq> []" "sample_old_text \<noteq> []" "sample_text \<noteq> sample_old_text" "sample_old_text \<noteq> sample_text"
  "sample_meta \<noteq> sample_text" "sample_meta \<noteq> sample_old_text"
  by (simp_all add: sample_text_def sample_old_text_def sample_meta_def)

lemma sample_reads: "cjson_ok sample_lib"
  by (auto simp: cjson_ok_def sample_lib_def split: if_splits)

lemma sample_lengths [simp]: "length sample_text \<le> UPLOAD_STORE_MAX_BYTES" "length sample_old_text \<le> UPLOAD_STORE_MAX_BYTES"
  "length sample_meta < META_READ_MAX" "sample_meta \<noteq> []"
  by (simp_all add: sample_text_def sample_old_text_def sample_meta_def UPLOAD_STORE_MAX_BYTES_def META_READ_MAX_def)

lemma sample_storable [simp]: "storable sample_job" "storable sample_old"
  by (simp_all add: sample_old_def sample_job_def storable_def job_wf_def job_cams_def cameras_def positions_def rq_job_has_slots_def
      RQ_MAX_FRAMES_def RQ_UUID_LEN_def RQ_CAPTURE_ID_LEN_def RQ_ERROR_LEN_def upt_rec)

lemma sample_encode [simp]: "upload_store_encode sample_lib sample_job = Some sample_text"
  by (simp add: upload_store_encode_def encode_raw_def sample_lib_def)

lemma sample_meta_text: "meta_text (sample_dir r) = Some sample_meta"
  using sample_lengths(3) by (simp add: meta_text_def sample_dir_def UPLOAD_STORE_RECORD_def not_le)

lemma sample_readable: "readable sample_lib ''roll_3'' (sample_dir r)"
  by (simp add: readable_def upload_store_meta_roll_def sample_meta_text upload_store_meta_roll_from_text_def sample_lib_def
      sample_meta_tree_def member_of_def RQ_CAPTURE_ID_LEN_def) (simp add: sample_dir_def)



section \<open>Saving and looking\<close>

text \<open>Two states of a directory that differ in the record and its temporary file only.\<close>

definition same_capture :: "capture_dir \<Rightarrow> capture_dir \<Rightarrow> bool" where
  "same_capture d e \<longleftrightarrow> stuck e = stuck d \<and> torn e = torn d \<and> memory e = memory d \<and>
     (\<forall>n. n \<noteq> UPLOAD_STORE_RECORD \<and> n \<noteq> UPLOAD_STORE_TEMP \<longrightarrow> files e n = files d n)"

lemmas store_names = UPLOAD_STORE_RECORD_def UPLOAD_STORE_TEMP_def

lemma same_capture_meta:
  assumes "same_capture d e"
  shows "meta_text e = meta_text d" "upload_store_has_file e ''META.JSON'' = upload_store_has_file d ''META.JSON''"
    "upload_store_has_file e ''THUMB.JPG'' = upload_store_has_file d ''THUMB.JPG''"
    "upload_store_has_file e (frame_file n) = upload_store_has_file d (frame_file n)"
  using assms by (auto simp: same_capture_def meta_text_def upload_store_has_file_def frame_file_def store_names split: option.splits)

lemma same_capture_reads:
  assumes "same_capture d e"
  shows "upload_store_meta_roll lib e = upload_store_meta_roll lib d" "fresh_from_meta lib e = fresh_from_meta lib d"
    "adopt_from_meta lib e = adopt_from_meta lib d"
proof -
  note same = same_capture_meta [OF assms]
  have fr: "frames_from_meta lib e = frames_from_meta lib d"
    unfolding frames_from_meta_def upload_store_meta_frames_def same ..
  show "upload_store_meta_roll lib e = upload_store_meta_roll lib d" unfolding upload_store_meta_roll_def same ..
  show "fresh_from_meta lib e = fresh_from_meta lib d" unfolding fresh_from_meta_def fr same ..
  show "adopt_from_meta lib e = adopt_from_meta lib d" unfolding adopt_from_meta_def fr ..
qed

lemma inspect_same:
  assumes "same_capture d e" and "upload_store_load lib u e = upload_store_load lib u d"
  shows "upload_store_inspect_ex lib e u m out = upload_store_inspect_ex lib d u m out"
  unfolding upload_store_inspect_ex_def same_capture_meta [OF assms(1)] same_capture_reads [OF assms(1)] assms(2) ..

lemma save_states_same:
  assumes "e \<in> set (snd (save_states i t d))"
  shows "same_capture d e \<and> files e UPLOAD_STORE_RECORD \<in> {files d UPLOAD_STORE_RECORD, None, Some t}"
  using assms by (auto simp: save_states_def same_capture_def put_file_def unlink_def rename_def store_names Let_def split: if_splits)

lemma save_states_last:
  assumes "fst (save_states i t d)"
  shows "files (last (snd (save_states i t d))) UPLOAD_STORE_RECORD = Some t" "last (snd (save_states i t d)) \<in> set (snd (save_states i t d))"
  using assms by (auto simp: save_states_def put_file_def unlink_def rename_def store_names Let_def split: if_splits)

lemma readable_meta: "readable lib roll d \<Longrightarrow> upload_store_has_file d ''META.JSON''"
  by (auto simp: readable_def upload_store_meta_roll_def meta_text_def upload_store_has_file_def split: option.splits if_splits)

lemma inspect_no_record:
  assumes "readable lib roll d" and "files d UPLOAD_STORE_RECORD = None"
  shows "upload_store_inspect_ex lib d u m out = (RQ_REC_ENQUEUE, fresh_from_meta lib d u m roll, True)"
  using assms readable_meta [OF assms(1)]
  by (simp add: upload_store_inspect_ex_def readable_def upload_store_load_def rq_reconcile_action_def)

lemma inspect_record:
  assumes "readable lib (roll_id job) d" and "upload_store_load lib u d = (True, Some job)"
    and "rq_job_has_slots job" and "job_state job \<noteq> RQ_COMPLETE"
  shows "upload_store_inspect_ex lib d u m out = (RQ_REC_RESUME, rq_job_boot_resume job, False)"
proof -
  have "rq_job_has_slots (rq_job_boot_resume job)"
    using assms(3) by (simp add: rq_job_boot_resume_def rq_job_has_slots_def positions_def)
  then show ?thesis using assms readable_meta [OF assms(1)]
    by (simp add: upload_store_inspect_ex_def readable_def rq_reconcile_action_def)
qed

lemma same_capture_readable: "same_capture d e \<Longrightarrow> readable lib roll e = readable lib roll d"
  by (simp add: readable_def same_capture_reads) (simp add: same_capture_def)

lemma nth_pad_to: "i < n \<Longrightarrow> i < length xs \<Longrightarrow> pad_to n z xs ! i = xs ! i"
  by (simp add: pad_to_def nth_append)

lemma length_pad_to [simp]: "length (pad_to n z xs) = n"
  by (simp add: pad_to_def)

lemma kept_positions:
  assumes "i \<in> set (positions job)"
  shows "frame_done (kept k job) ! i = frame_done job ! i" "rq_job_has_slots job \<Longrightarrow> frame_slot (kept k job) ! i = frame_slot job ! i"
  using assms by (simp_all add: kept_def nth_pad_to positions_def)

lemma kept_fields [simp]:
  "uuid (kept k job) = uuid job" "roll_id (kept k job) = roll_id job" "capture_id (kept k job) = capture_id job"
  "job_state (kept k job) = job_state job" "frame_count (kept k job) = frame_count job" "positions (kept k job) = positions job"
  "attempts (kept k job) = attempts job" "reread_attempts (kept k job) = reread_attempts job"
  by (simp_all add: kept_def positions_def)

lemma kept_has_slots [simp]: "rq_job_has_slots job \<Longrightarrow> rq_job_has_slots (kept k job)"
  using kept_positions(2) [of _ job k] by (simp add: rq_job_has_slots_def list_all_iff)

lemma kept_job_ok:
  assumes "job_ok job"
  shows "job_ok (kept k job)"
proof -
  have s: "rq_job_has_slots job"
    using assms by (force simp: job_inv_defs rq_job_has_slots_def cameras_def list_all_iff)
  have "cameras (kept k job) = cameras job" using kept_positions(2) [OF _ s] by (simp add: cameras_def)
  then show ?thesis using assms by (auto simp: job_inv_defs) (simp_all add: kept_def)
qed



section \<open>A pass over a card of the queue's own records\<close>

text \<open>The pass of the worker over a card given by its directories.\<close>

definition card_scan :: "cjson \<Rightarrow> nat \<Rightarrow> rq_job \<Rightarrow> (string \<Rightarrow> capture_dir) \<Rightarrow> scan_env \<Rightarrow> scan_env" where
  "card_scan lib max_frames out dirs env = env\<lparr>inspect := (\<lambda>u. upload_store_inspect_ex lib (dirs u) u max_frames out)\<rparr>"

definition own_records :: "cjson \<Rightarrow> (string \<Rightarrow> capture_dir) \<Rightarrow> bool" where
  "own_records lib dirs \<longleftrightarrow> (\<forall>u. upload_store_has_file (dirs u) ''META.JSON'' \<longrightarrow> length u < RQ_UUID_LEN) \<and>
    (\<forall>u t. files (dirs u) UPLOAD_STORE_RECORD = Some t \<longrightarrow>
      (\<exists>job. storable job \<and> job_ok job \<and> uuid job = u \<and> upload_store_encode lib job = Some t))"

lemma own_load:
  assumes "cjson_ok lib" and "own_records lib dirs" and "upload_store_load lib u (dirs u) = (h, Some j)"
  shows "job_ok j \<and> uuid j = u"
proof -
  obtain t where t: "files (dirs u) UPLOAD_STORE_RECORD = Some t" "upload_store_decode lib (take (UPLOAD_STORE_MAX_BYTES + 1) t) u = Some j"
    using assms(3) by (auto simp: upload_store_load_def split: option.splits if_splits)
  then obtain job where job: "storable job" "job_ok job" "uuid job = u" "upload_store_encode lib job = Some t"
    using assms(2) unfolding own_records_def by blast
  then obtain k where k: "encode_raw lib (job\<lparr>last_error := take k (last_error job)\<rparr>) = Some t" using encode_text by blast
  have len: "length t \<le> UPLOAD_STORE_MAX_BYTES" using t(2) by (auto simp: upload_store_decode_def split: if_splits)
  then have "j = kept (min RQ_ERROR_LEN k) job"
    using t(2) raw_reads_back [OF assms(1) storable_trimmed [OF job(1)] k len] job(3) by (simp add: kept_error)
  then show ?thesis using kept_job_ok [OF job(2)] job(3) by simp
qed

lemma park_job_ok: "job_ok job \<Longrightarrow> job_ok (park_job why job)"
  by (auto simp: park_job_def job_inv_defs cameras_def positions_def)

lemma park_job_fields [simp]: "uuid (park_job why job) = uuid job" "job_state (park_job why job) = RQ_FAILED"
  by (simp_all add: park_job_def)

lemma init_slots_fields:
  "length u < RQ_UUID_LEN \<Longrightarrow> uuid (snd (rq_job_init_slots (Some u) r sl n th)) = u"
  "job_state (snd (rq_job_init_slots u' r sl n th)) = RQ_QUEUED"
  by (simp_all add: rq_job_init_slots_def init_common_def strcopy_fits Let_def)

lemma init_no_slots_ok: "job_ok (snd (rq_job_init_slots u r None 0 th))"
  by (simp add: rq_job_init_slots_def init_common_def rq_slots_valid_def job_inv_defs cameras_def positions_def RQ_MAX_ATTEMPTS_def)

lemma fresh_ok:
  assumes "length u < RQ_UUID_LEN"
  shows "uuid (fresh_from_meta lib d u m r) = u \<and> job_ok (fresh_from_meta lib d u m r) \<and> job_state (fresh_from_meta lib d u m r) \<noteq> RQ_COMPLETE"
proof (cases "frames_from_meta lib d m")
  case (Inl e)
  then show ?thesis using assms by (simp add: fresh_from_meta_def init_slots_fields init_no_slots_ok park_job_ok)
next
  case (Inr slots)
  obtain ok j where j: "rq_job_init_slots (Some u) (Some r) (Some slots) (int (length slots)) (upload_store_has_file d ''THUMB.JPG'') = (ok, j)"
    by fastforce
  then have "job_ok j" "uuid j = u" "job_state j = RQ_QUEUED"
    using init_slots_ok [of slots "int (length slots)" "Some u" "Some r" "upload_store_has_file d ''THUMB.JPG''"]
      init_slots_fields(1) [OF assms, of "Some r" "Some slots"] init_slots_fields(2) [of "Some u" "Some r" "Some slots"] by (metis nat_int snd_conv)+
  then show ?thesis using Inr j assms
    by (cases ok) (simp_all add: fresh_from_meta_def init_slots_fields init_no_slots_ok park_job_ok)
qed

lemma retire_ok:
  assumes "length u < RQ_UUID_LEN" and "\<And>j. loaded = Some j \<Longrightarrow> job_ok j \<and> uuid j = u"
  shows "uuid (retire u r loaded) = u \<and> job_ok (retire u r loaded) \<and> job_state (retire u r loaded) \<noteq> RQ_COMPLETE"
proof (cases loaded)
  case None
  have "job_ok (rq_job_init (Some u) (Some []) 0 False)"
    by (simp add: rq_job_init_def init_common_def job_inv_defs cameras_def positions_def RQ_MAX_ATTEMPTS_def)
  then show ?thesis using None assms(1)
    by (auto simp: retire_def rq_job_init_def init_common_def strcopy_fits job_inv_defs cameras_def positions_def)
next
  case (Some j)
  then show ?thesis using assms(2) by (auto simp: retire_def job_inv_defs cameras_def positions_def)
qed

lemma boot_resume_ok: "job_ok j \<Longrightarrow> job_ok (rq_job_boot_resume j)"
  by (auto simp: rq_job_boot_resume_def job_inv_defs cameras_def positions_def)

lemma job_ok_has_slots: "job_ok j \<Longrightarrow> rq_job_has_slots j"
  by (force simp: job_inv_defs rq_job_has_slots_def cameras_def list_all_iff)



section \<open>Parked without cameras, welcomed without cameras\<close>

lemma slotless_fields:
  assumes "frame_count j > 0" and "frame_slot j ! 0 = 0"
  shows "\<not> rq_job_has_slots j"
  using assms by (auto simp: rq_job_has_slots_def positions_def list_all_iff RQ_MAX_FRAMES_def intro!: bexI [of _ 0])

lemma slotless_revived_step:
  assumes "capture_id j \<noteq> []" and "\<not> thumb_present j \<or> thumb_done j" and "0 < frame_count j" and "\<not> frame_done j ! 0" and "frame_slot j ! 0 = 0" and "0 \<le> now"
  shows "kind (rq_next_step (rq_job_revive j) now) = RQ_STEP_COMPLETE_CAPTURE"
proof -
  have "positions j = 0 # [1..<min (nat (frame_count j)) RQ_MAX_FRAMES]"
    using assms(3) by (simp add: positions_def upt_conv_Cons RQ_MAX_FRAMES_def)
  then have "first_pending_frame (rq_job_revive j) = 0"
    using assms(4,5) by (simp add: first_pending_frame_def rq_job_revive_def positions_def)
  then show ?thesis using assms by (auto simp: rq_next_step_def rq_job_revive_def rq_retry_due_def)
qed

text \<open>
  C39: A record from before camera lists, parked after its last attempt, whose metadata gives no usable list, is parked once more, with its attempts
  left as they were. The park therefore still counts as one the network caused, and the next revival of such parks makes a job of it whose next
  step asks the service to complete the capture, although its first frame has never been confirmed.
\<close>

theorem slotless_park_is_revived:
  assumes "readable lib (roll_id j) d" and "upload_store_load lib u d = (True, Some j)"
    and "frames_from_meta lib d m = Inl e" and "job_state j = RQ_FAILED" and "attempts j \<ge> RQ_MAX_ATTEMPTS"
    and "reread_attempts j \<le> RQ_MAX_REREADS" and "capture_id j \<noteq> []" and "\<not> thumb_present j \<or> thumb_done j"
    and "0 < frame_count j" and "\<not> frame_done j ! 0" and "frame_slot j ! 0 = 0" and "0 \<le> now"
  shows "\<exists>k. upload_store_inspect_ex lib d u m out = (RQ_REC_RESUME, k, True) \<and> last_error k = meta_frames_reason e \<and>
    rq_park_is_transient k \<and> kind (rq_next_step (rq_job_revive k) now) = RQ_STEP_COMPLETE_CAPTURE"
proof -
  let ?k = "park_job (meta_frames_reason e) j"
  have "upload_store_inspect_ex lib d u m out = (RQ_REC_RESUME, ?k, True)"
    using assms readable_meta [OF assms(1)] slotless_fields [of j]
    by (simp add: upload_store_inspect_ex_def readable_def rq_reconcile_action_def rq_job_boot_resume_def adopt_from_meta_def)
  moreover have "last_error ?k = meta_frames_reason e" by (cases e) (simp_all add: park_job_def meta_frames_reason_def RQ_ERROR_LEN_def)
  moreover have "rq_park_is_transient ?k" using assms(5,6) by (simp add: rq_park_is_transient_def park_job_def)
  moreover have "kind (rq_next_step (rq_job_revive ?k) now) = RQ_STEP_COMPLETE_CAPTURE"
    using assms(7-12) by (intro slotless_revived_step) (simp_all add: park_job_def)
  ultimately show ?thesis by blast
qed

lemma sample_old_loads: "upload_store_load sample_lib (uuid sample_old) (sample_dir (Some sample_old_text)) = (True, Some (kept RQ_ERROR_LEN sample_old))"
proof -
  have "upload_store_decode sample_lib sample_old_text (uuid sample_old) = Some (kept RQ_ERROR_LEN sample_old)"
    by (rule decode_tree [OF sample_reads]) (simp_all, simp_all add: sample_lib_def)
  moreover have "take (Suc UPLOAD_STORE_MAX_BYTES) sample_old_text = sample_old_text"
    by (intro take_all le_SucI sample_lengths)
  ultimately show ?thesis by (simp add: upload_store_load_def sample_dir_def)
qed

theorem slotless_park_is_revived_witness:
  "\<exists>k. upload_store_inspect_ex sample_lib (sample_dir (Some sample_old_text)) (uuid sample_old) 4 sample_job = (RQ_REC_RESUME, k, True) \<and>
    last_error k = meta_frames_reason UPLOAD_META_FRAMES_FILE \<and>
    rq_park_is_transient k \<and> kind (rq_next_step (rq_job_revive k) 60000) = RQ_STEP_COMPLETE_CAPTURE"
proof (rule slotless_park_is_revived [OF _ sample_old_loads])
  show "readable sample_lib (roll_id (kept RQ_ERROR_LEN sample_old)) (sample_dir (Some sample_old_text))"
    using sample_readable by (simp add: sample_old_def sample_job_def)
  show "frames_from_meta sample_lib (sample_dir (Some sample_old_text)) 4 = Inl UPLOAD_META_FRAMES_FILE"
    by code_simp
qed (simp_all add: sample_old_def sample_job_def kept_def positions_def rq_job_has_slots_def pad_to_def RQ_MAX_FRAMES_def RQ_MAX_REREADS_def upt_rec)

declare of_int_uint [simp] word_of_int_uint [simp del]

end
