(* ===== verification/Wifi_Creds.thy ===== *)
theory Wifi_Creds
  imports Net_Link Pure_Text
begin

text \<open>
  The saved networks, \<^verbatim>\<open>firmware/p4/main/wifi_creds.c\<close>: eight slots in a flash namespace of their own, each a raw record under its key. A blob
  of another length is \<open>Misfit\<close>; the bytes of a record's strings are cut at their terminator when they are read. Whether the
  namespace opens, a write or an erasure succeeds and a commit does are inputs, and so is what is left of a write that was
  not committed; a read finds what is there. Arguments that may be NULL are options.

  The properties: through any sequence of operations, with whatever flash failures, the slots are a map from names to networks with at most
  eight entries; and no answer but the one given to the radio depends on a passphrase, save for whether there is one.
\<close>

section \<open>The code: slots\<close>

definition WIFI_CREDS_MAX :: nat where "WIFI_CREDS_MAX = 8"
definition SLOT_VERSION :: u8 where "SLOT_VERSION = 1"

record slot =
  slot_version :: u8
  slot_security :: u8
  slot_auto_join :: u8
  slot_connected_ms :: int
  slot_ssid :: string
  slot_passphrase :: string

datatype blob = Slot slot | Misfit

type_synonym namespace = "string \<Rightarrow> blob option"

record creds =
  creds_ready :: bool
  creds_ns :: namespace

datatype creds_err =
  CREDS_OK | CREDS_INVALID_ARG | CREDS_INVALID_STATE | CREDS_NO_MEM | CREDS_NOT_FOUND | CREDS_FLASH

record nvs_in =
  ns_opens :: bool
  ns_writes :: bool
  ns_commits :: bool
  ns_sticks :: bool

definition slot_key :: "nat \<Rightarrow> string" where
  "slot_key index = ''n'' @ dec index"

definition c_string :: "nat \<Rightarrow> string \<Rightarrow> string" where
  "c_string cap s = takeWhile (\<lambda>c. c \<noteq> CHR 0x00) (take (cap - 1) s)"

definition slot_read :: "namespace \<Rightarrow> nat \<Rightarrow> slot option" where
  "slot_read ns index =
    (case ns (slot_key index) of
       Some (Slot raw) \<Rightarrow>
         if slot_version raw \<noteq> SLOT_VERSION then None
         else let out = raw\<lparr>slot_ssid := c_string NET_SSID_LEN (slot_ssid raw),
                            slot_passphrase := c_string (PURE_WPA_PASSPHRASE_MAX + 1) (slot_passphrase raw)\<rparr>
           in if slot_ssid out = [] then None else Some out
     | _ \<Rightarrow> None)"

text \<open>A change of the namespace and its commit.\<close>

definition nvs_change :: "nvs_in \<Rightarrow> namespace \<Rightarrow> namespace \<Rightarrow> creds_err \<times> namespace" where
  "nvs_change i ns' ns =
    (if \<not> ns_writes i then (CREDS_FLASH, ns)
     else if ns_commits i then (CREDS_OK, ns')
     else (CREDS_FLASH, if ns_sticks i then ns' else ns))"

definition slot_write :: "nvs_in \<Rightarrow> nat \<Rightarrow> slot \<Rightarrow> namespace \<Rightarrow> creds_err \<times> namespace" where
  "slot_write i index sl ns = nvs_change i (ns(slot_key index := Some (Slot sl))) ns"

definition slot_holds :: "namespace \<Rightarrow> string \<Rightarrow> nat \<Rightarrow> bool" where
  "slot_holds ns name index = (case slot_read ns index of None \<Rightarrow> False | Some sl \<Rightarrow> slot_ssid sl = name)"

definition slot_find :: "namespace \<Rightarrow> string \<Rightarrow> nat option \<times> nat option" where
  "slot_find ns name =
    (find (slot_holds ns name) [0..<WIFI_CREDS_MAX], find (\<lambda>i. slot_read ns i = None) [0..<WIFI_CREDS_MAX])"

definition open_ns :: "nvs_in \<Rightarrow> creds \<Rightarrow> creds_err" where
  "open_ns i c = (if \<not> creds_ready c then CREDS_INVALID_STATE else if ns_opens i then CREDS_OK else CREDS_FLASH)"

section \<open>The code: the interface\<close>

definition wifi_creds_init :: "nvs_in \<Rightarrow> creds \<Rightarrow> creds_err \<times> creds" where
  "wifi_creds_init i c = (if ns_opens i then (CREDS_OK, c\<lparr>creds_ready := True\<rparr>) else (CREDS_FLASH, c))"

definition zero_slot :: slot where
  "zero_slot = \<lparr>slot_version = 0, slot_security = 0, slot_auto_join = 0, slot_connected_ms = 0, slot_ssid = [], slot_passphrase = []\<rparr>"

definition security_num :: "net_security \<Rightarrow> u8" where
  "security_num sec = (case sec of NET_SEC_OPEN \<Rightarrow> 0 | NET_SEC_WPA2 \<Rightarrow> 1 | NET_SEC_WPA3 \<Rightarrow> 2)"

text \<open>The record that is written, from the one that was there.\<close>

definition edit_slot :: "string \<Rightarrow> string option \<Rightarrow> net_security \<Rightarrow> bool \<Rightarrow> slot \<Rightarrow> slot" where
  "edit_slot name passphrase sec auto_join sl =
    sl\<lparr>slot_version := SLOT_VERSION, slot_security := security_num sec, slot_auto_join := (if auto_join then 1 else 0),
       slot_ssid := take (NET_SSID_LEN - 1) name,
       slot_passphrase :=
         (if sec = NET_SEC_OPEN then []
          else case passphrase of Some p \<Rightarrow> if p \<noteq> [] then take PURE_WPA_PASSPHRASE_MAX p else slot_passphrase sl
            | None \<Rightarrow> slot_passphrase sl)\<rparr>"

definition wifi_creds_set ::
  "nvs_in \<Rightarrow> string option \<Rightarrow> string option \<Rightarrow> net_security \<Rightarrow> bool \<Rightarrow> creds \<Rightarrow> creds_err \<times> creds" where
  "wifi_creds_set i ssid0 passphrase sec auto_join c =
    (case ssid0 of None \<Rightarrow> (CREDS_INVALID_ARG, c)
     | Some name \<Rightarrow>
       if \<not> pure_wifi_ssid_valid (Some name) then (CREDS_INVALID_ARG, c)
       else if open_ns i c \<noteq> CREDS_OK then (open_ns i c, c)
       else (case slot_find (creds_ns c) name of
           (Some index, _) \<Rightarrow>
             (case slot_write i index (edit_slot name passphrase sec auto_join
                (case slot_read (creds_ns c) index of Some sl \<Rightarrow> sl | None \<Rightarrow> zero_slot)) (creds_ns c) of
              (err, ns) \<Rightarrow> (err, c\<lparr>creds_ns := ns\<rparr>))
         | (None, None) \<Rightarrow> (CREDS_NO_MEM, c)
         | (None, Some index) \<Rightarrow>
             (case slot_write i index (edit_slot name passphrase sec auto_join zero_slot) (creds_ns c) of
              (err, ns) \<Rightarrow> (err, c\<lparr>creds_ns := ns\<rparr>))))"

definition wifi_creds_delete :: "nvs_in \<Rightarrow> string option \<Rightarrow> creds \<Rightarrow> creds_err \<times> creds" where
  "wifi_creds_delete i ssid0 c =
    (case ssid0 of None \<Rightarrow> (CREDS_INVALID_ARG, c)
     | Some name \<Rightarrow>
       if open_ns i c \<noteq> CREDS_OK then (open_ns i c, c)
       else (case fst (slot_find (creds_ns c) name) of
           None \<Rightarrow> (CREDS_NOT_FOUND, c)
         | Some index \<Rightarrow>
             (case nvs_change i ((creds_ns c)(slot_key index := None)) (creds_ns c) of (err, ns) \<Rightarrow> (err, c\<lparr>creds_ns := ns\<rparr>))))"

record wifi_cred_view =
  view_ssid :: string
  view_has_password :: bool
  view_security :: u8
  view_auto_join :: bool
  view_connected_ms :: int

definition view_of :: "slot \<Rightarrow> wifi_cred_view" where
  "view_of sl = \<lparr>view_ssid = slot_ssid sl, view_has_password = (slot_passphrase sl \<noteq> []), view_security = slot_security sl,
     view_auto_join = (slot_auto_join sl \<noteq> 0), view_connected_ms = slot_connected_ms sl\<rparr>"

text \<open>What a walk over the slots meets, in their order.\<close>

definition readable_slots :: "namespace \<Rightarrow> slot list" where
  "readable_slots ns = List.map_filter (slot_read ns) [0..<WIFI_CREDS_MAX]"

definition wifi_creds_list :: "nvs_in \<Rightarrow> nat \<Rightarrow> creds \<Rightarrow> wifi_cred_view list" where
  "wifi_creds_list i cap c = (if open_ns i c \<noteq> CREDS_OK then [] else take cap (map view_of (readable_slots (creds_ns c))))"

definition wifi_creds_count :: "nvs_in \<Rightarrow> creds \<Rightarrow> nat" where
  "wifi_creds_count i c = (if open_ns i c \<noteq> CREDS_OK then 0 else length (readable_slots (creds_ns c)))"

definition wifi_creds_has_password :: "nvs_in \<Rightarrow> string option \<Rightarrow> creds \<Rightarrow> bool" where
  "wifi_creds_has_password i ssid0 c =
    (case ssid0 of None \<Rightarrow> False
     | Some name \<Rightarrow> open_ns i c = CREDS_OK \<and>
         (case find (\<lambda>sl. slot_ssid sl = name) (readable_slots (creds_ns c)) of None \<Rightarrow> False | Some sl \<Rightarrow> slot_passphrase sl \<noteq> []))"

definition wifi_creds_mark_connected :: "nvs_in \<Rightarrow> string option \<Rightarrow> int \<Rightarrow> creds \<Rightarrow> creds" where
  "wifi_creds_mark_connected i ssid0 epoch_ms c =
    (case ssid0 of None \<Rightarrow> c
     | Some name \<Rightarrow>
       if open_ns i c \<noteq> CREDS_OK then c
       else (case fst (slot_find (creds_ns c) name) of None \<Rightarrow> c
         | Some index \<Rightarrow> (case slot_read (creds_ns c) index of None \<Rightarrow> c
             | Some sl \<Rightarrow> c\<lparr>creds_ns := snd (slot_write i index (sl\<lparr>slot_connected_ms := epoch_ms\<rparr>) (creds_ns c))\<rparr>)))"

fun best_target :: "int \<Rightarrow> string option \<Rightarrow> slot list \<Rightarrow> string option" where
  "best_target best found [] = found"
| "best_target best found (sl # sls) =
    (if slot_auto_join sl = 0 then best_target best found sls
     else if slot_connected_ms sl > best then best_target (slot_connected_ms sl) (Some (slot_ssid sl)) sls
     else best_target best found sls)"

definition wifi_creds_auto_join_target :: "nvs_in \<Rightarrow> nat \<Rightarrow> creds \<Rightarrow> string option" where
  "wifi_creds_auto_join_target i cap c =
    (if cap = 0 \<or> open_ns i c \<noteq> CREDS_OK then None
     else map_option (take (cap - 1)) (best_target (- 1) None (readable_slots (creds_ns c))))"

text \<open>The radio driver is the argument \<open>sink\<close>.\<close>

definition wifi_creds_apply_to ::
  "nvs_in \<Rightarrow> string option \<Rightarrow> (string \<Rightarrow> string \<Rightarrow> u8 \<Rightarrow> creds_err) \<Rightarrow> creds \<Rightarrow> creds_err" where
  "wifi_creds_apply_to i ssid0 sink c =
    (case ssid0 of None \<Rightarrow> CREDS_INVALID_ARG
     | Some name \<Rightarrow>
       if open_ns i c \<noteq> CREDS_OK then open_ns i c
       else (case find (\<lambda>sl. slot_ssid sl = name) (readable_slots (creds_ns c)) of
           None \<Rightarrow> CREDS_NOT_FOUND
         | Some sl \<Rightarrow> sink (slot_ssid sl) (slot_passphrase sl) (slot_security sl)))"

definition wifi_creds_erase_all :: "nvs_in \<Rightarrow> creds \<Rightarrow> creds_err \<times> creds" where
  "wifi_creds_erase_all i c =
    (if open_ns i c \<noteq> CREDS_OK then (open_ns i c, c)
     else case nvs_change i (\<lambda>_. None) (creds_ns c) of (err, ns) \<Rightarrow> (err, c\<lparr>creds_ns := ns\<rparr>))"

section \<open>What the slots stand for\<close>

definition saved :: "namespace \<Rightarrow> string \<Rightarrow> slot option" where
  "saved ns name = find (\<lambda>sl. slot_ssid sl = name) (readable_slots ns)"

datatype creds_op =
  Creds_Init | Creds_Set "string option" "string option" net_security bool | Creds_Delete "string option"
  | Creds_Mark "string option" int | Creds_Erase

text \<open>An operation and its answer; the note of a connection has none.\<close>

fun creds_do :: "nvs_in \<Rightarrow> creds_op \<Rightarrow> creds \<Rightarrow> creds_err option \<times> creds" where
  "creds_do i Creds_Init c = apfst Some (wifi_creds_init i c)"
| "creds_do i (Creds_Set name p sec auto_join) c = apfst Some (wifi_creds_set i name p sec auto_join c)"
| "creds_do i (Creds_Delete name) c = apfst Some (wifi_creds_delete i name c)"
| "creds_do i (Creds_Mark name ms) c = (None, wifi_creds_mark_connected i name ms c)"
| "creds_do i Creds_Erase c = apfst Some (wifi_creds_erase_all i c)"

text \<open>The operations on a map from names to networks.\<close>

fun map_do :: "creds_op \<Rightarrow> (string \<Rightarrow> slot option) \<Rightarrow> creds_err option \<times> (string \<Rightarrow> slot option)" where
  "map_do Creds_Init m = (Some CREDS_OK, m)"
| "map_do (Creds_Set name p sec auto_join) m =
    (if \<not> pure_wifi_ssid_valid name then (Some CREDS_INVALID_ARG, m)
     else case m (the name) of
       Some sl \<Rightarrow> (Some CREDS_OK, m(the name \<mapsto> edit_slot (the name) p sec auto_join sl))
     | None \<Rightarrow> if card (dom m) < WIFI_CREDS_MAX then (Some CREDS_OK, m(the name \<mapsto> edit_slot (the name) p sec auto_join zero_slot))
         else (Some CREDS_NO_MEM, m))"
| "map_do (Creds_Delete name) m =
    (case name of None \<Rightarrow> (Some CREDS_INVALID_ARG, m)
     | Some x \<Rightarrow> if m x = None then (Some CREDS_NOT_FOUND, m) else (Some CREDS_OK, m(x := None)))"
| "map_do (Creds_Mark name ms) m =
    (None, case name of None \<Rightarrow> m | Some x \<Rightarrow> (case m x of None \<Rightarrow> m | Some sl \<Rightarrow> m(x \<mapsto> sl\<lparr>slot_connected_ms := ms\<rparr>)))"
| "map_do Creds_Erase m = (Some CREDS_OK, Map.empty)"

text \<open>Passphrases are C strings.\<close>

fun op_text :: "creds_op \<Rightarrow> bool" where
  "op_text (Creds_Set name (Some p) sec auto_join) \<longleftrightarrow> CHR 0x00 \<notin> set p"
| "op_text op \<longleftrightarrow> True"

text \<open>From a flash in which no slot reads, through operations with whatever failures, and reboots.\<close>

inductive creds_reach :: "creds \<Rightarrow> bool" where
  blank: "(\<forall>i < WIFI_CREDS_MAX. slot_read ns i = None) \<Longrightarrow> creds_reach \<lparr>creds_ready = False, creds_ns = ns\<rparr>"
| reboot: "creds_reach c \<Longrightarrow> creds_reach (c\<lparr>creds_ready := False\<rparr>)"
| operate: "creds_reach c \<Longrightarrow> op_text op \<Longrightarrow> creds_reach (snd (creds_do i op c))"

text \<open>No name is in two slots.\<close>

definition one_each :: "namespace \<Rightarrow> bool" where
  "one_each ns \<longleftrightarrow> (\<forall>i < WIFI_CREDS_MAX. \<forall>j < WIFI_CREDS_MAX. \<forall>a b. slot_read ns i = Some a \<and> slot_read ns j = Some b \<and>
     slot_ssid a = slot_ssid b \<longrightarrow> i = j)"

lemma slot_key_inject [simp]: "slot_key i = slot_key j \<longleftrightarrow> i = j"
  by (simp add: slot_key_def)

lemma slot_read_update: "slot_read (ns(slot_key k := b)) i = (if i = k then slot_read (\<lambda>_. b) k else slot_read ns i)"
  by (simp add: slot_read_def)

lemma slot_read_none [simp]: "slot_read (\<lambda>_. None) i = None"
  by (simp add: slot_read_def)

lemma c_string_id: "length s < cap \<Longrightarrow> CHR 0x00 \<notin> set s \<Longrightarrow> c_string cap s = s"
  by (auto simp: c_string_def takeWhile_eq_all_conv)

lemma c_string_clean: "0 < cap \<Longrightarrow> length (c_string cap s) < cap" "CHR 0x00 \<notin> set (c_string cap s)"
proof -
  show "length (c_string cap s) < cap" if "0 < cap"
    using that length_takeWhile_le [of "\<lambda>c. c \<noteq> CHR 0x00" "take (cap - 1) s"] by (auto simp: c_string_def)
  show "CHR 0x00 \<notin> set (c_string cap s)" by (auto simp: c_string_def dest: set_takeWhileD)
qed

text \<open>Slots as they come out of a read, which therefore read back.\<close>

definition clean :: "slot \<Rightarrow> bool" where
  "clean sl \<longleftrightarrow> slot_version sl = SLOT_VERSION \<and> slot_ssid sl \<noteq> [] \<and> length (slot_ssid sl) < NET_SSID_LEN \<and> CHR 0x00 \<notin> set (slot_ssid sl) \<and>
     length (slot_passphrase sl) \<le> PURE_WPA_PASSPHRASE_MAX \<and> CHR 0x00 \<notin> set (slot_passphrase sl)"

lemma slot_read_clean: "slot_read ns i = Some sl \<Longrightarrow> clean sl"
  using c_string_clean [of NET_SSID_LEN] c_string_clean [of "PURE_WPA_PASSPHRASE_MAX + 1"]
  by (auto simp: slot_read_def clean_def Let_def NET_SSID_LEN_def less_Suc_eq_le c_string_clean(2) split: option.splits blob.splits if_splits)

lemma clean_reads: "clean sl \<Longrightarrow> slot_read (\<lambda>_. Some (Slot sl)) k = Some sl"
  by (simp add: slot_read_def clean_def c_string_id)

lemma set_readable: "sl \<in> set (readable_slots ns) \<longleftrightarrow> (\<exists>i < WIFI_CREDS_MAX. slot_read ns i = Some sl)"
  by (auto simp: readable_slots_def map_filter_def image_iff)

lemma saved_iff:
  assumes "one_each ns"
  shows "saved ns name = Some sl \<longleftrightarrow> (\<exists>i < WIFI_CREDS_MAX. slot_read ns i = Some sl \<and> slot_ssid sl = name)"
proof
  assume "saved ns name = Some sl"
  then show "\<exists>i < WIFI_CREDS_MAX. slot_read ns i = Some sl \<and> slot_ssid sl = name"
    using set_readable by (fastforce simp: saved_def find_Some_iff)
next
  assume r: "\<exists>i < WIFI_CREDS_MAX. slot_read ns i = Some sl \<and> slot_ssid sl = name"
  then have "sl \<in> set (readable_slots ns)" "slot_ssid sl = name" using set_readable by blast+
  then obtain sl' where f: "saved ns name = Some sl'" by (cases "saved ns name") (auto simp: saved_def find_None_iff)
  then have "slot_ssid sl' = name" "sl' \<in> set (readable_slots ns)" by (auto simp: saved_def find_Some_iff)
  then show "saved ns name = Some sl" using r f assms set_readable unfolding one_each_def by (metis option.inject)
qed

lemma saved_none: "saved ns name = None \<longleftrightarrow> (\<forall>i < WIFI_CREDS_MAX. \<not> slot_holds ns name i)"
  by (auto simp: saved_def find_None_iff set_readable slot_holds_def split: option.splits)

lemma option_eqI: "(\<And>v. a = Some v \<longleftrightarrow> b = Some v) \<Longrightarrow> a = b"
  by (cases a; cases b) auto

lemma saved_put:
  assumes "one_each ns" and "k < WIFI_CREDS_MAX" and "clean sl" and "slot_read ns k = None \<or> slot_holds ns (slot_ssid sl) k"
    and "\<And>i. i < WIFI_CREDS_MAX \<Longrightarrow> slot_holds ns (slot_ssid sl) i \<Longrightarrow> i = k"
  shows "one_each (ns(slot_key k := Some (Slot sl)))" "saved (ns(slot_key k := Some (Slot sl))) = (saved ns)(slot_ssid sl \<mapsto> sl)"
proof -
  let ?ns = "ns(slot_key k := Some (Slot sl))"
  have read: "slot_read ?ns i = (if i = k then Some sl else slot_read ns i)" for i
    using clean_reads [OF assms(3)] by (simp add: slot_read_update)
  have other: "i = k" if "i < WIFI_CREDS_MAX" "slot_read ns i = Some a" "slot_ssid a = slot_ssid sl" for i a
    using assms(5) that by (simp add: slot_holds_def)
  show one: "one_each ?ns" unfolding one_each_def
  proof (intro allI impI)
    fix i j a b
    assume l: "i < WIFI_CREDS_MAX" "j < WIFI_CREDS_MAX" and "slot_read ?ns i = Some a \<and> slot_read ?ns j = Some b \<and> slot_ssid a = slot_ssid b"
    then show "i = j" using assms(1) other unfolding read one_each_def by (metis option.inject)
  qed
  show "saved ?ns = (saved ns)(slot_ssid sl \<mapsto> sl)"
  proof (intro ext option_eqI)
    fix x v
    show "saved ?ns x = Some v \<longleftrightarrow> ((saved ns)(slot_ssid sl \<mapsto> sl)) x = Some v"
    proof (cases "x = slot_ssid sl")
      case True
      then show ?thesis using other assms(2) by (auto simp: saved_iff [OF one] read)
    next
      case False
      have "slot_ssid a = slot_ssid sl" if "slot_read ns k = Some a" for a using assms(4) that by (simp add: slot_holds_def)
      then have "slot_read ?ns i = Some v \<and> slot_ssid v = x \<longleftrightarrow> slot_read ns i = Some v \<and> slot_ssid v = x" for i
        using False by (auto simp: read)
      then show ?thesis using False by (simp add: saved_iff [OF one] saved_iff [OF assms(1)] conj_commute)
    qed
  qed
qed

lemma saved_del:
  assumes "one_each ns" and "k < WIFI_CREDS_MAX" and "slot_holds ns name k"
  shows "one_each (ns(slot_key k := None))" "saved (ns(slot_key k := None)) = (saved ns)(name := None)"
proof -
  let ?ns = "ns(slot_key k := None)"
  have read: "slot_read ?ns i = (if i = k then None else slot_read ns i)" for i by (simp add: slot_read_update)
  obtain a where a: "slot_read ns k = Some a" "slot_ssid a = name" using assms(3) by (auto simp: slot_holds_def split: option.splits)
  show one: "one_each ?ns" using assms(1) unfolding one_each_def read by (metis option.distinct(1))
  show "saved ?ns = (saved ns)(name := None)"
  proof (intro ext option_eqI)
    fix x v
    have "i = k" if "i < WIFI_CREDS_MAX" "slot_read ns i = Some b" "slot_ssid b = name" for i b
      using assms(1,2) a that unfolding one_each_def by metis
    then have "i < WIFI_CREDS_MAX \<and> slot_read ?ns i = Some v \<and> slot_ssid v = x \<longleftrightarrow>
        i < WIFI_CREDS_MAX \<and> slot_read ns i = Some v \<and> slot_ssid v = x \<and> x \<noteq> name" for i
      using a by (auto simp: read)
    then show "saved ?ns x = Some v \<longleftrightarrow> ((saved ns)(name := None)) x = Some v"
      by (cases "x = name") (simp_all add: saved_iff [OF one] saved_iff [OF assms(1)])
  qed
qed

lemma find_upt:
  "find P [0..<n] = Some k \<Longrightarrow> k < n \<and> P k" "find P [0..<n] = None \<longleftrightarrow> (\<forall>i < n. \<not> P i)"
  by (auto simp: find_Some_iff find_None_iff)

lemma saved_at: "one_each ns \<Longrightarrow> k < WIFI_CREDS_MAX \<Longrightarrow> slot_read ns k = Some sl \<Longrightarrow> saved ns (slot_ssid sl) = Some sl"
  using saved_iff by blast

lemma room_iff:
  assumes "one_each ns"
  shows "card (dom (saved ns)) < WIFI_CREDS_MAX \<longleftrightarrow> (\<exists>i < WIFI_CREDS_MAX. slot_read ns i = None)"
proof -
  let ?R = "{i. i < WIFI_CREDS_MAX \<and> slot_read ns i \<noteq> None}" and ?f = "\<lambda>i. slot_ssid (the (slot_read ns i))"
  have "inj_on ?f ?R" using assms by (fastforce simp: inj_on_def one_each_def)
  moreover have "dom (saved ns) = ?f ` ?R" 
  proof (intro set_eqI iffI)
    fix x assume "x \<in> dom (saved ns)"
    then obtain i sl where "i < WIFI_CREDS_MAX" "slot_read ns i = Some sl" "slot_ssid sl = x" using saved_iff [OF assms] by blast
    then show "x \<in> ?f ` ?R" by (intro image_eqI [of _ _ i]) auto
  next
    fix x assume "x \<in> ?f ` ?R"
    then show "x \<in> dom (saved ns)" using saved_at [OF assms] by fastforce
  qed
  ultimately have c: "card (dom (saved ns)) = card ?R" by (simp add: card_image)
  have less: "card R < card U \<longleftrightarrow> R \<noteq> U" if "finite U" "R \<subseteq> U" for R U :: "nat set"
    using that psubset_card_mono [of U R] by auto
  have all: "{i. i < n \<and> P i} = {..<n} \<longleftrightarrow> (\<forall>i < n. P i)" for n :: nat and P by auto
  have "card (dom (saved ns)) < card {..<WIFI_CREDS_MAX} \<longleftrightarrow> ?R \<noteq> {..<WIFI_CREDS_MAX}" unfolding c by (rule less) auto
  then show ?thesis unfolding all card_lessThan by (simp only: not_all not_imp not_not conj_commute)
qed

section \<open>Every operation\<close>

lemma edit_clean:
  assumes "pure_wifi_ssid_valid (Some name)" and "op_text (Creds_Set (Some name) p sec auto_join)" and "clean sl \<or> sl = zero_slot"
  shows "clean (edit_slot name p sec auto_join sl)" "slot_ssid (edit_slot name p sec auto_join sl) = name"
proof -
  have n: "length name < NET_SSID_LEN" "name \<noteq> []" using assms(1)
    by (auto simp: pure_wifi_ssid_valid_def PURE_SSID_MAX_def NET_SSID_LEN_def split: if_splits)
  have z: "CHR 0x00 \<notin> set name" using assms(1) by (auto simp: pure_wifi_ssid_valid_def list_all_iff split: if_splits)
  show s: "slot_ssid (edit_slot name p sec auto_join sl) = name" using n by (simp add: edit_slot_def)
  show "clean (edit_slot name p sec auto_join sl)" using n z s assms(2,3)
    by (cases p) (auto simp: clean_def edit_slot_def zero_slot_def dest: in_set_takeD)
qed

text \<open>What a change that may fail makes of the saved networks.\<close>

definition refines :: "nvs_in \<Rightarrow> creds_op \<Rightarrow> creds \<Rightarrow> bool" where
  "refines i op c \<longleftrightarrow>
    (let r = creds_do i op c; m = saved (creds_ns c); m' = saved (creds_ns (snd r)) in
     m' \<in> {m, snd (map_do op m)} \<and> (fst r = Some CREDS_OK \<longrightarrow> map_do op m = (Some CREDS_OK, m')) \<and>
     (creds_ready c \<and> ns_opens i \<and> ns_writes i \<and> ns_commits i \<longrightarrow> map_do op m = (fst r, m')))"

lemma nvs_change_cases: "nvs_change i ns' ns = (e, ns2) \<Longrightarrow> (ns2 = ns \<or> ns2 = ns') \<and> (e = CREDS_OK \<longrightarrow> ns2 = ns') \<and>
    (ns_writes i \<and> ns_commits i \<longrightarrow> e = CREDS_OK)"
  by (auto simp: nvs_change_def split: if_splits)

lemma step_answered:
  assumes "creds_do i op c = (Some (fst (nvs_change i ns' (creds_ns c))), c\<lparr>creds_ns := snd (nvs_change i ns' (creds_ns c))\<rparr>)"
    and "one_each (creds_ns c)" and "one_each ns'" and "map_do op (saved (creds_ns c)) = (Some CREDS_OK, saved ns')"
  shows "one_each (creds_ns (snd (creds_do i op c))) \<and> refines i op c"
  using assms nvs_change_cases [of i ns' "creds_ns c"] by (cases "nvs_change i ns' (creds_ns c)") (auto simp: refines_def)

lemma step_silent:
  assumes "creds_do i op c = (None, c\<lparr>creds_ns := snd (nvs_change i ns' (creds_ns c))\<rparr>)"
    and "one_each (creds_ns c)" and "one_each ns'" and "map_do op (saved (creds_ns c)) = (None, saved ns')"
  shows "one_each (creds_ns (snd (creds_do i op c))) \<and> refines i op c"
  using assms nvs_change_cases [of i ns' "creds_ns c"] by (cases "nvs_change i ns' (creds_ns c)") (auto simp: refines_def)

lemma step_by_nothing:
  assumes "snd (creds_do i op c) = c" and "one_each (creds_ns c)" and "fst (creds_do i op c) \<noteq> Some CREDS_OK \<or> map_do op (saved (creds_ns c)) = (Some CREDS_OK, saved (creds_ns c))"
    and "creds_ready c \<Longrightarrow> ns_opens i \<Longrightarrow> map_do op (saved (creds_ns c)) = (fst (creds_do i op c), saved (creds_ns c))"
  shows "one_each (creds_ns (snd (creds_do i op c))) \<and> refines i op c"
  using assms by (auto simp: refines_def)

lemma open_ns_ok: "open_ns i c = CREDS_OK \<longleftrightarrow> creds_ready c \<and> ns_opens i"
  by (simp add: open_ns_def)

lemma holder:
  assumes "one_each ns"
  shows "find (slot_holds ns name) [0..<WIFI_CREDS_MAX] = Some k \<Longrightarrow> k < WIFI_CREDS_MAX \<and> (\<exists>sl. slot_read ns k = Some sl \<and> slot_ssid sl = name \<and>
      saved ns name = Some sl \<and> clean sl)"
    "find (slot_holds ns name) [0..<WIFI_CREDS_MAX] = None \<longleftrightarrow> saved ns name = None"
  using find_upt [of "slot_holds ns name" WIFI_CREDS_MAX] saved_at [OF assms] slot_read_clean
  by (auto simp: saved_none slot_holds_def split: option.splits)

lemma holder_alone:
  assumes "one_each ns" and "k < WIFI_CREDS_MAX" and "slot_read ns k = Some sl"
  shows "i < WIFI_CREDS_MAX \<Longrightarrow> slot_holds ns (slot_ssid sl) i \<Longrightarrow> i = k"
  using assms unfolding one_each_def slot_holds_def by (auto split: option.splits)

lemma set_step:
  assumes one: "one_each (creds_ns c)" and cstr: "op_text (Creds_Set name p sec auto_join)"
  shows "one_each (creds_ns (snd (creds_do i (Creds_Set name p sec auto_join) c))) \<and> refines i (Creds_Set name p sec auto_join) c"
proof (cases "pure_wifi_ssid_valid name \<and> open_ns i c = CREDS_OK")
  case False
  then show ?thesis using one
    by (intro step_by_nothing) (auto simp: wifi_creds_set_def pure_wifi_ssid_valid_def open_ns_ok split: option.splits if_splits)
next
  case True
  then obtain x where x: "name = Some x" "pure_wifi_ssid_valid (Some x)" "open_ns i c = CREDS_OK"
    by (cases name) (auto simp: pure_wifi_ssid_valid_def)
  let ?ns = "creds_ns c" and ?edit = "edit_slot x p sec auto_join"
  show ?thesis
  proof (cases "find (slot_holds ?ns x) [0..<WIFI_CREDS_MAX]")
    case (Some k)
    then obtain sl where k: "k < WIFI_CREDS_MAX" "slot_read ?ns k = Some sl" "slot_ssid sl = x" "saved ?ns x = Some sl" "clean sl"
      using holder(1) [OF one] by blast
    have e: "clean (?edit sl)" "slot_ssid (?edit sl) = x" using edit_clean x cstr k(5) by simp_all
    note put = saved_put [OF one k(1) e(1), unfolded e(2)]
    have alone: "j = k" if "j < WIFI_CREDS_MAX" "slot_holds ?ns x j" for j using holder_alone [OF one k(1,2)] k(3) that by simp
    have own: "slot_read ?ns k = None \<or> slot_holds ?ns x k" using k by (simp add: slot_holds_def)
    show ?thesis
      by (rule step_answered [OF _ one put(1) [OF own alone]])
        (simp_all add: x Some slot_find_def slot_write_def wifi_creds_set_def case_prod_beta k put(2) [OF own alone])
  next
    case None
    note none = None
    then have s: "saved ?ns x = None" using holder(2) [OF one] by simp
    show ?thesis
    proof (cases "find (\<lambda>i. slot_read ?ns i = None) [0..<WIFI_CREDS_MAX]")
      case None
      then have "\<not> (\<exists>i < WIFI_CREDS_MAX. slot_read ?ns i = None)"
        using find_upt(2) [of "\<lambda>i. slot_read ?ns i = None" WIFI_CREDS_MAX] by simp
      then have "\<not> card (dom (saved ?ns)) < WIFI_CREDS_MAX" using room_iff [OF one] by simp
      then show ?thesis using one
        by (intro step_by_nothing) (simp_all add: x none None s slot_find_def wifi_creds_set_def)
    next
      case (Some k)
      then have k: "k < WIFI_CREDS_MAX" "slot_read ?ns k = None" using find_upt(1) by blast+
      then have room: "card (dom (saved ?ns)) < WIFI_CREDS_MAX" using room_iff [OF one] by blast
      have e: "clean (?edit zero_slot)" "slot_ssid (?edit zero_slot) = x" using edit_clean x cstr by simp_all
      note put = saved_put [OF one k(1) e(1), unfolded e(2)]
      have alone: "j = k" if "j < WIFI_CREDS_MAX" "slot_holds ?ns x j" for j using none find_upt(2) that by blast
      have own: "slot_read ?ns k = None \<or> slot_holds ?ns x k" using k by simp
      show ?thesis
        by (rule step_answered [OF _ one put(1) [OF own alone]])
          (simp_all add: x none Some s room slot_find_def slot_write_def wifi_creds_set_def case_prod_beta put(2) [OF own alone])
    qed
  qed
qed

lemma delete_step:
  assumes one: "one_each (creds_ns c)"
  shows "one_each (creds_ns (snd (creds_do i (Creds_Delete name) c))) \<and> refines i (Creds_Delete name) c"
proof (cases "\<exists>x k. name = Some x \<and> open_ns i c = CREDS_OK \<and> find (slot_holds (creds_ns c) x) [0..<WIFI_CREDS_MAX] = Some k")
  case True
  then obtain x k where x: "name = Some x" "open_ns i c = CREDS_OK" "find (slot_holds (creds_ns c) x) [0..<WIFI_CREDS_MAX] = Some k" by blast
  then obtain sl where k: "k < WIFI_CREDS_MAX" "slot_read (creds_ns c) k = Some sl" "slot_ssid sl = x" "saved (creds_ns c) x = Some sl"
    using holder(1) [OF one] by blast
  have h: "slot_holds (creds_ns c) x k" using k by (simp add: slot_holds_def)
  show ?thesis
    by (rule step_answered [OF _ one saved_del(1) [OF one k(1) h]])
      (simp_all add: x slot_find_def wifi_creds_delete_def case_prod_beta k saved_del(2) [OF one k(1) h])
next
  case False
  show ?thesis
  proof (cases "\<exists>x. name = Some x \<and> open_ns i c = CREDS_OK")
    case True
    then obtain x where x: "name = Some x" "open_ns i c = CREDS_OK" by blast
    with False have f: "find (slot_holds (creds_ns c) x) [0..<WIFI_CREDS_MAX] = None" by auto
    then have "saved (creds_ns c) x = None" using holder(2) [OF one] by simp
    then show ?thesis using one f by (intro step_by_nothing) (simp_all add: x wifi_creds_delete_def slot_find_def)
  next
    case False
    then show ?thesis using one by (intro step_by_nothing) (auto simp: wifi_creds_delete_def open_ns_ok split: option.splits)
  qed
qed

lemma mark_step:
  assumes one: "one_each (creds_ns c)"
  shows "one_each (creds_ns (snd (creds_do i (Creds_Mark name ms) c))) \<and> refines i (Creds_Mark name ms) c"
proof (cases "\<exists>x k. name = Some x \<and> open_ns i c = CREDS_OK \<and> find (slot_holds (creds_ns c) x) [0..<WIFI_CREDS_MAX] = Some k")
  case True
  then obtain x k where x: "name = Some x" "open_ns i c = CREDS_OK" "find (slot_holds (creds_ns c) x) [0..<WIFI_CREDS_MAX] = Some k" by blast
  then obtain sl where k: "k < WIFI_CREDS_MAX" "slot_read (creds_ns c) k = Some sl" "slot_ssid sl = x" "saved (creds_ns c) x = Some sl" "clean sl"
    using holder(1) [OF one] by blast
  let ?sl = "sl\<lparr>slot_connected_ms := ms\<rparr>"
  have e: "clean ?sl" "slot_ssid ?sl = x" using k(3,5) by (simp_all add: clean_def)
  note put = saved_put [OF one k(1) e(1), unfolded e(2)]
  have alone: "j = k" if "j < WIFI_CREDS_MAX" "slot_holds (creds_ns c) x j" for j using holder_alone [OF one k(1,2)] k(3) that by simp
  have own: "slot_read (creds_ns c) k = None \<or> slot_holds (creds_ns c) x k" using k by (simp add: slot_holds_def)
  show ?thesis
    by (rule step_silent [OF _ one put(1) [OF own alone]])
      (simp_all add: x slot_find_def slot_write_def wifi_creds_mark_connected_def k put(2) [OF own alone])
next
  case False
  show ?thesis
  proof (cases "\<exists>x. name = Some x \<and> open_ns i c = CREDS_OK")
    case True
    then obtain x where x: "name = Some x" "open_ns i c = CREDS_OK" by blast
    with False have f: "find (slot_holds (creds_ns c) x) [0..<WIFI_CREDS_MAX] = None" by auto
    then have "saved (creds_ns c) x = None" using holder(2) [OF one] by simp
    then show ?thesis using one f by (intro step_by_nothing) (simp_all add: x wifi_creds_mark_connected_def slot_find_def)
  next
    case False
    then show ?thesis using one by (intro step_by_nothing) (auto simp: wifi_creds_mark_connected_def open_ns_ok split: option.splits)
  qed
qed

lemma saved_empty: "one_each (\<lambda>_. None)" "saved (\<lambda>_. None) = Map.empty"
  by (simp_all add: one_each_def fun_eq_iff saved_none slot_holds_def)

lemma creds_step:
  assumes one: "one_each (creds_ns c)" and "op_text op"
  shows "one_each (creds_ns (snd (creds_do i op c))) \<and> refines i op c"
proof (cases op)
  case Creds_Init
  then show ?thesis using one by (simp add: refines_def wifi_creds_init_def)
next
  case Creds_Erase
  show ?thesis
  proof (cases "open_ns i c = CREDS_OK")
    case True
    then show ?thesis unfolding Creds_Erase
      by (intro step_answered [OF _ one saved_empty(1)]) (simp_all add: wifi_creds_erase_all_def saved_empty case_prod_beta)
  next
    case False
    then show ?thesis unfolding Creds_Erase
      by (intro step_by_nothing) (simp_all add: one wifi_creds_erase_all_def open_ns_ok)
  qed
qed (use assms set_step delete_step mark_step in simp_all)

lemma reach_one_each: "creds_reach c \<Longrightarrow> one_each (creds_ns c)"
  by (induction rule: creds_reach.induct) (use creds_step in \<open>auto simp: one_each_def\<close>)


definition sound_flash :: nvs_in where
  "sound_flash = \<lparr>ns_opens = True, ns_writes = True, ns_commits = True, ns_sticks = True\<rparr>"

definition sample_creds :: creds where
  "sample_creds = snd (creds_do sound_flash (Creds_Set (Some ''studio'') (Some ''correct horse'') NET_SEC_WPA2 True)
     (snd (creds_do sound_flash Creds_Init \<lparr>creds_ready = False, creds_ns = (\<lambda>_. None)\<rparr>)))"

lemma sample_creds_reach: "creds_reach sample_creds"
  unfolding sample_creds_def by (intro creds_reach.operate creds_reach.blank) simp_all


section \<open>Passphrases\<close>

text \<open>All that may be seen of a passphrase: whether there is one.\<close>

definition mask_text :: "string \<Rightarrow> string" where
  "mask_text p = (if c_string (PURE_WPA_PASSPHRASE_MAX + 1) p = [] then [] else ''*'')"

definition hide_slot :: "slot \<Rightarrow> slot" where
  "hide_slot sl = sl\<lparr>slot_passphrase := mask_text (slot_passphrase sl)\<rparr>"

fun hide_blob :: "blob \<Rightarrow> blob" where
  "hide_blob (Slot sl) = Slot (hide_slot sl)"
| "hide_blob Misfit = Misfit"

definition hide_ns :: "namespace \<Rightarrow> namespace" where
  "hide_ns ns = (\<lambda>k. map_option hide_blob (ns k))"

definition hide :: "creds \<Rightarrow> creds" where
  "hide c = c\<lparr>creds_ns := hide_ns (creds_ns c)\<rparr>"

fun hide_op :: "creds_op \<Rightarrow> creds_op" where
  "hide_op (Creds_Set name p sec auto_join) = Creds_Set name (map_option mask_text p) sec auto_join"
| "hide_op op = op"

text \<open>A run of operations, with their answers.\<close>

fun creds_run :: "(nvs_in \<times> creds_op) list \<Rightarrow> creds \<Rightarrow> creds_err option list \<times> creds" where
  "creds_run [] c = ([], c)"
| "creds_run ((i, op) # ops) c =
    (case creds_do i op c of (e, d) \<Rightarrow> apfst ((#) e) (creds_run ops d))"

text \<open>Everything the store answers, the radio driver being told the name and the security only.\<close>

definition creds_seen ::
  "nvs_in \<Rightarrow> nat \<Rightarrow> string option \<Rightarrow> (string \<Rightarrow> u8 \<Rightarrow> creds_err) \<Rightarrow> creds \<Rightarrow>
   wifi_cred_view list \<times> nat \<times> bool \<times> string option \<times> creds_err" where
  "creds_seen i cap name sink c =
    (wifi_creds_list i cap c, wifi_creds_count i c, wifi_creds_has_password i name c, wifi_creds_auto_join_target i cap c,
     wifi_creds_apply_to i name (\<lambda>x p s. sink x s) c)"

lemma c_string_take: "c_string (Suc n) (take n p) = c_string (Suc n) p"
  by (simp add: c_string_def)

lemma c_string_id_on: "c_string n (c_string n p) = c_string n p"
proof (cases "0 < n")
  case True
  then show ?thesis by (intro c_string_id c_string_clean)
qed (simp add: c_string_def)

lemma mask_simps [simp]: "mask_text (mask_text p) = mask_text p" "mask_text [] = []" "c_string (Suc PURE_WPA_PASSPHRASE_MAX) (mask_text p) = mask_text p"
  "mask_text (take PURE_WPA_PASSPHRASE_MAX p) = mask_text p" "mask_text (c_string (Suc PURE_WPA_PASSPHRASE_MAX) p) = mask_text p"
proof -
  have star: "c_string (Suc PURE_WPA_PASSPHRASE_MAX) ''*'' = ''*''" "c_string n [] = []" for n
    by (simp_all add: c_string_def PURE_WPA_PASSPHRASE_MAX_def)
  show "mask_text (mask_text p) = mask_text p" "mask_text [] = []" "c_string (Suc PURE_WPA_PASSPHRASE_MAX) (mask_text p) = mask_text p"
    by (simp_all add: mask_text_def star)
  show "mask_text (take PURE_WPA_PASSPHRASE_MAX p) = mask_text p" by (simp add: mask_text_def c_string_take)
  show "mask_text (c_string (Suc PURE_WPA_PASSPHRASE_MAX) p) = mask_text p" by (simp add: mask_text_def c_string_id_on)
qed

lemma mask_empty: "CHR 0x00 \<notin> set p \<Longrightarrow> mask_text p = [] \<longleftrightarrow> p = []"
  by (cases p) (auto simp: mask_text_def c_string_def PURE_WPA_PASSPHRASE_MAX_def)

lemma hide_slot_simps [simp]: "hide_slot (hide_slot sl) = hide_slot sl" "slot_ssid (hide_slot sl) = slot_ssid sl"
  "slot_auto_join (hide_slot sl) = slot_auto_join sl" "slot_connected_ms (hide_slot sl) = slot_connected_ms sl"
  "slot_security (hide_slot sl) = slot_security sl" "hide_slot zero_slot = zero_slot"
  by (simp_all add: hide_slot_def zero_slot_def)

lemma hide_blob_twice [simp]: "hide_blob (hide_blob b) = hide_blob b"
  by (cases b) simp_all

lemma hide_ns_simps [simp]: "hide_ns (hide_ns ns) = hide_ns ns" "hide_ns (\<lambda>_. None) = (\<lambda>_. None)"
  "hide_ns (ns(k := b)) = (hide_ns ns)(k := map_option hide_blob b)"
  by (auto simp: hide_ns_def fun_eq_iff option.map_comp comp_def)

lemma slot_read_hide [simp]: "slot_read (hide_ns ns) k = map_option hide_slot (slot_read ns k)"
  by (auto simp: hide_ns_def slot_read_def hide_slot_def Let_def split: option.splits blob.splits)

lemma slots_hide [simp]: "readable_slots (hide_ns ns) = map hide_slot (readable_slots ns)" "slot_holds (hide_ns ns) x = slot_holds ns x"
  "slot_find (hide_ns ns) x = slot_find ns x"
proof -
  show "readable_slots (hide_ns ns) = map hide_slot (readable_slots ns)"
    by (auto simp: readable_slots_def map_filter_def comp_def intro!: filter_cong)
  show "slot_holds (hide_ns ns) x = slot_holds ns x" for ns x
    by (auto simp: slot_holds_def fun_eq_iff split: option.splits)
  then show "slot_find (hide_ns ns) x = slot_find ns x" by (simp add: slot_find_def)
qed

lemma edit_hide:
  assumes "op_text (Creds_Set name p sec auto_join)"
  shows "hide_slot (edit_slot x p sec auto_join sl) = hide_slot (edit_slot x (map_option mask_text p) sec auto_join (hide_slot sl))"
  using assms mask_empty by (cases p) (auto simp: edit_slot_def hide_slot_def)

lemma nvs_change_hide:
  assumes "hide_ns a = hide_ns b"
  shows "fst (nvs_change i b (hide_ns ns)) = fst (nvs_change i a ns) \<and> hide_ns (snd (nvs_change i b (hide_ns ns))) = hide_ns (snd (nvs_change i a ns))"
  using assms by (simp add: nvs_change_def)

lemma open_hide [simp]: "open_ns i (hide c) = open_ns i c"
  by (simp add: open_ns_def hide_def)

lemma hide_simps [simp]: "creds_ns (hide c) = hide_ns (creds_ns c)" "hide (c\<lparr>creds_ns := ns\<rparr>) = c\<lparr>creds_ns := hide_ns ns\<rparr>"
  "(hide c)\<lparr>creds_ns := ns\<rparr> = c\<lparr>creds_ns := ns\<rparr>" "hide (hide c) = hide c" "(hide c)\<lparr>creds_ready := True\<rparr> = hide (c\<lparr>creds_ready := True\<rparr>)"
  by (simp_all add: hide_def)

lemma slot_write_hide:
  assumes "hide_slot a = hide_slot b"
  shows "fst (slot_write i k b (hide_ns ns)) = fst (slot_write i k a ns)"
    "hide_ns (snd (slot_write i k b (hide_ns ns))) = hide_ns (snd (slot_write i k a ns))"
  using nvs_change_hide [of "ns(slot_key k := Some (Slot a))" "(hide_ns ns)(slot_key k := Some (Slot b))" i ns] assms
  by (simp_all add: slot_write_def)

lemma set_hide:
  assumes "op_text (Creds_Set name p sec auto_join)"
  shows "fst (wifi_creds_set i name (map_option mask_text p) sec auto_join (hide c)) = fst (wifi_creds_set i name p sec auto_join c)"
    "hide (snd (wifi_creds_set i name (map_option mask_text p) sec auto_join (hide c))) = hide (snd (wifi_creds_set i name p sec auto_join c))"
proof -
  note w = slot_write_hide [OF edit_hide [OF assms]]
  note z = slot_write_hide [OF edit_hide [OF assms, of _ zero_slot, unfolded hide_slot_simps]]
  have e: "(case map_option hide_slot o' of None \<Rightarrow> zero_slot | Some sl \<Rightarrow> sl) = hide_slot (case o' of None \<Rightarrow> zero_slot | Some sl \<Rightarrow> sl)" for o'
    by (cases o') simp_all
  show "fst (wifi_creds_set i name (map_option mask_text p) sec auto_join (hide c)) = fst (wifi_creds_set i name p sec auto_join c)"
    by (simp add: wifi_creds_set_def e case_prod_beta w z split: option.split)
  show "hide (snd (wifi_creds_set i name (map_option mask_text p) sec auto_join (hide c))) = hide (snd (wifi_creds_set i name p sec auto_join c))"
    by (simp add: wifi_creds_set_def e case_prod_beta w z split: option.split)
qed

lemma delete_hide:
  "fst (wifi_creds_delete i name (hide c)) = fst (wifi_creds_delete i name c)"
  "hide (snd (wifi_creds_delete i name (hide c))) = hide (snd (wifi_creds_delete i name c))"
proof -
  have d: "fst (nvs_change i ((hide_ns ns)(k := None)) (hide_ns ns)) = fst (nvs_change i (ns(k := None)) ns)"
    "hide_ns (snd (nvs_change i ((hide_ns ns)(k := None)) (hide_ns ns))) = hide_ns (snd (nvs_change i (ns(k := None)) ns))" for ns k
    using nvs_change_hide [of "ns(k := None)" "(hide_ns ns)(k := None)" i ns] by simp_all
  show "fst (wifi_creds_delete i name (hide c)) = fst (wifi_creds_delete i name c)"
    "hide (snd (wifi_creds_delete i name (hide c))) = hide (snd (wifi_creds_delete i name c))"
    by (simp_all add: wifi_creds_delete_def case_prod_beta d split: option.split)
qed

lemma mark_hide: "hide (wifi_creds_mark_connected i name ms (hide c)) = hide (wifi_creds_mark_connected i name ms c)"
proof -
  have "hide_slot (sl\<lparr>slot_connected_ms := ms\<rparr>) = hide_slot ((hide_slot sl)\<lparr>slot_connected_ms := ms\<rparr>)" for sl by (simp add: hide_slot_def)
  note w = slot_write_hide [OF this]
  show ?thesis by (simp add: wifi_creds_mark_connected_def w split: option.split)
qed

lemma erase_hide:
  "fst (wifi_creds_erase_all i (hide c)) = fst (wifi_creds_erase_all i c)"
  "hide (snd (wifi_creds_erase_all i (hide c))) = hide (snd (wifi_creds_erase_all i c))"
  using nvs_change_hide [of "\<lambda>_. None" "\<lambda>_. None" i "creds_ns c"] by (simp_all add: wifi_creds_erase_all_def case_prod_beta)

lemma do_hide:
  assumes "op_text op"
  shows "fst (creds_do i (hide_op op) (hide c)) = fst (creds_do i op c)" "hide (snd (creds_do i (hide_op op) (hide c))) = hide (snd (creds_do i op c))"
  using assms by (cases op; simp add: set_hide delete_hide mark_hide erase_hide wifi_creds_init_def)+

lemma find_map_hide: "find (\<lambda>sl. slot_ssid sl = x) (map hide_slot sls) = map_option hide_slot (find (\<lambda>sl. slot_ssid sl = x) sls)"
  by (induction sls) simp_all

lemma best_target_hide [simp]: "best_target b f (map hide_slot sls) = best_target b f sls"
  by (induction b f sls rule: best_target.induct) simp_all

lemma readable_masked: "sl \<in> set (readable_slots ns) \<Longrightarrow> mask_text (slot_passphrase sl) = [] \<longleftrightarrow> slot_passphrase sl = []"
  using slot_read_clean mask_empty by (auto simp: set_readable clean_def)

lemma seen_hide: "creds_seen i cap name sink (hide c) = creds_seen i cap name sink c"
proof -
  have "view_of (hide_slot sl) = view_of sl" if "sl \<in> set (readable_slots (creds_ns c))" for sl
    using readable_masked [OF that] by (simp add: view_of_def) (simp add: hide_slot_def)
  then have v: "map (view_of \<circ> hide_slot) (readable_slots (creds_ns c)) = map view_of (readable_slots (creds_ns c))" by simp
  have h: "slot_passphrase (hide_slot sl) = [] \<longleftrightarrow> slot_passphrase sl = []"
    if "find (\<lambda>sl. slot_ssid sl = x) (readable_slots (creds_ns c)) = Some sl" for sl x
  proof -
    have "sl \<in> set (readable_slots (creds_ns c))" using that by (auto simp: find_Some_iff)
    then show ?thesis using readable_masked by (simp add: hide_slot_def)
  qed
  have "wifi_creds_has_password i name (hide c) = wifi_creds_has_password i name c"
    using h by (auto simp: wifi_creds_has_password_def find_map_hide split: option.splits)
  then show ?thesis
    by (simp add: creds_seen_def wifi_creds_list_def wifi_creds_count_def wifi_creds_auto_join_target_def wifi_creds_apply_to_def v find_map_hide
        split: option.split)
qed

lemma run_hide:
  assumes "list_all (\<lambda>(i, op). op_text op) ops" and "list_all (\<lambda>(i, op). op_text op) ops'"
    and "map (apsnd hide_op) ops = map (apsnd hide_op) ops'" and "hide c = hide d"
  shows "fst (creds_run ops c) = fst (creds_run ops' d) \<and> hide (snd (creds_run ops c)) = hide (snd (creds_run ops' d))"
  using assms
proof (induction ops arbitrary: ops' c d)
  case Nil
  then show ?case by simp
next
  case (Cons x ops)
  obtain i op where x: "x = (i, op)" by fastforce
  then obtain op' rest where r: "ops' = (i, op') # rest" "hide_op op' = hide_op op" "map (apsnd hide_op) ops = map (apsnd hide_op) rest"
    using Cons.prems(3) by (cases ops') (auto simp: apsnd_def map_prod_def)
  have "fst (creds_do i op c) = fst (creds_do i op' d)" "hide (snd (creds_do i op c)) = hide (snd (creds_do i op' d))"
    using do_hide [of op i c] do_hide [of op' i d] Cons.prems x r by simp_all
  then show ?case using Cons.IH [of rest "snd (creds_do i op c)" "snd (creds_do i op' d)"] Cons.prems x r
    by (simp add: case_prod_beta)
qed

text \<open>
  C24: No passphrase leaves the store but to the radio. Take two cameras whose stores differ in the passphrases only, and two runs of the same
  operations that differ in the passphrases given only: every operation answers the same, and afterwards the list of networks, their number, whether
  one has a passphrase, the network to join, and what a driver that does not look at the passphrase makes of it, are the same too. What may be
  seen of a passphrase is whether there is one.
\<close>

theorem passphrases_stay_inside:
  assumes "list_all (\<lambda>(i, op). op_text op) ops" and "list_all (\<lambda>(i, op). op_text op) ops'"
    and "map (apsnd hide_op) ops = map (apsnd hide_op) ops'" and "hide c = hide d"
  shows "fst (creds_run ops c) = fst (creds_run ops' d) \<and>
    creds_seen i cap name sink (snd (creds_run ops c)) = creds_seen i cap name sink (snd (creds_run ops' d))"
  using run_hide [OF assms] seen_hide [of i cap name sink "snd (creds_run ops c)"] seen_hide [of i cap name sink "snd (creds_run ops' d)"] by simp

theorem passphrases_stay_inside_witness:
  "let ops = (\<lambda>p. [(sound_flash, Creds_Init), (sound_flash, Creds_Set (Some ''studio'') (Some p) NET_SEC_WPA2 True)]);
       c = \<lparr>creds_ready = False, creds_ns = (\<lambda>_. None)\<rparr> in
   fst (creds_run (ops ''correct horse'') c) = fst (creds_run (ops ''battery staple'') c) \<and>
   creds_seen sound_flash 8 (Some ''studio'') (\<lambda>x s. CREDS_OK) (snd (creds_run (ops ''correct horse'') c)) =
   creds_seen sound_flash 8 (Some ''studio'') (\<lambda>x s. CREDS_OK) (snd (creds_run (ops ''battery staple'') c))"
  unfolding Let_def
  by (rule passphrases_stay_inside) (simp_all add: mask_text_def c_string_def PURE_WPA_PASSPHRASE_MAX_def)

section \<open>The network to join\<close>

text \<open>
  The network the camera tries by itself is the one it used last among those it may join, where the time of use is not
  negative.
\<close>

lemma best_target_best:
  assumes "best_target b f sls = Some x"
  shows "(f = Some x \<and> (\<forall>sl \<in> set sls. slot_auto_join sl \<noteq> 0 \<longrightarrow> slot_connected_ms sl \<le> b)) \<or>
    (\<exists>sl \<in> set sls. slot_ssid sl = x \<and> slot_auto_join sl \<noteq> 0 \<and> slot_connected_ms sl > b \<and>
      (\<forall>s \<in> set sls. slot_auto_join s \<noteq> 0 \<longrightarrow> slot_connected_ms s \<le> slot_connected_ms sl))"
  using assms
proof (induction b f sls rule: best_target.induct)
  case (2 b f sl sls)
  then show ?case by (cases "slot_auto_join sl = 0"; cases "slot_connected_ms sl > b") (force simp: not_less)+
qed simp

lemma join_target_is_last_used:
  assumes "creds_reach c" and "wifi_creds_auto_join_target i NET_SSID_LEN c = Some x"
  shows "\<exists>sl. saved (creds_ns c) x = Some sl \<and> slot_auto_join sl \<noteq> 0 \<and>
    (\<forall>y s. saved (creds_ns c) y = Some s \<and> slot_auto_join s \<noteq> 0 \<longrightarrow> slot_connected_ms s \<le> slot_connected_ms sl)"
proof -
  note one = reach_one_each [OF assms(1)]
  obtain z where z: "best_target (- 1) None (readable_slots (creds_ns c)) = Some z" "x = take (NET_SSID_LEN - 1) z"
    using assms(2) by (auto simp: wifi_creds_auto_join_target_def split: if_splits)
  then obtain sl where sl: "sl \<in> set (readable_slots (creds_ns c))" "slot_ssid sl = z" "slot_auto_join sl \<noteq> 0"
      "\<forall>s \<in> set (readable_slots (creds_ns c)). slot_auto_join s \<noteq> 0 \<longrightarrow> slot_connected_ms s \<le> slot_connected_ms sl"
    using best_target_best [OF z(1)] by auto
  moreover have "x = z"
  proof -
    have "clean sl" using sl(1) slot_read_clean by (auto simp: set_readable)
    then have "length z < NET_SSID_LEN" using sl(2) by (simp add: clean_def)
    then show ?thesis using z(2) by simp
  qed
  ultimately show ?thesis using saved_iff [OF one] set_readable by metis
qed

end
