(* ===== verification/Spec2Isabelle.thy ===== *)
theory Spec2Isabelle
  imports Kdp_Decoder Upload_Cycle Wall_Clock Pure_Text Pure_Monitor Pure_Wiggle Gallery_Index Radio_Recovery Cam_Sched Wav_Probe Net_Link
    Qr_Reader Qr_Penalty Storage_Watch Safe_Mode Fw_Transfer Upload_Store Wifi_Creds
begin

text \<open>
  A verification development for the firmware of the KINO D4, a camera with four lenses
  (\<^verbatim>\<open>src/firmware\<close>). The body is an ESP32-P4 (\<^verbatim>\<open>firmware/p4/main\<close>); it talks to a computer over
  KDP frames (\<^verbatim>\<open>firmware/components/kdp_core\<close>), to four camera nodes over serial links, and through a
  radio coprocessor to the Roll service, where its photographs go. The theories model the parts of
  the body that decide something: framing, the upload queue, the clock, the radio's recovery, the
  network view, the gallery's index, the join code's symbol, the log, firmware updates with the nodes'
  side of them, and the rules of \<^verbatim>\<open>pure.c\<close>.

  \<^bold>\<open>How the parts meet.\<close> A finished capture enters the upload queue (\<^verbatim>\<open>upload_queue.c\<close>), whose
  worker asks one job at a time for its next step, runs it against the service, and books the
  outcome with the rules of \<^verbatim>\<open>roll_queue.c\<close>; texts of the service pass through its redaction before they
  are kept. Passes over the card find captures the window of jobs does not hold. The supervisor of
  \<^verbatim>\<open>net_hosted.c\<close> steps the recovery machine of \<^verbatim>\<open>radio_recovery.c\<close>, reports what the radio does to
  \<^verbatim>\<open>net_link.c\<close>, and at the end of a recovery wakes the queue. The clock (\<^verbatim>\<open>clock.c\<close>) is set by a host, by
  the network or from flash, under the rules of \<^verbatim>\<open>pure.c\<close>. The shutter and the preview share the
  camera links under \<^verbatim>\<open>cam_sched.c\<close>. The gallery reads its order from an index file written by
  \<^verbatim>\<open>gallery_index.c\<close>. Every part writes to the log (\<^verbatim>\<open>klog.c\<close>), which the watch over the card (\<^verbatim>\<open>storage_watch.c\<close>) copies to a
  file. An update of the firmware (\<^verbatim>\<open>fw_update.c\<close>) goes into the body's own flash or on over a camera's link.

  \<^bold>\<open>Reading the models.\<close> C structures are records, enumerations are datatypes, integers whose width
  matters are words of that width, and the others are \<^typ>\<open>int\<close> or \<^typ>\<open>nat\<close>. A C string is the list of
  its characters without the terminator; a null pointer is \<^const>\<open>None\<close> where the code tests for it. Module
  state is a record passed in and returned. Code that takes and drops a lock is split at the points
  where the lock is free, so that interleavings are sequences of the pieces. Answers of hardware,
  drivers, files and the service are arguments. Loops are structural recursions or functions with
  a termination proof; log lines for a human are left out except where the log is the subject.

  \<^bold>\<open>The theories.\<close>

  \<^item> \<open>Kino_Prelude\<close>, \<open>Kino_Decimal\<close>: integer types, C strings, list and word lemmas, decimal text, and
    the interfaces \<open>ranked_machine\<close> (every judged event lowers a rank) and \<open>stuttering_machine\<close> (rounds
    that wait may come between), which carry the proofs that jobs and recoveries end.
  \<^item> \<open>Kdp_Crc32\<close>, \<open>Kdp_Packet\<close>, \<open>Kdp_Decoder\<close> (\<^verbatim>\<open>kdp_core\<close>): the table-driven CRC is the bitwise one; encoding
    and decoding are inverse; the decoder's buffer and scan refine a parser of the whole stream,
    through the interface \<open>stream_decoder\<close>, so that how reads cut the stream does not matter; a damaged
    frame is not delivered; every byte is accounted for.
  \<^item> \<open>Roll_Policy\<close>, \<open>Roll_Job\<close>, \<open>Roll_Scan\<close>, \<open>Roll_Text\<close> (\<^verbatim>\<open>roll_queue.c\<close>): classification and backoff; one job's
    steps in order, never losing a confirmed file, settled after at most 180 judged outcomes
    (the initial rank of a job with four frames: attempts and rereads of each step); what a pass over the
    card decides; redaction of tokens and control characters.
  \<^item> \<open>Upload_List\<close>, \<open>Upload_Worker\<close>, \<open>Upload_Cycle\<close> (\<^verbatim>\<open>upload_queue.c\<close>): the window of jobs with its invariant
    under every operation; the result of a step reaches the job it was made for although entries move while
    the lock is free; a cycle of passes looks at every capture directory; and two interleavings in
    which the queue does something else than meant.
  \<^item> \<open>Pure_Clock\<close>, \<open>Wall_Clock\<close> (\<^verbatim>\<open>pure.c\<close>, \<^verbatim>\<open>clock.c\<close>): the calendar is the Gregorian one, timestamps determine
    the second; the clock goes back at most once in a session.
  \<^item> \<open>Pure_Text\<close>, \<open>Pure_Monitor\<close>, \<open>Pure_Wiggle\<close>, \<open>Pure_Capture\<close> (\<^verbatim>\<open>pure.c\<close>): checks on texts against reference
    definitions; the lens cover as a debounced vote and the other small monitors; frame order; capture
    arithmetic.
  \<^item> \<open>Gallery_Index\<close> (\<^verbatim>\<open>gallery_index.c\<close>): what is written reads back, a file cut anywhere reads as a prefix,
    no name leaves the directory.
  \<^item> \<open>Radio_Recovery\<close>, \<open>Net_Link\<close> (\<^verbatim>\<open>radio_recovery.c\<close>, \<^verbatim>\<open>net_link.c\<close>): recovery ends within 89 rounds that
    find their deadline due (the rank of a fresh loss), Wi-Fi starts only behind the version gate; the
    network view is what the reports say.
  \<^item> \<open>Cam_Sched\<close> (\<^verbatim>\<open>cam_sched.c\<close>): a running capture and a probe exclude each other, and a capture waits
    for at most the probes already running.
  \<^item> \<open>Wav_Probe\<close> (\<^verbatim>\<open>wav_probe.c\<close>): the walk over a sound file's chunks ends, reads no byte outside the
    buffer, and accepts what Studio writes.
  \<^item> \<open>Qr_Field\<close>, \<open>Qr_Symbol\<close>, \<open>Qr_Code\<close>, \<open>Qr_Reader\<close>, \<open>Qr_Penalty\<close> (\<^verbatim>\<open>qr.c\<close>): the arithmetic of bytes is a field (interfaces
    \<open>byte_ring\<close> and \<open>byte_field\<close>), so two texts of one block differ in more places than its parity has; a reader that
    follows the standard gets the text back from the symbol; the penalty is the sum of the standard's four rules
    and the mask chosen has the least. Versions 1 to 10, as in the code.
  \<^item> \<open>Klog\<close>, \<open>Storage_Watch\<close> (\<^verbatim>\<open>klog.c\<close>, \<^verbatim>\<open>storage_watch.c\<close>): the ring of lines against the whole history; a reply holds the newest
    lines that fit; the file on the card has every line once and in order, through the interface \<open>line_source\<close> of a reader with a
    cursor (602 exports are enough for 600 lines); old files are pruned, newest kept; the screen's news is a
    bounded queue (\<open>bounded_queue\<close>).
  \<^item> \<open>Safe_Mode\<close> (\<^verbatim>\<open>safe_mode.c\<close>): safe mode is on exactly after three crashes in a row.
  \<^item> \<open>Fw_Image\<close>, \<open>Fw_Node\<close>, \<open>Fw_Update\<close>, \<open>Fw_Pair\<close>, \<open>Fw_Transfer\<close> (\<^verbatim>\<open>fw_update.c\<close>, \<^verbatim>\<open>cam_link.c\<close>, \<^verbatim>\<open>camnode/main/node_server.c\<close>): a firmware
    update from the host through the body to a node. Body and node are both receivers of an image (interface
    \<open>image_receiver\<close>): whatever is lost or restarted, what either selects to boot is the announced image, and at a node it is
    what the host sent; an undisturbed update arrives; a node that was told to restart is given an answer.
  \<^item> \<open>Upload_Store\<close> (\<^verbatim>\<open>upload_store.c\<close>): the record of a queued upload, its text and back, its save, the metadata's camera list and Roll,
    and the look at a directory that the pass of \<open>Upload_Worker\<close> takes as an argument. A record reads back as its job; a power cut
    during a save is recovered from; a card of the queue's own records satisfies what the window's invariant asks of a pass. cJSON is
    an argument, with what is asked of it in \<open>cjson_ok\<close>.
  \<^item> \<open>Wifi_Creds\<close> (\<^verbatim>\<open>wifi_creds.c\<close>): the saved networks. Through any operations, flash failures and reboots the slots are a map of at most eight
    entries from names to networks; no answer depends on a passphrase beyond whether there is one; the network joined by itself is the one used
    last.
  This theory adds what spans components: a finished recovery puts waiting photographs in motion.

  \<^bold>\<open>Not modelled.\<close> The screen (\<^verbatim>\<open>ui.c\<close>, \<^verbatim>\<open>gfx.c\<close>, fonts), drivers and board services (display, touch, audio,
  power, I2C, USB), the command handlers of \<^verbatim>\<open>kdp_server.c\<close> and its modules, which build cJSON
  documents around calls of the modules above, the camera transfers of \<^verbatim>\<open>capture.c\<close> and the rest of \<^verbatim>\<open>cam_link.c\<close>, HTTP
  and TLS (\<^verbatim>\<open>roll_http.c\<close>, \<^verbatim>\<open>roll_api.c\<close>), card and flash access (\<^verbatim>\<open>storage.c\<close>, \<^verbatim>\<open>config_store.c\<close>),
  the image arithmetic on floating point numbers, and what else the other chips run: they are
  input and output, calls of libraries that are not in the repository, or drawing. Host tests,
  previews and the twin compile the same sources and add no logic of the camera.
\<close>

section \<open>The radio and the upload queue\<close>

text \<open>
  A round of \<^verbatim>\<open>net_hosted.c\<close>'s supervisor with the one effect its \<^verbatim>\<open>perform\<close> has on the upload queue: the last
  thing a finished recovery does is to tell the queue that the network is back.
\<close>

definition supervisor_round :: "rr \<times> uq \<Rightarrow> rr_round_in \<Rightarrow> rr \<times> uq" where
  "supervisor_round = (\<lambda>(r, q) i.
    (rr_round r i, if rr_round_action r i = RR_ACT_RECOVERED then upload_queue_network_restored q else q))"

lemma recovered_is_healthy:
  "rr_round_action r i = RR_ACT_RECOVERED \<Longrightarrow> state (rr_round r i) = RR_HEALTHY"
  by (cases i; cases "state r") (auto simp: rr_step_def rr_fields Let_def split: if_splits)

lemma restored_job_runnable:
  assumes "job_state j = RQ_RETRY_WAIT \<or> rq_park_is_transient j" "0 \<le> t"
  shows "runnable t (revive_if_transient (if job_state j \<noteq> RQ_RETRY_WAIT then j else rq_job_network_restored j))"
  using assms
  by (auto simp: runnable_def revive_if_transient_def rq_job_network_restored_def rq_park_is_transient_def
      rq_job_revive_def rq_next_step_def rq_retry_due_def Let_def split: if_splits)

lemma restored_nth:
  "k < length (s_jobs q) \<Longrightarrow> s_jobs (upload_queue_network_restored q) ! k =
    revive_if_transient (if job_state (s_jobs q ! k) \<noteq> RQ_RETRY_WAIT then s_jobs q ! k
                         else rq_job_network_restored (s_jobs q ! k))"
  by (simp add: upload_queue_network_restored_def revive_transient_locked_def Let_def)

text \<open>
  C22: A finished recovery puts the photographs back in motion. In the round in which the radio recovers,
  the machine becomes healthy, and every capture of the window that waited for its next attempt or
  was parked because the network was gone has a step to run at once, whatever its deadline was.
\<close>

theorem recovery_wakes_the_queue:
  assumes "rr_round_action r i = RR_ACT_RECOVERED" "0 \<le> t" "k < length (s_jobs q)"
    "job_state (s_jobs q ! k) = RQ_RETRY_WAIT \<or> rq_park_is_transient (s_jobs q ! k)"
  shows "state (fst (supervisor_round (r, q) i)) = RR_HEALTHY \<and>
    runnable t (s_jobs (snd (supervisor_round (r, q) i)) ! k)"
  using recovered_is_healthy [OF assms(1)] restored_job_runnable [OF assms(4,2)] restored_nth [OF assms(3)] assms(1)
  by (simp add: supervisor_round_def)

definition joined_radio :: rr where
  "joined_radio = rr_init\<lparr>state := RR_WIFI_JOIN, action_pending := True, deadline_ms := 20000\<rparr>"

definition waiting_job :: rq_job where
  "waiting_job = (rq_job_revive (init_common (Some ''x'') (Some ''r'') False))\<lparr>next_attempt_ms := 900000\<rparr>"

theorem recovery_wakes_the_queue_witness:
  "runnable 1000 (s_jobs (snd (supervisor_round (joined_radio, uq_boot\<lparr>s_jobs := [waiting_job]\<rparr>) (all_signs, 500, 0, 500))) ! 0)"
  using recovery_wakes_the_queue [of joined_radio "(all_signs, 500, 0, 500)" 1000 0 "uq_boot\<lparr>s_jobs := [waiting_job]\<rparr>"]
  by (simp add: joined_radio_def rr_step_def recovered_def all_signs_def waiting_job_def rq_job_revive_def rr_init_def)

end
